(* ===== verification/Rsched_Prelude.thy ===== *)
theory Rsched_Prelude
  imports Main "HOL-Library.Word"
begin

text \<open>
  Shared vocabulary of the development: the machine types of the Rust sources (64-bit Linux
  target), the faults a Rust operation can end in, checked indexing and arithmetic, and the
  outcome type of code that may suspend in the middle of a function.

  A call into the scheduler runs with the global mutex GMTX held, from \<open>rsched_glock\<close> to
  \<open>rsched_gunlock\<close>, except inside \<open>rsched_cond_wait\<close>, which releases it. Everything between two
  such points is one \<^emph>\<open>segment\<close>, and segments of different threads exclude each other. A
  function that waits therefore does not return a value: it ends its segment with
  \<open>Park q k w\<close>, where \<open>q\<close> is the condition variable it waits on, \<open>k\<close> names the point where it
  resumes (a stack of frames, one per suspended Rust function) and \<open>w\<close> is the state it leaves
  to the other threads.
\<close>

section \<open>Machine types\<close>

type_synonym u8 = "8 word"
type_synonym u16 = "16 word"
type_synonym u32 = "32 word"
type_synonym u64 = "64 word"
type_synonym usize = "64 word"
type_synonym PthreadT = "64 word"
type_synonym pid_t = "32 word"
type_synonym c_int = int

section \<open>Faults\<close>

text \<open>
  What ends a Rust computation early: a panic (an index out of range, an \<open>expect\<close> or \<open>unwrap\<close> on
  \<open>None\<close>, a \<open>panic!\<close> or failed \<open>assert!\<close> with its message, an arithmetic overflow in a build with overflow checks, a remainder by zero), or a use
  of a heap box that has been freed, which is undefined behaviour and must never happen.
\<close>

datatype fault =
    IndexOutOfBounds
  | RemByZero
  | AddOverflow
  | SubOverflow
  | MulOverflow
  | Expect string
  | UnwrapNone
  | Panic string
  | UseAfterFree

definition index :: "'a list \<Rightarrow> nat \<Rightarrow> fault + 'a" where
  "index xs i = (if i < length xs then Inr (xs ! i) else Inl IndexOutOfBounds)"

text \<open>
  Rust's \<open>a + b\<close> and \<open>a - b\<close> on unsigned integers: they wrap around, or panic when the crate is
  built with overflow checks (\<open>oc\<close>).
\<close>

definition chk_add :: "bool \<Rightarrow> 'a::len word \<Rightarrow> 'a word \<Rightarrow> fault + 'a word" where
  "chk_add oc a b =
     (if oc \<and> 2 ^ LENGTH('a) \<le> unat a + unat b then Inl AddOverflow else Inr (a + b))"

definition chk_sub :: "bool \<Rightarrow> 'a::len word \<Rightarrow> 'a word \<Rightarrow> fault + 'a word" where
  "chk_sub oc a b = (if oc \<and> unat a < unat b then Inl SubOverflow else Inr (a - b))"

definition chk_mul :: "bool \<Rightarrow> 'a::len word \<Rightarrow> 'a word \<Rightarrow> fault + 'a word" where
  "chk_mul oc a b =
     (if oc \<and> 2 ^ LENGTH('a) \<le> unat a * unat b then Inl MulOverflow else Inr (a * b))"

section \<open>Segments and their outcomes\<close>

text \<open>The condition variables of the program: a thread's own \<open>suspend_cond\<close> and the
  \<open>ready_cond\<close> inside a boxed \<open>StartArg\<close>, named by the address of the box.\<close>

datatype waitq = SuspendCond PthreadT | ReadyCond usize

datatype ('a, 'k, 'w) outcome =
    Done 'a 'w
  | Park waitq 'k 'w
  | Fault fault

text \<open>
  Calling a function that may park: on \<open>Done\<close> the caller's rest \<open>k\<close> runs, on \<open>Park\<close> the
  caller's frame \<open>f\<close> is pushed below the frames of the callee. \<open>ocall\<close> is the same for the
  outermost function of a segment, whose frame is kept apart because it is the one that returns a
  value to the program.
\<close>

definition icall ::
  "('a, 'f list, 'w) outcome \<Rightarrow> 'f \<Rightarrow> ('w \<Rightarrow> ('b, 'f list, 'w) outcome) \<Rightarrow> ('b, 'f list, 'w) outcome" where
  "icall m f k = (case m of
     Done _ w \<Rightarrow> k w
   | Park q fs w \<Rightarrow> Park q (fs @ [f]) w
   | Fault e \<Rightarrow> Fault e)"

definition ocall ::
  "('a, 'f list, 'w) outcome \<Rightarrow> 'o \<Rightarrow> ('w \<Rightarrow> ('b, 'f list \<times> 'o, 'w) outcome)
     \<Rightarrow> ('b, 'f list \<times> 'o, 'w) outcome" where
  "ocall m f k = (case m of
     Done _ w \<Rightarrow> k w
   | Park q fs w \<Rightarrow> Park q (fs, f) w
   | Fault e \<Rightarrow> Fault e)"

text \<open>A fallible pure step inside a segment.\<close>

definition attempt :: "fault + 'a \<Rightarrow> ('a \<Rightarrow> ('b, 'k, 'w) outcome) \<Rightarrow> ('b, 'k, 'w) outcome" where
  "attempt r k = (case r of Inl e \<Rightarrow> Fault e | Inr a \<Rightarrow> k a)"

text \<open>
  \<open>outcome_sat F Q R m\<close>: the segment \<open>m\<close> ends in no fault outside \<open>F\<close>, a return satisfies \<open>Q\<close>
  and a suspension satisfies \<open>R\<close>. All contracts of segments are stated with it.
\<close>

fun outcome_sat ::
  "fault set \<Rightarrow> ('a \<Rightarrow> 'w \<Rightarrow> bool) \<Rightarrow> (waitq \<Rightarrow> 'k \<Rightarrow> 'w \<Rightarrow> bool) \<Rightarrow> ('a, 'k, 'w) outcome \<Rightarrow> bool" where
  "outcome_sat F Q R (Done a w) = Q a w"
| "outcome_sat F Q R (Park q k w) = R q k w"
| "outcome_sat F Q R (Fault e) = (e \<in> F)"

section \<open>Lemmas on outcomes\<close>

named_theorems seg_simps \<open>rewrite rules that execute a segment\<close>
named_theorems seg_intros \<open>introduction rules for contracts of segments\<close>

lemma icall_simps [simp, seg_simps]:
  "icall (Done a w) f k = k w"
  "icall (Park q fs w) f k = Park q (fs @ [f]) w"
  "icall (Fault e) f k = Fault e"
  by (simp_all add: icall_def)

lemma ocall_simps [simp, seg_simps]:
  "ocall (Done a w) g k' = k' w"
  "ocall (Park q fs w) g k' = Park q (fs, g) w"
  "ocall (Fault e) g k' = Fault e"
  by (simp_all add: ocall_def)

lemma attempt_simps [simp, seg_simps]:
  "attempt (Inl e) k = Fault e"
  "attempt (Inr a) k = k a"
  by (simp_all add: attempt_def)

lemma outcome_sat_icall [seg_intros]:
  "outcome_sat F (\<lambda>_ w. outcome_sat F Q R (k w)) (\<lambda>q fs w. R q (fs @ [f]) w) m
   \<Longrightarrow> outcome_sat F Q R (icall m f k)"
  by (cases m) auto

lemma outcome_sat_ocall [seg_intros]:
  "outcome_sat F (\<lambda>_ w. outcome_sat F Q R (k w)) (\<lambda>q fs w. R q (fs, f) w) m
   \<Longrightarrow> outcome_sat F Q R (ocall m f k)"
  by (cases m) auto

lemma outcome_sat_attempt [seg_intros]:
  "(\<And>e. r = Inl e \<Longrightarrow> e \<in> F) \<Longrightarrow> (\<And>a. r = Inr a \<Longrightarrow> outcome_sat F Q R (k a))
   \<Longrightarrow> outcome_sat F Q R (attempt r k)"
  by (cases r) auto

lemma outcome_sat_mono:
  "outcome_sat F Q R m \<Longrightarrow> (\<And>a w. Q a w \<Longrightarrow> Q' a w) \<Longrightarrow> (\<And>q k w. R q k w \<Longrightarrow> R' q k w)
   \<Longrightarrow> outcome_sat F Q' R' m"
  by (cases m) auto

lemma outcome_sat_conj:
  "outcome_sat F Q R m \<Longrightarrow> outcome_sat F Q' R' m
   \<Longrightarrow> outcome_sat F (\<lambda>a w. Q a w \<and> Q' a w) (\<lambda>q k w. R q k w \<and> R' q k w) m"
  by (cases m) auto

section \<open>Lemmas on indexing and checked arithmetic\<close>

lemma index_in [simp]: "i < length xs \<Longrightarrow> index xs i = Inr (xs ! i)"
  by (simp add: index_def)

lemma index_Inr_iff: "index xs i = Inr x \<longleftrightarrow> i < length xs \<and> xs ! i = x"
  by (simp add: index_def)

lemma unat_bound: "unat (w :: 'a::len word) < 2 ^ LENGTH('a)"
  by (rule unsigned_less)

lemma unat_widen64: "unat (ucast (b :: u32) :: u64) = unat b"
proof -
  have "unat b < 2 ^ 64" using unat_bound [of b] by simp
  then show ?thesis by (simp add: unsigned_ucast_eq take_bit_nat_eq_self)
qed

lemma chk_sub_ge [simp]: "b \<le> a \<Longrightarrow> chk_sub oc a b = Inr (a - b)"
  by (simp add: chk_sub_def word_le_nat_alt)

lemma chk_add_off [simp]: "chk_add False a b = Inr (a + b)"
  by (simp add: chk_add_def)

lemma chk_sub_off [simp]: "chk_sub False a b = Inr (a - b)"
  by (simp add: chk_sub_def)

lemma chk_mul_off [simp]: "chk_mul False a b = Inr (a * b)"
  by (simp add: chk_mul_def)

lemma chk_add_exact: "chk_add True a b = Inr c \<Longrightarrow> unat c = unat a + unat b"
  by (auto simp: chk_add_def unat_word_ariths split: if_splits)

lemma chk_mul_exact: "chk_mul True a b = Inr c \<Longrightarrow> unat c = unat a * unat b"
  by (auto simp: chk_mul_def unat_word_ariths split: if_splits)

lemma chk_sub_exact: "chk_sub True a b = Inr c \<Longrightarrow> unat c = unat a - unat b"
  by (auto simp: chk_sub_def unat_sub word_le_nat_alt split: if_splits)

section \<open>Removing an element by index\<close>

text \<open>Rust's \<open>Vec::remove(i)\<close> on an index in range: the rest, with the order kept.\<close>

definition remove_at :: "nat \<Rightarrow> 'a list \<Rightarrow> 'a list" where
  "remove_at i xs = take i xs @ drop (Suc i) xs"

lemma length_remove_at [simp]: "i < length xs \<Longrightarrow> length (remove_at i xs) = length xs - 1"
  by (simp add: remove_at_def)

lemma set_remove_at_subset: "set (remove_at i xs) \<subseteq> set xs"
  by (auto simp: remove_at_def dest: in_set_takeD in_set_dropD)

lemma set_remove_at_distinct:
  assumes "distinct xs" and "i < length xs"
  shows "set (remove_at i xs) = set xs - {xs ! i}"
proof -
  have xs: "xs = take i xs @ xs ! i # drop (Suc i) xs"
    using assms(2) by (simp add: id_take_nth_drop)
  with assms(1) have "distinct (take i xs @ xs ! i # drop (Suc i) xs)" by simp
  then have "xs ! i \<notin> set (take i xs) \<union> set (drop (Suc i) xs)" by auto
  moreover have "set xs = set (take i xs) \<union> {xs ! i} \<union> set (drop (Suc i) xs)"
    by (subst xs) auto
  ultimately show ?thesis by (auto simp: remove_at_def)
qed

lemma distinct_remove_at [simp]: "distinct xs \<Longrightarrow> distinct (remove_at i xs)"
  using set_take_disj_set_drop_if_distinct [of xs i "Suc i"]
  by (auto simp: remove_at_def)

end
