(* ===== verification/Rsched_Event.thy ===== *)
theory Rsched_Event
  imports Rsched_Prelude
begin

text \<open>The events of \<^verbatim>\<open>src/rsched/src/event.rs\<close>: what a thread is about to do at its next scheduling
  point. Pointers are addresses.\<close>

datatype AccessKind = Read | Write | ReadWrite

datatype EventKind =
    MemOp usize usize AccessKind
  | SchedYield
  | ThreadCreate
  | LockAcq usize
  | LockRel usize

record Event =
  instr_addr :: u64
  kind :: EventKind

end
