(* ===== verification/Rsched_Scheduler.thy ===== *)
theory Rsched_Scheduler
  imports Rsched_Event
begin

unbundle bit_operations_syntax

text \<open>
  The scheduling algorithms of \<^verbatim>\<open>src/rsched/src/scheduler.rs\<close>: the xorshift generator, the random walk,
  and the logging wrapper. The Rust trait \<open>Scheduler\<close> is the locale \<open>scheduler\<close>: the contract
  its clients (\<open>State::choose\<close>, the mutex hand-over, \<open>pthread_cond_signal\<close>) rely on.
\<close>

section \<open>The generator\<close>

datatype Rng = Rng (rng_state: u64)

definition Rng_new :: "u64 \<Rightarrow> Rng" where
  "Rng_new seed = Rng (if seed = 0 then 1 else seed)"

definition Rng_next :: "Rng \<Rightarrow> u64 \<times> Rng" where
  "Rng_next r =
     (let x0 = rng_state r;
          x1 = x0 XOR push_bit 13 x0;
          x2 = x1 XOR drop_bit 7 x1;
          x3 = x2 XOR push_bit 17 x2
      in (x3, Rng x3))"

text \<open>\<open>usize\<close> has 64 bits, so the cast keeps the value; \<open>%\<close> panics on zero.\<close>

definition usize_less_than :: "Rng \<Rightarrow> nat \<Rightarrow> fault + (nat \<times> Rng)" where
  "usize_less_than r n =
     (let (x, r') = Rng_next r
      in if n = 0 then Inl RemByZero else Inr (unat x mod n, r'))"

section \<open>The random walk\<close>

record RandomWalk =
  rng :: Rng

definition RandomWalk_new :: "u64 \<Rightarrow> RandomWalk" where
  "RandomWalk_new seed = \<lparr>rng = Rng_new seed\<rparr>"

text \<open>The \<open>for i in 1..n\<close> loop of \<open>choose\<close>, over the list of the values of \<open>i\<close>. A slice is shorter
  than \<open>isize::MAX\<close>, so \<open>start + i\<close> does not overflow.\<close>

fun choose_scan :: "bool list \<Rightarrow> nat \<Rightarrow> nat list \<Rightarrow> fault + nat option" where
  "choose_scan is_blocking start [] = Inr None"
| "choose_scan is_blocking start (i # is) =
     (let idx = (start + i) mod length is_blocking
      in case index is_blocking idx of
           Inl e \<Rightarrow> Inl e
         | Inr b \<Rightarrow> if \<not> b then Inr (Some idx) else choose_scan is_blocking start is)"

definition RandomWalk_choose :: "RandomWalk \<Rightarrow> bool list \<Rightarrow> fault + (nat option \<times> RandomWalk)" where
  "RandomWalk_choose s is_blocking =
     (let n = length is_blocking
      in if n = 0 then Inr (None, s)
         else case usize_less_than (rng s) n of
             Inl e \<Rightarrow> Inl e
           | Inr (start, r') \<Rightarrow>
               (case index is_blocking start of
                  Inl e \<Rightarrow> Inl e
                | Inr b \<Rightarrow>
                    if \<not> b then Inr (Some start, s\<lparr>rng := r'\<rparr>)
                    else (case choose_scan is_blocking start [1..<n] of
                        Inl e \<Rightarrow> Inl e
                      | Inr res \<Rightarrow> Inr (res, s\<lparr>rng := r'\<rparr>))))"

text \<open>The default method of the trait.\<close>

definition RandomWalk_on_event :: "RandomWalk \<Rightarrow> Event option \<Rightarrow> RandomWalk" where
  "RandomWalk_on_event s ev = s"

section \<open>The logging wrapper\<close>

text \<open>The \<open>\<dots>\<close> of a format string: \<open>{:x}\<close> prints lower-case hexadecimal digits and \<open>{}\<close> decimal
  ones, most significant first, without leading zeros.\<close>

definition digit_char :: "nat \<Rightarrow> char" where
  "digit_char d = (if d < 10 then char_of (48 + d) else char_of (87 + d))"

fun show_base :: "nat \<Rightarrow> nat \<Rightarrow> string" where
  "show_base b n =
     (if b < 2 \<or> n < b then [digit_char n]
      else show_base b (n div b) @ [digit_char (n mod b)])"

declare show_base.simps [simp del]

definition show_hex :: "usize \<Rightarrow> string" where
  "show_hex x = ''0x'' @ show_base 16 (unat x)"

definition show_dec :: "usize \<Rightarrow> string" where
  "show_dec x = show_base 10 (unat x)"

fun access_name :: "AccessKind \<Rightarrow> string" where
  "access_name Read = ''R''"
| "access_name Write = ''W''"
| "access_name ReadWrite = ''RW''"

fun event_head :: "EventKind \<Rightarrow> string" where
  "event_head ThreadCreate = ''ThreadCreate''"
| "event_head (LockAcq lock) = ''LockAcq(lock='' @ show_hex lock @ '')''"
| "event_head (LockRel lock) = ''LockRel(lock='' @ show_hex lock @ '')''"
| "event_head SchedYield = ''SchedYield''"
| "event_head (MemOp mem_addr sz access) =
     ''MemOp('' @ access_name access @ '', mem='' @ show_hex mem_addr
       @ '', size='' @ show_dec sz @ '')''"

definition log_line :: "Event \<Rightarrow> string" where
  "log_line ev = ''[rsched] '' @ event_head (kind ev) @ '' @ '' @ show_hex (instr_addr ev)"

text \<open>The wrapper around any scheduler \<open>'s\<close>; \<open>stderr\<close> holds the lines printed so far.\<close>

record 's LoggingScheduler =
  inner :: 's
  stderr :: "string list"

definition LoggingScheduler_new :: "'s \<Rightarrow> 's LoggingScheduler" where
  "LoggingScheduler_new s = \<lparr>inner = s, stderr = []\<rparr>"

definition LoggingScheduler_choose ::
  "('s \<Rightarrow> bool list \<Rightarrow> fault + (nat option \<times> 's)) \<Rightarrow>
   's LoggingScheduler \<Rightarrow> bool list \<Rightarrow> fault + (nat option \<times> 's LoggingScheduler)" where
  "LoggingScheduler_choose inner_choose l is_blocking =
     (case inner_choose (inner l) is_blocking of
        Inl e \<Rightarrow> Inl e
      | Inr (r, s') \<Rightarrow> Inr (r, l\<lparr>inner := s'\<rparr>))"

definition LoggingScheduler_on_event ::
  "('s \<Rightarrow> Event option \<Rightarrow> 's) \<Rightarrow> 's LoggingScheduler \<Rightarrow> Event option \<Rightarrow> 's LoggingScheduler" where
  "LoggingScheduler_on_event inner_on_event l event =
     (let l' = (case event of
                  Some ev \<Rightarrow> l\<lparr>stderr := stderr l @ [log_line ev]\<rparr>
                | None \<Rightarrow> l)
      in l'\<lparr>inner := inner_on_event (inner l') event\<rparr>)"

section \<open>The boxed scheduler of the state\<close>

text \<open>\<open>Box<dyn Scheduler>\<close>: the two schedulers \<open>State::new\<close> can put in the box.\<close>

datatype DynScheduler =
    DynRandomWalk RandomWalk
  | DynLogging "RandomWalk LoggingScheduler"

fun dyn_choose :: "DynScheduler \<Rightarrow> bool list \<Rightarrow> fault + (nat option \<times> DynScheduler)" where
  "dyn_choose (DynRandomWalk s) bs =
     (case RandomWalk_choose s bs of Inl e \<Rightarrow> Inl e | Inr (r, s') \<Rightarrow> Inr (r, DynRandomWalk s'))"
| "dyn_choose (DynLogging l) bs =
     (case LoggingScheduler_choose RandomWalk_choose l bs of
        Inl e \<Rightarrow> Inl e | Inr (r, l') \<Rightarrow> Inr (r, DynLogging l'))"

fun dyn_on_event :: "DynScheduler \<Rightarrow> Event option \<Rightarrow> DynScheduler" where
  "dyn_on_event (DynRandomWalk s) ev = DynRandomWalk (RandomWalk_on_event s ev)"
| "dyn_on_event (DynLogging l) ev = DynLogging (LoggingScheduler_on_event RandomWalk_on_event l ev)"

text \<open>The random walk inside, and the lines printed.\<close>

fun dyn_walk :: "DynScheduler \<Rightarrow> RandomWalk" where
  "dyn_walk (DynRandomWalk s) = s"
| "dyn_walk (DynLogging l) = inner l"

section \<open>The contract of a scheduler\<close>

text \<open>
  What a client of the trait relies on: a decision always comes back, a chosen index is in range
  and not blocking, and \<open>None\<close> means that everything blocks.
\<close>

locale scheduler =
  fixes pick :: "'s \<Rightarrow> bool list \<Rightarrow> fault + (nat option \<times> 's)"
    and on_event :: "'s \<Rightarrow> Event option \<Rightarrow> 's"
  assumes pick_total: "\<exists>r s'. pick s bs = Inr (r, s')"
    and pick_eligible: "pick s bs = Inr (Some i, s') \<Longrightarrow> i < length bs \<and> \<not> bs ! i"
    and pick_none: "pick s bs = Inr (None, s') \<Longrightarrow> i < length bs \<Longrightarrow> bs ! i"
begin

lemma pick_cases [case_names chosen deadlock]:
  obtains i s' where "pick s bs = Inr (Some i, s')" "i < length bs" "\<not> bs ! i"
  | s' where "pick s bs = Inr (None, s')" "\<And>i. i < length bs \<Longrightarrow> bs ! i"
proof -
  obtain r s' where c: "pick s bs = Inr (r, s')" using pick_total by blast
  show thesis
  proof (cases r)
    case None
    with c have "pick s bs = Inr (None, s')" by simp
    then show thesis using pick_none by (intro that(2)) assumption
  next
    case (Some i)
    with c have c': "pick s bs = Inr (Some i, s')" by simp
    from that(1) [OF c'] pick_eligible [OF c'] show thesis by blast
  qed
qed

lemma pick_none_iff:
  "(\<exists>s'. pick s bs = Inr (None, s')) \<longleftrightarrow> (\<forall>b\<in>set bs. b)"
proof (cases rule: pick_cases [of s bs])
  case (chosen i s')
  then have "\<exists>b\<in>set bs. \<not> b" by (metis nth_mem)
  with chosen(1) show ?thesis by simp
next
  case (deadlock s')
  then have "\<forall>b\<in>set bs. b" by (metis in_set_conv_nth)
  with deadlock(1) show ?thesis by simp
qed

text \<open>Choosing among waiters: a list of \<open>n > 0\<close> non-blocking entries always yields one of them,
  so the \<open>expect\<close> after such a call never fails.\<close>

lemma pick_waiter:
  assumes "0 < n"
  obtains i s' where "pick s (replicate n False) = Inr (Some i, s')" "i < n"
proof (cases rule: pick_cases [of s "replicate n False"])
  case (chosen i s')
  then show ?thesis using that by simp
next
  case (deadlock s')
  then show ?thesis using assms deadlock(2) [of 0] by simp
qed

text \<open>Logging keeps the contract, whatever the inner scheduler is.\<close>

lemma logging_contract:
  "scheduler (LoggingScheduler_choose pick)"
proof
  fix l :: "'s LoggingScheduler" and bs
  obtain r s' where "pick (inner l) bs = Inr (r, s')" using pick_total by blast
  then show "\<exists>r l'. LoggingScheduler_choose pick l bs = Inr (r, l')"
    by (simp add: LoggingScheduler_choose_def)
qed (auto simp: LoggingScheduler_choose_def split: sum.splits dest: pick_eligible pick_none)

end

section \<open>The generator is a permutation of the non-zero words\<close>

lemma xor_push_bit_inj:
  fixes x y :: "'a::len word"
  assumes "0 < n" and "x XOR push_bit n x = y XOR push_bit n y"
  shows "x = y"
proof (rule bit_word_eqI)
  fix m assume "m < LENGTH('a)"
  then show "bit x m \<longleftrightarrow> bit y m"
  proof (induction m rule: less_induct)
    case (less m)
    have "bit (x XOR push_bit n x) m = bit (y XOR push_bit n y) m" using assms(2) by simp
    then show ?case using less assms(1)
      by (cases "n \<le> m") (auto simp: bit_simps)
  qed
qed

lemma xor_drop_bit_inj:
  fixes x y :: "'a::len word"
  assumes "0 < n" and "x XOR drop_bit n x = y XOR drop_bit n y"
  shows "x = y"
proof (rule bit_word_eqI)
  fix m assume "m < LENGTH('a)"
  then show "bit x m \<longleftrightarrow> bit y m"
  proof (induction "LENGTH('a) - m" arbitrary: m rule: less_induct)
    case less
    have eq: "bit (x XOR drop_bit n x) m = bit (y XOR drop_bit n y) m" using assms(2) by simp
    show ?case
    proof (cases "n + m < LENGTH('a)")
      case True
      then have "bit x (n + m) \<longleftrightarrow> bit y (n + m)" using less assms(1) by simp
      then show ?thesis using eq by (auto simp: bit_simps)
    next
      case False
      then have "\<not> bit x (n + m)" and "\<not> bit y (n + m)" by (auto dest: bit_imp_le_length)
      then show ?thesis using eq by (auto simp: bit_simps)
    qed
  qed
qed

lemma Rng_next_eq:
  "Rng_next (Rng x) =
     (let y = (\<lambda>z. z XOR push_bit 17 z) ((\<lambda>z. z XOR drop_bit 7 z) ((\<lambda>z. z XOR push_bit 13 z) x))
      in (y, Rng y))"
  by (simp only: Rng_next_def Let_def Rng.sel)

lemma Rng_next_inj:
  assumes "snd (Rng_next r) = snd (Rng_next r')"
  shows "r = r'"
proof -
  obtain x y where r: "r = Rng x" "r' = Rng y" by (metis Rng.collapse)
  have inj: "inj (\<lambda>z :: u64. z XOR push_bit 17 z)" "inj (\<lambda>z :: u64. z XOR drop_bit 7 z)"
    "inj (\<lambda>z :: u64. z XOR push_bit 13 z)"
    by (rule injI, erule xor_push_bit_inj [rotated] xor_drop_bit_inj [rotated], simp)+
  from assms have "(\<lambda>z. z XOR push_bit 17 z) ((\<lambda>z. z XOR drop_bit 7 z) ((\<lambda>z. z XOR push_bit 13 z) x))
      = (\<lambda>z. z XOR push_bit 17 z) ((\<lambda>z. z XOR drop_bit 7 z) ((\<lambda>z. z XOR push_bit 13 z) y))"
    unfolding r Rng_next_eq Let_def snd_conv Rng.inject .
  then have "x = y" by (blast dest: inj [THEN injD])
  with r show ?thesis by simp
qed

lemma Rng_next_zero: "Rng_next (Rng 0) = (0, Rng 0)"
  by (simp add: Rng_next_def)

lemma Rng_next_nonzero: "rng_state r \<noteq> 0 \<Longrightarrow> rng_state (snd (Rng_next r)) \<noteq> 0"
  using Rng_next_inj [of r "Rng 0"] by (metis Rng.collapse Rng_next_zero snd_conv Rng.sel)

section \<open>The random walk satisfies the contract\<close>

lemma usize_less_than_ok:
  "0 < n \<Longrightarrow> usize_less_than r n = Inr (unat (fst (Rng_next r)) mod n, snd (Rng_next r))"
  by (simp add: usize_less_than_def split_beta)

lemma choose_scan_spec:
  assumes "is_blocking \<noteq> []"
  shows "choose_scan is_blocking start is =
    Inr (map_option (\<lambda>i. (start + i) mod length is_blocking)
      (find (\<lambda>i. \<not> is_blocking ! ((start + i) mod length is_blocking)) is))"
  using assms by (induction "is") (auto simp: Let_def)

text \<open>The whole of \<open>choose\<close> in one equation: the first non-blocking index met when walking
  cyclically from a start drawn from the generator.\<close>

lemma RandomWalk_choose_eq:
  assumes "is_blocking \<noteq> []"
  shows "RandomWalk_choose s is_blocking =
    (let n = length is_blocking; start = unat (fst (Rng_next (rng s))) mod n
     in Inr (map_option (\<lambda>i. (start + i) mod n)
               (find (\<lambda>i. \<not> is_blocking ! ((start + i) mod n)) [0..<n]),
             s\<lparr>rng := snd (Rng_next (rng s))\<rparr>))"
proof -
  let ?n = "length is_blocking"
  have n: "0 < ?n" using assms by simp
  then have "[0..<?n] = 0 # [1..<?n]" by (simp add: upt_conv_Cons)
  with n assms show ?thesis
    by (auto simp: RandomWalk_choose_def usize_less_than_ok choose_scan_spec Let_def)
qed

text \<open>The abstract walk: from \<open>start\<close> forward, cyclically, to the first entry that does not
  block.\<close>

definition walk_from :: "bool list \<Rightarrow> nat \<Rightarrow> nat option" where
  "walk_from bs start =
     map_option (\<lambda>i. (start + i) mod length bs)
       (find (\<lambda>i. \<not> bs ! ((start + i) mod length bs)) [0..<length bs])"

lemma cyclic_reach:
  assumes "(j::nat) < n"
  obtains i where "i < n" "(start + i) mod n = j"
proof
  let ?i = "(j + n - start mod n) mod n"
  show "?i < n" using assms by simp
  have "start mod n < n" using assms by simp
  then have "start mod n + (j + n - start mod n) = j + n" by simp
  then have "(start mod n + (j + n - start mod n)) mod n = j" using assms by simp
  then show "(start + ?i) mod n = j" by (simp only: mod_add_left_eq mod_add_right_eq)
qed

lemma walk_from_None: "walk_from bs start = None \<Longrightarrow> j < length bs \<Longrightarrow> bs ! j"
  by (rule cyclic_reach [of j "length bs" start])
     (auto simp: walk_from_def find_None_iff)

lemma walk_from_Some: "walk_from bs start = Some j \<Longrightarrow> j < length bs \<and> \<not> bs ! j"
  by (auto simp: walk_from_def find_Some_iff intro!: mod_less_divisor)

lemma RandomWalk_choose_walk:
  "bs \<noteq> [] \<Longrightarrow> RandomWalk_choose s bs =
     Inr (walk_from bs (unat (fst (Rng_next (rng s))) mod length bs),
          s\<lparr>rng := snd (Rng_next (rng s))\<rparr>)"
  by (simp add: RandomWalk_choose_eq walk_from_def Let_def)

lemma RandomWalk_choose_Nil: "RandomWalk_choose s [] = Inr (None, s)"
  by (simp add: RandomWalk_choose_def)

interpretation rw: scheduler RandomWalk_choose RandomWalk_on_event
proof
  fix s bs
  show "\<exists>r s'. RandomWalk_choose s bs = Inr (r, s')"
    by (cases "bs = []") (auto simp: RandomWalk_choose_walk RandomWalk_choose_Nil)
next
  fix s bs i s'
  assume "RandomWalk_choose s bs = Inr (Some i, s')"
  then show "i < length bs \<and> \<not> bs ! i"
    by (cases "bs = []") (auto simp: RandomWalk_choose_walk RandomWalk_choose_Nil dest: walk_from_Some)
next
  fix s bs s' i
  assume "RandomWalk_choose s bs = Inr (None, s')" and "i < length bs"
  then show "bs ! i"
    by (cases "bs = []") (auto simp: RandomWalk_choose_walk dest: walk_from_None)
qed

interpretation lg: scheduler "LoggingScheduler_choose RandomWalk_choose"
    "LoggingScheduler_on_event RandomWalk_on_event"
  by (rule rw.logging_contract)

interpretation dyn: scheduler dyn_choose dyn_on_event
proof
  fix s bs
  show "\<exists>r s'. dyn_choose s bs = Inr (r, s')"
  proof (cases s)
    case (DynRandomWalk x)
    then show ?thesis using rw.pick_total [of x bs] by auto
  next
    case (DynLogging l)
    then show ?thesis using lg.pick_total [of l bs] by auto
  qed
next
  fix s bs i s'
  assume "dyn_choose s bs = Inr (Some i, s')"
  then show "i < length bs \<and> \<not> bs ! i"
    by (cases s) (auto split: sum.splits dest: rw.pick_eligible lg.pick_eligible)
next
  fix s bs s' i
  assume "dyn_choose s bs = Inr (None, s')" and "i < length bs"
  then show "bs ! i"
    by (cases s) (auto split: sum.splits dest: rw.pick_none lg.pick_none)
qed

text \<open>The box behaves like its random walk: logging changes no decision and no draw.\<close>

lemma dyn_choose_walk:
  "dyn_choose d bs = Inr (r, d') \<Longrightarrow> RandomWalk_choose (dyn_walk d) bs = Inr (r, dyn_walk d')"
  by (cases d) (auto simp: LoggingScheduler_choose_def split: sum.splits)

lemma dyn_on_event_walk [simp]: "dyn_walk (dyn_on_event d ev) = dyn_walk d"
  by (cases d) (auto simp: RandomWalk_on_event_def LoggingScheduler_on_event_def Let_def
      split: option.splits)

section \<open>How often each start reaches an entry\<close>

lemma find_upt_Some_iff: "find P [0..<n] = Some i \<longleftrightarrow> i < n \<and> P i \<and> (\<forall>j<i. \<not> P j)"
  by (auto simp: find_Some_iff)

lemma mod_add_cong_left:
  fixes a b c n :: nat
  assumes "(c + a) mod n = (c + b) mod n"
  shows "a mod n = b mod n"
proof -
  have "int n dvd (int c + int a) - (int c + int b)"
    using assms by (metis mod_eq_dvd_iff of_nat_add of_nat_mod)
  then have "int n dvd int a - int b" by simp
  then show ?thesis by (metis mod_eq_dvd_iff of_nat_eq_iff of_nat_mod)
qed

lemma walk_from_eq_Some_iff:
  assumes "start < length bs" and "j < length bs" and "\<not> bs ! j"
  shows "walk_from bs start = Some j \<longleftrightarrow>
    (\<forall>d < (j + length bs - start) mod length bs. bs ! ((start + d) mod length bs))"
proof -
  let ?n = "length bs"
  let ?k = "(j + ?n - start) mod ?n"
  have n: "0 < ?n" using assms(1) by linarith
  then have k: "?k < ?n" by simp
  have "start + (j + ?n - start) = j + ?n" using assms(1) by simp
  then have reach: "(start + ?k) mod ?n = j"
    using assms(2) by (metis mod_add_right_eq mod_add_self2 mod_less)
  have eq: "(start + i) mod ?n = j \<longleftrightarrow> i = ?k" if "i < ?n" for i
  proof
    assume "(start + i) mod ?n = j"
    with reach have "(start + i) mod ?n = (start + ?k) mod ?n" by simp
    then have "i mod ?n = ?k mod ?n" by (metis mod_add_cong_left)
    with that k show "i = ?k" by simp
  qed (use reach in simp)
  have "walk_from bs start = Some j \<longleftrightarrow> (\<exists>i<?n. (start + i) mod ?n = j \<and>
      \<not> bs ! ((start + i) mod ?n) \<and> (\<forall>d<i. bs ! ((start + d) mod ?n)))"
    by (auto simp: walk_from_def find_upt_Some_iff)
  also have "\<dots> \<longleftrightarrow> (\<forall>d<?k. bs ! ((start + d) mod ?n))"
    using eq k reach assms(3) by metis
  finally show ?thesis .
qed

section \<open>The log lines identify the events\<close>

lemma digit_char_inj: "d < 16 \<Longrightarrow> e < 16 \<Longrightarrow> digit_char d = digit_char e \<Longrightarrow> d = e"
  by (auto simp: digit_char_def char_of_eq_iff take_bit_eq_mod split: if_splits)

lemma digit_char_delim: "d < 16 \<Longrightarrow> digit_char d \<notin> set '' ),''"
  by (auto simp: digit_char_def char_of_eq_iff take_bit_eq_mod split: if_splits)

lemma show_base_ne [simp]: "show_base b n \<noteq> []"
  by (subst show_base.simps) simp

lemma show_base_delim:
  assumes "b \<le> 16" and "2 \<le> b"
  shows "set (show_base b n) \<inter> set '' ),'' = {}"
  using assms
proof (induction b n rule: show_base.induct)
  case (1 b n)
  show ?case
  proof (cases "n < b")
    case True
    then show ?thesis using 1 digit_char_delim [of n] by (subst show_base.simps) auto
  next
    case False
    moreover have "n mod b < 16" using 1 by (meson less_le_trans mod_less_divisor not_less zero_less_numeral)
    ultimately show ?thesis using 1 digit_char_delim [of "n mod b"]
      by (subst show_base.simps) auto
  qed
qed

lemma show_base_inj:
  assumes "b \<le> 16" and "2 \<le> b"
  shows "show_base b m = show_base b n \<Longrightarrow> m = n"
proof (induction m arbitrary: n rule: less_induct)
  case (less m)
  have small: "k mod b < 16" for k using assms by (meson less_le_trans mod_less_divisor not_less zero_less_numeral)
  have one: "length (show_base b k) = 1 \<longleftrightarrow> k < b" for k
    using assms by (subst show_base.simps) (auto simp: Suc_le_eq)
  show ?case
  proof (cases "m < b")
    case True
    with less.prems one have "n < b" by metis
    with True less.prems assms show ?thesis
      using digit_char_inj [of m n] by (simp add: show_base.simps [of b m] show_base.simps [of b n])
  next
    case False
    with less.prems one have "\<not> n < b" by metis
    with False less.prems assms have "show_base b (m div b) = show_base b (n div b)"
      and "digit_char (m mod b) = digit_char (n mod b)"
      by (simp_all add: show_base.simps [of b m] show_base.simps [of b n])
    moreover have "m div b < m" using False assms by simp
    ultimately have "m div b = n div b" and "m mod b = n mod b"
      using less.IH digit_char_inj small by blast+
    then show ?thesis by (metis div_mult_mod_eq)
  qed
qed

lemma show_hex_inj [simp]: "show_hex x = show_hex y \<longleftrightarrow> x = y"
  using show_base_inj [of 16 "unat x" "unat y"] by (auto simp: show_hex_def word_unat_eq_iff)

lemma show_dec_inj [simp]: "show_dec x = show_dec y \<longleftrightarrow> x = y"
  using show_base_inj [of 10 "unat x" "unat y"] by (auto simp: show_dec_def word_unat_eq_iff)

lemma show_hex_delim: "c \<in> set '' ),'' \<Longrightarrow> c \<notin> set (show_hex x)"
  using show_base_delim [of 16 "unat x"] by (auto simp: show_hex_def word_unat_eq_iff)

lemma show_dec_delim: "c \<in> set '' ),'' \<Longrightarrow> c \<notin> set (show_dec x)"
  using show_base_delim [of 10 "unat x"] by (auto simp: show_dec_def word_unat_eq_iff)

lemma append_delim_eq:
  assumes "c \<notin> set xs" and "c \<notin> set ys"
  shows "xs @ c # as = ys @ c # bs \<longleftrightarrow> xs = ys \<and> as = bs"
  using assms
proof (induction xs arbitrary: ys)
  case Nil
  then show ?case by (cases ys) auto
next
  case (Cons x xs)
  then show ?case by (cases ys) auto
qed

lemma access_name_delim: "c \<in> set '' ),'' \<Longrightarrow> c \<notin> set (access_name a)"
  by (cases a) auto

lemma access_name_inj [simp]: "access_name a = access_name b \<longleftrightarrow> a = b"
  by (cases a; cases b) auto

lemma event_head_inj:
  "event_head k @ CHR '' '' # xs = event_head k' @ CHR '' '' # ys \<Longrightarrow> k = k' \<and> xs = ys"
  by (cases k; cases k')
     (auto simp: append_delim_eq show_hex_delim show_dec_delim access_name_delim)


section \<open>Properties\<close>

text \<open>C36: the generator never gets stuck. Whatever the seed, after any number of draws the state is
  not zero (zero would be a fixed point), and a draw never merges two states, so the sequence is a
  cycle through non-zero words.\<close>

theorem rng_never_stuck:
  "rng_state (((\<lambda>r. snd (Rng_next r)) ^^ n) (Rng_new seed)) \<noteq> 0
   \<and> inj (\<lambda>r. snd (Rng_next r))"
proof
  show "rng_state (((\<lambda>r. snd (Rng_next r)) ^^ n) (Rng_new seed)) \<noteq> 0"
    by (induction n) (auto simp: Rng_new_def Rng_next_nonzero)
  show "inj (\<lambda>r. snd (Rng_next r))" by (rule injI) (rule Rng_next_inj)
qed

text \<open>C23: \<open>RandomWalk::choose\<close> never panics. A chosen index is in range and not blocking, and \<open>None\<close>
  comes back exactly when every entry blocks.\<close>

theorem choose_sound_complete:
  "\<exists>r s'. RandomWalk_choose s bs = Inr (r, s')
     \<and> (case r of Some i \<Rightarrow> i < length bs \<and> \<not> bs ! i | None \<Rightarrow> set bs \<subseteq> {True})"
proof (cases rule: rw.pick_cases [of s bs])
  case (chosen i s')
  then show ?thesis by auto
next
  case (deadlock s')
  then have "set bs \<subseteq> {True}" by (auto simp: in_set_conv_nth)
  then show ?thesis using deadlock(1) by auto
qed

text \<open>The walk in full. With at least one entry, \<open>choose\<close> draws exactly one word, starts at that
  word modulo the length, and returns the non-blocking index \<open>j\<close> exactly when every entry from the
  start up to \<open>j\<close>, cyclically, blocks: an entry that follows a run of blocking entries is reached
  from each of their positions, so the selection is not uniform over the non-blocking entries.\<close>

theorem choose_walks_forward:
  assumes "j < length bs" and "\<not> bs ! j"
    and "start = unat (fst (Rng_next (rng s))) mod length bs"
  shows "RandomWalk_choose s bs = Inr (Some j, s\<lparr>rng := snd (Rng_next (rng s))\<rparr>) \<longleftrightarrow>
    (\<forall>d < (j + length bs - start) mod length bs. bs ! ((start + d) mod length bs))"
proof -
  have ne: "bs \<noteq> []" using assms(1) by auto
  then have lt: "start < length bs" using assms(3) by simp
  show ?thesis
    using walk_from_eq_Some_iff [OF lt assms(1,2)] RandomWalk_choose_walk [OF ne, of s] assms(3)
    by auto
qed

theorem choose_walks_forward_witness:
  "RandomWalk_choose \<lparr>rng = Rng 1\<rparr> [True, False, False] = Inr (Some 1, \<lparr>rng = Rng 1082269761\<rparr>)"
proof -
  have next1: "Rng_next (Rng 1) = (1082269761, Rng 1082269761)" by code_simp
  have "(0::nat) = unat (fst (Rng_next (rng \<lparr>rng = Rng 1\<rparr>))) mod length [True, False, False]"
    by (simp add: next1)
  from choose_walks_forward [of 1, OF _ _ this] show ?thesis by (simp add: next1)
qed

text \<open>The documented uniform selection does not hold. Of the three equally likely starts of a walk
  over three threads of which the first blocks, two lead to the second thread and one to the
  third.\<close>

theorem walk_not_uniform:
  "((\<exists>s'. RandomWalk_choose s [True, False, False] = Inr (Some 1, s')) \<longleftrightarrow>
      unat (fst (Rng_next (rng s))) mod 3 \<in> {0, 1})
   \<and> ((\<exists>s'. RandomWalk_choose s [True, False, False] = Inr (Some 2, s')) \<longleftrightarrow>
      unat (fst (Rng_next (rng s))) mod 3 = 2)"
proof -
  have starts: "walk_from [True, False, False] 0 = Some 1" "walk_from [True, False, False] 1 = Some 1"
    "walk_from [True, False, False] 2 = Some 2" by code_simp+
  let ?k = "unat (fst (Rng_next (rng s))) mod 3"
  have "?k < 3" by simp
  then consider "?k = 0" | "?k = 1" | "?k = 2" by linarith
  then show ?thesis
    by cases (simp_all add: RandomWalk_choose_walk starts starts [simplified])
qed

text \<open>A log line determines its event: two events with the same line are equal.\<close>

theorem log_line_inj: "log_line ev = log_line ev' \<longleftrightarrow> ev = ev'"
proof
  assume "log_line ev = log_line ev'"
  then have "event_head (kind ev) @ CHR '' '' # (''@ '' @ show_hex (instr_addr ev))
      = event_head (kind ev') @ CHR '' '' # (''@ '' @ show_hex (instr_addr ev'))"
    by (simp add: log_line_def)
  then have "kind ev = kind ev'" and "instr_addr ev = instr_addr ev'" by (auto dest: event_head_inj)
  then show "ev = ev'" by simp
qed simp

end
