(* ===== verification/Rsched_State.thy ===== *)
theory Rsched_State
  imports Rsched_Scheduler
begin

text \<open>
  The scheduler state of \<^verbatim>\<open>src/rsched/src/lib.rs\<close> (lines 37-351): thread descriptors, the virtual
  mutexes, condition variables and barriers, and the \<open>State\<close> struct with its small methods.
  Hash maps are partial functions, hash sets are sets, pointers used as keys are addresses. A
  thread's \<open>suspend_cond\<close> is named by its pthread id (\<open>SuspendCond p\<close>) and holds no data.
\<close>

section \<open>Thread descriptors and synchronisation objects\<close>

record Thread =
  tid :: pid_t
  pthread :: PthreadT
  is_blocking :: bool
  startup_done :: bool
  is_in_rsched_wait :: bool
  joiner :: "PthreadT option"
  is_exited :: bool
  next_event :: "Event option"

definition Thread_new_with_tid :: "PthreadT \<Rightarrow> pid_t \<Rightarrow> Thread" where
  "Thread_new_with_tid pt i =
     \<lparr>tid = i, pthread = pt, is_blocking = False, startup_done = False,
      is_in_rsched_wait = False, joiner = None, is_exited = False, next_event = None\<rparr>"

text \<open>\<open>gettid\<close> stands for the result of the system call in the calling thread.\<close>

definition Thread_new :: "PthreadT \<Rightarrow> pid_t \<Rightarrow> Thread" where
  "Thread_new pt gettid = Thread_new_with_tid pt gettid"

record SMutex =
  owner_tid :: pid_t
  recursive_count :: u32
  m_waiters :: "PthreadT list"

record SCond =
  c_waiters :: "PthreadT list"

record SBarrier =
  b_count :: u32
  b_waiters :: "PthreadT list"

section \<open>The state\<close>

record State =
  sched :: DynScheduler
  threads :: "PthreadT list"
  info :: "PthreadT \<rightharpoonup> Thread"
  mutexes :: "usize \<rightharpoonup> SMutex"
  recursive_mutexes :: "usize set"
  recursive_mutex_attrs :: "usize set"
  conds :: "usize \<rightharpoonup> SCond"
  barriers :: "usize \<rightharpoonup> SBarrier"
  pending_child :: "(usize \<times> PthreadT) option"

text \<open>\<open>env_var\<close> is the process environment as \<open>std::env::var\<close> reads it.\<close>

definition State_new :: "(string \<Rightarrow> string option) \<Rightarrow> u64 \<Rightarrow> State" where
  "State_new env_var seed =
     (let logging = (env_var ''RSCHED_LOG'' = Some ''1'')
      in \<lparr>sched = (if logging then DynLogging (LoggingScheduler_new (RandomWalk_new seed))
                   else DynRandomWalk (RandomWalk_new seed)),
          threads = [], info = Map.empty, mutexes = Map.empty,
          recursive_mutexes = {}, recursive_mutex_attrs = {},
          conds = Map.empty, barriers = Map.empty, pending_child = None\<rparr>)"

definition State_add :: "Thread \<Rightarrow> State \<Rightarrow> State" where
  "State_add t s =
     (let pt = pthread t
      in s\<lparr>threads := threads s @ [pt], info := (info s)(pt \<mapsto> t)\<rparr>)"

definition State_remove :: "PthreadT \<Rightarrow> State \<Rightarrow> State" where
  "State_remove pt s =
     (let s1 = s\<lparr>threads := filter (\<lambda>x. x \<noteq> pt) (threads s)\<rparr>
      in case info s1 pt of
           Some t \<Rightarrow> s1\<lparr>info := (info s1)(pt \<mapsto> t\<lparr>is_blocking := True, is_exited := True\<rparr>)\<rparr>
         | None \<Rightarrow> s1)"

text \<open>\<open>State::t\<close> hands out a mutable reference; reading through it and writing through it are
  two functions. Indexing the map with \<open>info[&pt]\<close> panics in the same place.\<close>

definition State_t :: "PthreadT \<Rightarrow> State \<Rightarrow> fault + Thread" where
  "State_t pt s = (case info s pt of
     Some t \<Rightarrow> Inr t
   | None \<Rightarrow> Inl (Expect ''rsched: unknown thread''))"

definition State_t_upd :: "PthreadT \<Rightarrow> (Thread \<Rightarrow> Thread) \<Rightarrow> State \<Rightarrow> fault + State" where
  "State_t_upd pt f s = (case info s pt of
     Some t \<Rightarrow> Inr (s\<lparr>info := (info s)(pt \<mapsto> f t)\<rparr>)
   | None \<Rightarrow> Inl (Expect ''rsched: unknown thread''))"

text \<open>The vector of \<open>State::choose\<close>: one ineligibility flag per registered thread.\<close>

definition ineligible :: "Thread \<Rightarrow> bool" where
  "ineligible t \<longleftrightarrow> is_blocking t \<or> \<not> startup_done t \<or> \<not> is_in_rsched_wait t"

fun blocking_vec :: "(PthreadT \<rightharpoonup> Thread) \<Rightarrow> PthreadT list \<Rightarrow> fault + bool list" where
  "blocking_vec infos [] = Inr []"
| "blocking_vec infos (pt # pts) =
     (case infos pt of
        None \<Rightarrow> Inl (Expect ''no entry found for key'')
      | Some t \<Rightarrow> (case blocking_vec infos pts of
            Inl e \<Rightarrow> Inl e
          | Inr bs \<Rightarrow> Inr (ineligible t # bs)))"

definition State_choose :: "State \<Rightarrow> fault + (nat option \<times> State)" where
  "State_choose s =
     (case blocking_vec (info s) (threads s) of
        Inl e \<Rightarrow> Inl e
      | Inr blocking \<Rightarrow>
          (case dyn_choose (sched s) blocking of
             Inl e \<Rightarrow> Inl e
           | Inr (r, d) \<Rightarrow> Inr (r, s\<lparr>sched := d\<rparr>)))"

definition set_event :: "PthreadT \<Rightarrow> Event \<Rightarrow> State \<Rightarrow> fault + State" where
  "set_event pt ev s = State_t_upd pt (\<lambda>t. t\<lparr>next_event := Some ev\<rparr>) s"

definition clear_event :: "PthreadT \<Rightarrow> State \<Rightarrow> fault + State" where
  "clear_event pt s = State_t_upd pt (\<lambda>t. t\<lparr>next_event := None\<rparr>) s"

definition will_block :: "State \<Rightarrow> usize \<Rightarrow> pid_t \<Rightarrow> bool" where
  "will_block s key i = (case mutexes s key of
     Some m \<Rightarrow> owner_tid m \<noteq> 0 \<and> owner_tid m \<noteq> i
   | None \<Rightarrow> False)"

definition is_recursive_mutex :: "State \<Rightarrow> usize \<Rightarrow> bool" where
  "is_recursive_mutex s key \<longleftrightarrow> key \<in> recursive_mutexes s"

section \<open>Well-formed states\<close>

text \<open>The registered threads are distinct and have descriptors, and a descriptor carries the id it
  is stored under.\<close>

definition wf_threads :: "State \<Rightarrow> bool" where
  "wf_threads s \<longleftrightarrow> distinct (threads s) \<and> set (threads s) \<subseteq> dom (info s)
     \<and> (\<forall>p t. info s p = Some t \<longrightarrow> pthread t = p)"

definition eligible :: "State \<Rightarrow> PthreadT \<Rightarrow> bool" where
  "eligible s p \<longleftrightarrow> p \<in> set (threads s) \<and> (\<exists>t. info s p = Some t \<and> \<not> ineligible t)"

lemma wf_threadsD:
  assumes "wf_threads s"
  shows "distinct (threads s)" and "p \<in> set (threads s) \<Longrightarrow> \<exists>t. info s p = Some t"
    and "info s p = Some t \<Longrightarrow> pthread t = p"
  using assms by (auto simp: wf_threads_def)

lemma wf_threads_new: "wf_threads (State_new env_var seed)"
  by (simp add: wf_threads_def State_new_def Let_def)

lemma wf_threads_add:
  "wf_threads s \<Longrightarrow> pthread t \<notin> set (threads s) \<Longrightarrow> wf_threads (State_add t s)"
  by (auto simp: wf_threads_def State_add_def Let_def)

lemma State_remove_simps [simp]:
  "threads (State_remove pt s) = filter (\<lambda>x. x \<noteq> pt) (threads s)"
  "info (State_remove pt s) =
     (case info s pt of None \<Rightarrow> info s
      | Some t \<Rightarrow> (info s)(pt \<mapsto> t\<lparr>is_blocking := True, is_exited := True\<rparr>))"
  "sched (State_remove pt s) = sched s"
  "mutexes (State_remove pt s) = mutexes s"
  "conds (State_remove pt s) = conds s"
  "barriers (State_remove pt s) = barriers s"
  "pending_child (State_remove pt s) = pending_child s"
  by (simp_all add: State_remove_def Let_def split: option.split)

lemma wf_threads_remove: "wf_threads s \<Longrightarrow> wf_threads (State_remove pt s)"
  by (auto simp: wf_threads_def split: option.splits)

lemma wf_threads_upd:
  "wf_threads s \<Longrightarrow> (\<And>t. pthread (f t) = pthread t) \<Longrightarrow> State_t_upd pt f s = Inr s'
   \<Longrightarrow> wf_threads s'"
  by (auto simp: wf_threads_def State_t_upd_def split: option.splits if_splits)

section \<open>Choosing a registered thread\<close>

lemma blocking_vec_eq:
  "set pts \<subseteq> dom infos \<Longrightarrow> blocking_vec infos pts = Inr (map (\<lambda>p. ineligible (the (infos p))) pts)"
  by (induction pts) auto

lemma State_choose_cases [consumes 1, case_names chosen deadlock]:
  assumes wf: "wf_threads s"
  obtains i d where "State_choose s = Inr (Some i, s\<lparr>sched := d\<rparr>)" "i < length (threads s)"
      "eligible s (threads s ! i)"
  | d where "State_choose s = Inr (None, s\<lparr>sched := d\<rparr>)" "\<And>p. \<not> eligible s p"
proof -
  let ?bs = "map (\<lambda>p. ineligible (the (info s p))) (threads s)"
  have sub: "set (threads s) \<subseteq> dom (info s)" using wf by (simp add: wf_threads_def)
  then have bv: "blocking_vec (info s) (threads s) = Inr ?bs" by (rule blocking_vec_eq)
  show thesis
  proof (cases rule: dyn.pick_cases [of "sched s" ?bs])
    case (chosen i d)
    then have i: "i < length (threads s)" by simp
    then have "threads s ! i \<in> dom (info s)" using sub by (meson nth_mem subsetD)
    then obtain t where t: "info s (threads s ! i) = Some t" by blast
    have "\<not> ineligible t" using chosen(3) i t by simp
    then have "eligible s (threads s ! i)" using i t by (simp add: eligible_def)
    moreover have "State_choose s = Inr (Some i, s\<lparr>sched := d\<rparr>)"
      using bv chosen(1) by (simp add: State_choose_def)
    ultimately show thesis using that(1) i by blast
  next
    case (deadlock d)
    have "\<not> eligible s p" for p
    proof
      assume "eligible s p"
      then obtain i t where "i < length (threads s)" "threads s ! i = p" "info s p = Some t" "\<not> ineligible t"
        by (auto simp: eligible_def in_set_conv_nth)
      then show False using deadlock(2) [of i] by simp
    qed
    moreover have "State_choose s = Inr (None, s\<lparr>sched := d\<rparr>)"
      using bv deadlock(1) by (simp add: State_choose_def)
    ultimately show thesis using that(2) by blast
  qed
qed


section \<open>Properties\<close>

text \<open>C22: on a well-formed state \<open>State::choose\<close> never panics and touches only the scheduler. The
  thread it picks is registered, does not block, has finished its start-up and waits inside the
  library; it returns \<open>None\<close> exactly when there is no such thread.\<close>

theorem State_choose_sound_complete:
  assumes "wf_threads s"
  shows "\<exists>r d. State_choose s = Inr (r, s\<lparr>sched := d\<rparr>)
    \<and> (case r of
         Some i \<Rightarrow> i < length (threads s) \<and> (\<exists>t. info s (threads s ! i) = Some t
                    \<and> \<not> is_blocking t \<and> startup_done t \<and> is_in_rsched_wait t)
       | None \<Rightarrow> (\<forall>p. \<not> eligible s p))"
  using assms
proof (cases rule: State_choose_cases)
  case (chosen i d)
  then show ?thesis by (auto simp: eligible_def ineligible_def intro!: exI [of _ "Some i"])
next
  case (deadlock d)
  then show ?thesis by (auto intro!: exI [of _ None])
qed

theorem State_choose_sound_complete_witness:
  "\<exists>r d. State_choose (State_new (\<lambda>_. None) 7) = Inr (r, (State_new (\<lambda>_. None) 7)\<lparr>sched := d\<rparr>)"
  using State_choose_sound_complete [OF wf_threads_new [of "\<lambda>_. None" 7]] by blast

end
