(* ===== verification/Rsched_Switch.thy ===== *)
theory Rsched_Switch
  imports Rsched_State
begin

text \<open>
  The context switch of \<^verbatim>\<open>src/rsched/src/lib.rs\<close> (lines 187-260): \<open>drain_pending_child\<close>, \<open>wake\<close> and
  \<open>context_switch\<close>. They wait on condition variables, so they are segments: a \<open>Park\<close> carries
  the frames at which they resume, and each frame has its own continuation function
  (\<open>wake_resume\<close>, \<open>cs_after_drain\<close>, \<dots>), which is the rest of the Rust function after that wait.
\<close>

section \<open>The world of a segment\<close>

text \<open>\<open>StartArg\<close> (lines 1049-1055): routine and argument are addresses; \<open>ready_cond\<close> is named by the
  address of the box.\<close>

record StartArg =
  routine :: usize
  start_arg :: usize
  ready :: bool

text \<open>
  What a segment works on: the state behind \<open>st()\<close>, the heap boxes of \<open>StartArg\<close>s that are
  alive, and the calls into the threads library that concern other threads, in order: a
  \<open>pthread_cond_signal\<close>, and a successful \<open>pthread_create\<close> of a thread that will run the
  trampoline on a box. They are only recorded here; what they do to the other thread belongs to
  the threads library.
\<close>

datatype effect = Signal waitq | Spawn PthreadT usize

record world =
  st :: State
  boxes :: "usize \<rightharpoonup> StartArg"
  effects :: "effect list"

text \<open>The frames of the functions that can wait, named after the wait they are suspended at.\<close>

datatype ifr =
    InDrain usize PthreadT
  | InWake PthreadT
  | CsDrained PthreadT
  | CsWoken PthreadT
  | MlSwitched usize pid_t PthreadT
  | MlWaited usize pid_t PthreadT

type_synonym 'a seg = "('a, ifr list, world) outcome"

definition cond_signal :: "waitq \<Rightarrow> world \<Rightarrow> world" where
  "cond_signal q w = w\<lparr>effects := effects w @ [Signal q]\<rparr>"

text \<open>Writing a field of a descriptor, with the fault of a missing descriptor.\<close>

definition info_upd ::
  "fault \<Rightarrow> PthreadT \<Rightarrow> (Thread \<Rightarrow> Thread) \<Rightarrow> world \<Rightarrow> (world \<Rightarrow> ('a, 'k, world) outcome)
     \<Rightarrow> ('a, 'k, world) outcome" where
  "info_upd e pt f w k = (case info (st w) pt of
     Some t \<Rightarrow> k (w\<lparr>st := (st w)\<lparr>info := (info (st w))(pt \<mapsto> f t)\<rparr>\<rparr>)
   | None \<Rightarrow> Fault e)"

abbreviation unknown_thread :: fault where
  "unknown_thread \<equiv> Expect ''rsched: unknown thread''"

abbreviation no_entry :: fault where
  "no_entry \<equiv> Expect ''no entry found for key''"

section \<open>Waiting for a new child\<close>

text \<open>The \<open>while !ready\<close> loop and what follows it; the loop re-enters here after each wait.\<close>

definition drain_loop :: "usize \<Rightarrow> PthreadT \<Rightarrow> world \<Rightarrow> unit seg" where
  "drain_loop sa child_pt w =
     (case boxes w sa of
        None \<Rightarrow> Fault UseAfterFree
      | Some a \<Rightarrow>
          if \<not> ready a then Park (ReadyCond sa) [InDrain sa child_pt] w
          else (let w1 = w\<lparr>boxes := (boxes w)(sa := None)\<rparr>
                in if info (st w1) child_pt \<noteq> None
                   then info_upd unknown_thread child_pt (\<lambda>t. t\<lparr>startup_done := True\<rparr>) w1 (Done ())
                   else Done () w1))"

definition drain_pending_child :: "world \<Rightarrow> unit seg" where
  "drain_pending_child w =
     (case pending_child (st w) of
        None \<Rightarrow> Done () w
      | Some (sa, child_pt) \<Rightarrow> drain_loop sa child_pt (w\<lparr>st := (st w)\<lparr>pending_child := None\<rparr>\<rparr>))"

section \<open>Handing over control\<close>

definition wake :: "PthreadT \<Rightarrow> bool \<Rightarrow> PthreadT \<Rightarrow> world \<Rightarrow> unit seg" where
  "wake nxt suspend_caller caller w =
     (if nxt \<noteq> caller
      then (case info (st w) nxt of
              None \<Rightarrow> Fault UnwrapNone
            | Some _ \<Rightarrow>
                (let w1 = cond_signal (SuspendCond nxt) w
                 in if suspend_caller
                    then info_upd UnwrapNone caller (\<lambda>t. t\<lparr>is_in_rsched_wait := True\<rparr>) w1
                           (Park (SuspendCond caller) [InWake caller])
                    else Done () w1))
      else Done () w)"

definition wake_resume :: "PthreadT \<Rightarrow> world \<Rightarrow> unit seg" where
  "wake_resume caller w =
     info_upd UnwrapNone caller (\<lambda>t. t\<lparr>is_in_rsched_wait := False\<rparr>) w (Done ())"

definition cs_after_wake :: "PthreadT \<Rightarrow> world \<Rightarrow> unit seg" where
  "cs_after_wake caller w =
     (let event = Option.bind (info (st w) caller) next_event
      in Done () (w\<lparr>st := (st w)\<lparr>sched := dyn_on_event (sched (st w)) event\<rparr>\<rparr>))"

definition cs_choose :: "PthreadT \<Rightarrow> world \<Rightarrow> unit seg" where
  "cs_choose caller w =
     attempt (State_choose (st w)) (\<lambda>(r, s).
       case r of
         Some idx \<Rightarrow>
           attempt (index (threads s) idx) (\<lambda>nxt.
             icall (wake nxt True caller (w\<lparr>st := s\<rparr>)) (CsWoken caller) (cs_after_wake caller))
       | None \<Rightarrow> Done () (w\<lparr>st := s\<rparr>))"

definition cs_after_drain :: "PthreadT \<Rightarrow> world \<Rightarrow> unit seg" where
  "cs_after_drain caller w =
     (if caller \<notin> set (threads (st w)) then Done () w
      else if length (threads (st w)) \<le> 1 then Done () w
      else (case info (st w) caller of
              None \<Rightarrow> Fault no_entry
            | Some t \<Rightarrow>
                if \<not> startup_done t
                then info_upd unknown_thread caller (\<lambda>t. t\<lparr>startup_done := True\<rparr>) w (cs_choose caller)
                else cs_choose caller w))"

definition context_switch :: "PthreadT \<Rightarrow> world \<Rightarrow> unit seg" where
  "context_switch caller w =
     icall (drain_pending_child w) (CsDrained caller) (cs_after_drain caller)"

section \<open>Basic facts\<close>

lemma info_upd_Some [simp]:
  "info (st w) pt = Some t \<Longrightarrow>
     info_upd e pt f w k = k (w\<lparr>st := (st w)\<lparr>info := (info (st w))(pt \<mapsto> f t)\<rparr>\<rparr>)"
  by (simp add: info_upd_def)

lemma info_upd_None [simp]: "info (st w) pt = None \<Longrightarrow> info_upd e pt f w k = Fault e"
  by (simp add: info_upd_def)

lemma cond_signal_simps [simp]:
  "st (cond_signal q w) = st w"
  "boxes (cond_signal q w) = boxes w"
  "effects (cond_signal q w) = effects w @ [Signal q]"
  by (simp_all add: cond_signal_def)

text \<open>Congruence rules: the rest of a segment only matters for the outcomes that reach it. They let
  a recursive call stand in a continuation.\<close>

lemma icall_cong [fundef_cong]:
  "m = m' \<Longrightarrow> f = f' \<Longrightarrow> (\<And>a w. m' = Done a w \<Longrightarrow> k w = k' w) \<Longrightarrow> icall m f k = icall m' f' k'"
  by (cases m') auto

lemma attempt_cong [fundef_cong]:
  "r = r' \<Longrightarrow> (\<And>a. r' = Inr a \<Longrightarrow> k a = k' a) \<Longrightarrow> attempt r k = attempt r' k'"
  by (cases r') auto

lemma info_upd_cong [fundef_cong]:
  "e = e' \<Longrightarrow> pt = pt' \<Longrightarrow> f = f' \<Longrightarrow> w = w' \<Longrightarrow>
   (\<And>t. info (st w') pt' = Some t \<Longrightarrow>
      k (w'\<lparr>st := (st w')\<lparr>info := (info (st w'))(pt' \<mapsto> f' t)\<rparr>\<rparr>)
      = k' (w'\<lparr>st := (st w')\<lparr>info := (info (st w'))(pt' \<mapsto> f' t)\<rparr>\<rparr>))
   \<Longrightarrow> info_upd e pt f w k = info_upd e' pt' f' w' k'"
  by (cases "info (st w') pt'") (auto simp: info_upd_def)

text \<open>A context switch that returns without suspending leaves every \<open>is_blocking\<close> flag alone.\<close>

definition blocking_flags :: "State \<Rightarrow> PthreadT \<Rightarrow> bool option" where
  "blocking_flags s p = map_option is_blocking (info s p)"

lemma drain_Done_blocking:
  "drain_pending_child w = Done () w' \<Longrightarrow> blocking_flags (st w') = blocking_flags (st w)"
  by (auto simp: drain_pending_child_def drain_loop_def info_upd_def blocking_flags_def fun_eq_iff Let_def
      split: option.splits if_splits)

lemma State_choose_frame:
  "State_choose s = Inr (r, s') \<Longrightarrow> \<exists>d. s' = s\<lparr>sched := d\<rparr>"
  by (auto simp: State_choose_def split: sum.splits)

lemma cs_choose_Done_blocking:
  "cs_choose caller w = Done () w' \<Longrightarrow> blocking_flags (st w') = blocking_flags (st w)"
  by (auto simp: cs_choose_def attempt_def index_def wake_def cs_after_wake_def info_upd_def
        icall_def blocking_flags_def fun_eq_iff Let_def
      split: sum.splits option.splits if_splits dest!: State_choose_frame)

lemma cs_after_drain_Done_blocking:
  "cs_after_drain caller w = Done () w' \<Longrightarrow> blocking_flags (st w') = blocking_flags (st w)"
  by (auto simp: cs_after_drain_def info_upd_def split: if_splits option.splits
      dest!: cs_choose_Done_blocking) (auto simp: blocking_flags_def fun_eq_iff)

lemma context_switch_Done_blocking:
  assumes "context_switch caller w = Done () w'"
  shows "blocking_flags (st w') = blocking_flags (st w)"
proof (cases "drain_pending_child w")
  case (Done u w1)
  then have "drain_pending_child w = Done () w1" by simp
  from drain_Done_blocking [OF this] show ?thesis
    using assms Done by (auto simp: context_switch_def dest: cs_after_drain_Done_blocking)
qed (use assms in \<open>auto simp: context_switch_def\<close>)

end
