(* ===== verification/Rsched_Mutex.thy ===== *)
theory Rsched_Mutex
  imports Rsched_Switch
begin

text \<open>
  The virtual mutexes of \<^verbatim>\<open>src/rsched/src/lib.rs\<close>: \<open>State::mutex_lock\<close> and \<open>State::mutex_unlock\<close>
  (lines 285-350) and the bookkeeping of recursive mutexes (lines 353-411). An entry of
  \<open>mutexes\<close> exists while a mutex is held or being handed over; unlocking with no waiter removes
  it. The flag \<open>oc\<close> says whether the crate is built with overflow checks.
\<close>

definition EINVAL :: c_int where "EINVAL = 22"
definition EPERM :: c_int where "EPERM = 1"
definition EBUSY :: c_int where "EBUSY = 16"
definition PTHREAD_MUTEX_RECURSIVE :: c_int where "PTHREAD_MUTEX_RECURSIVE = 1"

section \<open>Locking\<close>

text \<open>\<open>entry(key).or_insert(\<dots>)\<close>.\<close>

definition mutex_entry :: "usize \<Rightarrow> pid_t \<Rightarrow> State \<Rightarrow> SMutex" where
  "mutex_entry key i s = (case mutexes s key of
     Some m \<Rightarrow> m
   | None \<Rightarrow> \<lparr>owner_tid = i, recursive_count = 0, m_waiters = []\<rparr>)"

definition put_mutex :: "usize \<Rightarrow> SMutex \<Rightarrow> world \<Rightarrow> world" where
  "put_mutex key m w = w\<lparr>st := (st w)\<lparr>mutexes := (mutexes (st w))(key \<mapsto> m)\<rparr>\<rparr>"

text \<open>\<open>if !waiters.contains(&caller) { waiters.push(caller) }\<close>.\<close>

definition push_absent :: "'a \<Rightarrow> 'a list \<Rightarrow> 'a list" where
  "push_absent x xs = (if x \<in> set xs then xs else xs @ [x])"

text \<open>
  The \<open>loop\<close> of \<open>mutex_lock\<close>. Each turn either takes the mutex or queues the caller, switches away
  and, if the caller is still blocking, waits; a turn that comes back from either wait starts the
  loop again. The recursive call is the turn after a switch that returned at once; it is never
  taken, because such a switch leaves the caller blocking, and this is what makes the loop
  well-defined between two waits.
\<close>

function mutex_lock_loop :: "bool \<Rightarrow> usize \<Rightarrow> pid_t \<Rightarrow> PthreadT \<Rightarrow> world \<Rightarrow> unit seg" where
  "mutex_lock_loop oc key i caller w =
     (let e = mutex_entry key i (st w)
      in if owner_tid e = i
         then attempt (chk_add oc (recursive_count e) 1)
                (\<lambda>c. Done () (put_mutex key (e\<lparr>recursive_count := c\<rparr>) w))
         else
           info_upd unknown_thread caller (\<lambda>t. t\<lparr>is_blocking := True\<rparr>)
             (put_mutex key (e\<lparr>m_waiters := push_absent caller (m_waiters e)\<rparr>) w)
             (\<lambda>w1. icall (context_switch caller w1) (MlSwitched key i caller)
               (\<lambda>w2. attempt (State_t caller (st w2))
                 (\<lambda>t. if is_blocking t
                      then info_upd unknown_thread caller (\<lambda>t. t\<lparr>is_in_rsched_wait := True\<rparr>) w2
                             (Park (SuspendCond caller) [MlWaited key i caller])
                      else mutex_lock_loop oc key i caller w2))))"
  by pat_completeness auto
termination
proof (relation "{}")
  fix oc :: bool and key i caller w t u w2 t2 and x :: SMutex and x' :: Thread
  let ?w1 = "put_mutex key (x\<lparr>m_waiters := push_absent caller (m_waiters x)\<rparr>) w"
  assume t: "info (st ?w1) caller = Some t"
    and cs: "context_switch caller (?w1\<lparr>st := (st ?w1)\<lparr>info := (info (st ?w1))(caller \<mapsto> t\<lparr>is_blocking := True\<rparr>)\<rparr>\<rparr>) = Done u w2"
    and "State_t caller (st w2) = Inr t2" and "\<not> is_blocking t2"
  then have "blocking_flags (st w2) caller = Some True"
    using context_switch_Done_blocking [of caller _ w2] by (simp add: blocking_flags_def)
  then show "((oc, key, i, caller, w2), (oc, key, i, caller, w)) \<in> {}"
    using \<open>State_t caller (st w2) = Inr t2\<close> \<open>\<not> is_blocking t2\<close>
    by (auto simp: blocking_flags_def State_t_def split: option.splits)
qed simp

declare mutex_lock_loop.simps [simp del]

text \<open>The rest of a turn after the switch, and after the caller's own wait.\<close>

definition ml_switched :: "bool \<Rightarrow> usize \<Rightarrow> pid_t \<Rightarrow> PthreadT \<Rightarrow> world \<Rightarrow> unit seg" where
  "ml_switched oc key i caller w =
     attempt (State_t caller (st w))
       (\<lambda>t. if is_blocking t
            then info_upd unknown_thread caller (\<lambda>t. t\<lparr>is_in_rsched_wait := True\<rparr>) w
                   (Park (SuspendCond caller) [MlWaited key i caller])
            else mutex_lock_loop oc key i caller w)"

definition ml_waited :: "bool \<Rightarrow> usize \<Rightarrow> pid_t \<Rightarrow> PthreadT \<Rightarrow> world \<Rightarrow> unit seg" where
  "ml_waited oc key i caller w =
     info_upd unknown_thread caller (\<lambda>t. t\<lparr>is_in_rsched_wait := False\<rparr>) w
       (mutex_lock_loop oc key i caller)"

definition mutex_lock :: "bool \<Rightarrow> usize \<Rightarrow> PthreadT \<Rightarrow> world \<Rightarrow> unit seg" where
  "mutex_lock oc key caller w =
     (case info (st w) caller of
        None \<Rightarrow> Fault no_entry
      | Some t \<Rightarrow> mutex_lock_loop oc key (tid t) caller w)"

section \<open>Unlocking\<close>

text \<open>The three phases of \<open>mutex_unlock\<close>: validate and count down, pick a waiter with the
  scheduler, hand the mutex over. It never waits, so it is a plain function of the state.\<close>

definition hand_over :: "usize \<Rightarrow> SMutex \<Rightarrow> State \<Rightarrow> fault + State" where
  "hand_over key m s =
     (case dyn_choose (sched s) (replicate (length (m_waiters m)) False) of
        Inl e \<Rightarrow> Inl e
      | Inr (None, d) \<Rightarrow> Inl (Expect ''rsched: non-empty waiter list'')
      | Inr (Some idx, d) \<Rightarrow>
          (case index (m_waiters m) idx of
             Inl e \<Rightarrow> Inl e
           | Inr waiter \<Rightarrow>
               (case info s waiter of
                  None \<Rightarrow> Inl no_entry
                | Some wt \<Rightarrow>
                    State_t_upd waiter (\<lambda>t. t\<lparr>is_blocking := False\<rparr>)
                      (s\<lparr>sched := d,
                         mutexes := (mutexes s)(key \<mapsto>
                           m\<lparr>m_waiters := remove_at idx (m_waiters m), owner_tid := tid wt\<rparr>)\<rparr>))))"

definition mutex_unlock :: "bool \<Rightarrow> usize \<Rightarrow> PthreadT \<Rightarrow> State \<Rightarrow> fault + (c_int \<times> State)" where
  "mutex_unlock oc key caller s =
     (case info s caller of
        None \<Rightarrow> Inl no_entry
      | Some t \<Rightarrow>
          (case mutexes s key of
             None \<Rightarrow> Inr (EINVAL, s)
           | Some m \<Rightarrow>
               if owner_tid m \<noteq> tid t then Inr (EPERM, s)
               else (case chk_sub oc (recursive_count m) 1 of
                       Inl e \<Rightarrow> Inl e
                     | Inr c \<Rightarrow>
                         let m1 = m\<lparr>recursive_count := c\<rparr>;
                             s1 = s\<lparr>mutexes := (mutexes s)(key \<mapsto> m1)\<rparr>
                         in if 0 < c then Inr (0, s1)
                            else if m_waiters m1 = []
                            then Inr (0, s1\<lparr>mutexes := (mutexes s1)(key := None)\<rparr>)
                            else (case hand_over key m1 s1 of
                                    Inl e \<Rightarrow> Inl e
                                  | Inr s2 \<Rightarrow> Inr (0, s2)))))"

section \<open>Mutex metadata\<close>

definition rsched_note_pthread_mutexattr_init :: "usize \<Rightarrow> State \<Rightarrow> State" where
  "rsched_note_pthread_mutexattr_init attr s =
     s\<lparr>recursive_mutex_attrs := recursive_mutex_attrs s - {attr}\<rparr>"

definition rsched_note_pthread_mutexattr_settype :: "usize \<Rightarrow> c_int \<Rightarrow> State \<Rightarrow> State" where
  "rsched_note_pthread_mutexattr_settype attr knd s =
     (if knd = PTHREAD_MUTEX_RECURSIVE
      then s\<lparr>recursive_mutex_attrs := insert attr (recursive_mutex_attrs s)\<rparr>
      else s\<lparr>recursive_mutex_attrs := recursive_mutex_attrs s - {attr}\<rparr>)"

definition rsched_note_pthread_mutexattr_destroy :: "usize \<Rightarrow> State \<Rightarrow> State" where
  "rsched_note_pthread_mutexattr_destroy attr s =
     s\<lparr>recursive_mutex_attrs := recursive_mutex_attrs s - {attr}\<rparr>"

definition rsched_note_pthread_mutex_init :: "usize \<Rightarrow> usize \<Rightarrow> State \<Rightarrow> State" where
  "rsched_note_pthread_mutex_init lock attr s =
     (if attr \<noteq> 0 \<and> attr \<in> recursive_mutex_attrs s
      then s\<lparr>recursive_mutexes := insert lock (recursive_mutexes s)\<rparr>
      else s\<lparr>recursive_mutexes := recursive_mutexes s - {lock}\<rparr>)"

definition rsched_note_pthread_mutex_destroy :: "usize \<Rightarrow> State \<Rightarrow> State" where
  "rsched_note_pthread_mutex_destroy lock s =
     s\<lparr>recursive_mutexes := recursive_mutexes s - {lock},
       mutexes := (mutexes s)(lock := None)\<rparr>"

section \<open>Resuming a stack of frames\<close>

fun resume_frame :: "bool \<Rightarrow> ifr \<Rightarrow> world \<Rightarrow> unit seg" where
  "resume_frame oc (InDrain sa child_pt) w = drain_loop sa child_pt w"
| "resume_frame oc (InWake caller) w = wake_resume caller w"
| "resume_frame oc (CsDrained caller) w = cs_after_drain caller w"
| "resume_frame oc (CsWoken caller) w = cs_after_wake caller w"
| "resume_frame oc (MlSwitched key i caller) w = ml_switched oc key i caller w"
| "resume_frame oc (MlWaited key i caller) w = ml_waited oc key i caller w"

text \<open>The innermost frame first; a frame that parks again puts its new frames on the rest.\<close>

fun run_frames :: "bool \<Rightarrow> ifr list \<Rightarrow> world \<Rightarrow> unit seg" where
  "run_frames oc [] w = Done () w"
| "run_frames oc (f # fs) w =
     (case resume_frame oc f w of
        Done _ w' \<Rightarrow> run_frames oc fs w'
      | Park q gs w' \<Rightarrow> Park q (gs @ fs) w'
      | Fault e \<Rightarrow> Fault e)"

section \<open>Basic facts\<close>

lemma put_mutex_simps [simp]:
  "boxes (put_mutex key m w) = boxes w"
  "effects (put_mutex key m w) = effects w"
  "st (put_mutex key m w) = (st w)\<lparr>mutexes := (mutexes (st w))(key \<mapsto> m)\<rparr>"
  by (simp_all add: put_mutex_def)

lemma set_push_absent [simp]: "set (push_absent x xs) = insert x (set xs)"
  by (auto simp: push_absent_def)

lemma distinct_push_absent [simp]: "distinct (push_absent x xs) \<longleftrightarrow> distinct xs"
  by (auto simp: push_absent_def)

lemma push_absent_new [simp]: "x \<notin> set xs \<Longrightarrow> push_absent x xs = xs @ [x]"
  by (simp add: push_absent_def)

text \<open>One turn of the loop with the rest of the turn folded.\<close>

lemma mutex_lock_loop_unfold:
  "mutex_lock_loop oc key i caller w =
     (let e = mutex_entry key i (st w)
      in if owner_tid e = i
         then attempt (chk_add oc (recursive_count e) 1)
                (\<lambda>c. Done () (put_mutex key (e\<lparr>recursive_count := c\<rparr>) w))
         else
           info_upd unknown_thread caller (\<lambda>t. t\<lparr>is_blocking := True\<rparr>)
             (put_mutex key (e\<lparr>m_waiters := push_absent caller (m_waiters e)\<rparr>) w)
             (\<lambda>w1. icall (context_switch caller w1) (MlSwitched key i caller)
               (ml_switched oc key i caller)))"
proof -
  have eq: "ml_switched oc key i caller = (\<lambda>w2. attempt (State_t caller (st w2))
     (\<lambda>t. if is_blocking t
          then info_upd unknown_thread caller (\<lambda>t. t\<lparr>is_in_rsched_wait := True\<rparr>) w2
                 (Park (SuspendCond caller) [MlWaited key i caller])
          else mutex_lock_loop oc key i caller w2))"
    by (rule ext) (rule ml_switched_def)
  show ?thesis unfolding eq by (rule mutex_lock_loop.simps)
qed

end
