(* ===== verification/Rsched_Api.thy ===== *)
theory Rsched_Api
  imports Rsched_Mutex
begin

text \<open>
  The exported operations of \<^verbatim>\<open>src/rsched/src/lib.rs\<close> (lines 1148-1718): thread creation, join, exit
  and the trampoline, mutexes, condition variables, barriers, the explicit yield and the
  scheduling point of atomic operations. Each is the code between \<open>rsched_glock\<close> and
  \<open>rsched_gunlock\<close>, in the default build (no \<open>tsan\<close> feature, where the annotations are empty
  functions). \<open>caller\<close> is \<open>my_pt()\<close>, \<open>ra\<close> the return address the function reads.
\<close>

section \<open>Results of the libraries\<close>

text \<open>
  What the threads library, the allocator and the kernel answer during one segment: the results of
  the real \<open>pthread_mutex_lock\<close>, \<open>pthread_mutex_unlock\<close>, \<open>pthread_create\<close> (with the id it
  stores) and \<open>pthread_barrier_init\<close>, the address of a new box, and \<open>gettid\<close>. Nothing is
  assumed about them here; a segment may get any answers.
\<close>

record Env =
  overflow_checks :: bool
  rp_mutex_lock :: "usize \<Rightarrow> c_int"
  rp_mutex_unlock :: "usize \<Rightarrow> c_int"
  rp_create :: "c_int \<times> PthreadT"
  rp_barrier_init :: "usize \<Rightarrow> u32 \<Rightarrow> c_int"
  new_box :: usize
  gettid :: pid_t

text \<open>How a segment of an exported function ends: it returns to the program, it goes on to the real
  \<open>pthread_join\<close> after releasing GMTX, a new thread enters its start routine, or the thread
  leaves for good.\<close>

datatype reply =
    Ret c_int
  | RealJoin PthreadT
  | EnterRoutine
  | ThreadGone

text \<open>The frame of the exported function, named after the call it is suspended in.\<close>

datatype ofr =
    CreateDrained usize u64
  | JoinSwitched1 PthreadT
  | JoinSwitched2 PthreadT
  | LockSwitched usize
  | Locked usize
  | TrylockSwitched usize
  | UnlockSwitched c_int
  | CwSwitched1 usize usize
  | CwSwitched2 usize
  | CwWaited usize
  | CwLocked usize
  | SignalSwitched
  | BarrierInitSwitched usize u32
  | BarrierDrained usize
  | BarrierSwitched bool
  | BarrierWaited bool
  | YieldSwitched
  | TrampolineWaited

type_synonym api = "(reply, ifr list \<times> ofr, world) outcome"

text \<open>A pure step on the state inside a segment.\<close>

definition on_st :: "(State \<Rightarrow> fault + State) \<Rightarrow> world \<Rightarrow> (world \<Rightarrow> ('a, 'k, world) outcome)
    \<Rightarrow> ('a, 'k, world) outcome" where
  "on_st f w k = attempt (f (st w)) (\<lambda>s. k (w\<lparr>st := s\<rparr>))"

definition event_at :: "u64 \<Rightarrow> EventKind \<Rightarrow> Event" where
  "event_at ra ek = \<lparr>instr_addr = ra, kind = ek\<rparr>"

section \<open>Threads\<close>

definition create_drained :: "Env \<Rightarrow> PthreadT \<Rightarrow> usize \<Rightarrow> u64 \<Rightarrow> world \<Rightarrow> api" where
  "create_drained env caller sa ra w =
     (let (r, child) = rp_create env
      in if r \<noteq> 0 then Done (Ret r) (w\<lparr>boxes := (boxes w)(sa := None)\<rparr>)
         else on_st (set_event caller (event_at ra ThreadCreate))
                (w\<lparr>st := State_add (Thread_new_with_tid child 0) (st w),
                   effects := effects w @ [Spawn child sa]\<rparr>)
                (\<lambda>w1. Done (Ret r) (w1\<lparr>st := (st w1)\<lparr>pending_child := Some (sa, child)\<rparr>\<rparr>)))"

definition rsched_pthread_create :: "Env \<Rightarrow> PthreadT \<Rightarrow> usize \<Rightarrow> usize \<Rightarrow> u64 \<Rightarrow> world \<Rightarrow> api" where
  "rsched_pthread_create env caller start_routine arg ra w =
     (let sa = new_box env;
          w1 = w\<lparr>boxes := (boxes w)(sa \<mapsto> \<lparr>routine = start_routine, start_arg = arg, ready = False\<rparr>)\<rparr>
      in ocall (drain_pending_child w1) (CreateDrained sa ra) (create_drained env caller sa ra))"

text \<open>The trampoline of a new thread, up to its first wait and after it.\<close>

definition trampoline :: "Env \<Rightarrow> PthreadT \<Rightarrow> usize \<Rightarrow> world \<Rightarrow> api" where
  "trampoline env self_pt sa w =
     (case boxes w sa of
        None \<Rightarrow> Fault UseAfterFree
      | Some a \<Rightarrow>
          info_upd unknown_thread self_pt (\<lambda>t. t\<lparr>tid := gettid env\<rparr>) w (\<lambda>w1.
            let w2 = cond_signal (ReadyCond sa)
                       (w1\<lparr>boxes := (boxes w1)(sa \<mapsto> a\<lparr>ready := True\<rparr>)\<rparr>)
            in info_upd unknown_thread self_pt (\<lambda>t. t\<lparr>is_in_rsched_wait := True\<rparr>) w2
                 (Park (SuspendCond self_pt) ([], TrampolineWaited))))"

definition trampoline_waited :: "PthreadT \<Rightarrow> world \<Rightarrow> api" where
  "trampoline_waited self_pt w =
     info_upd unknown_thread self_pt (\<lambda>t. t\<lparr>is_in_rsched_wait := False\<rparr>) w (Done EnterRoutine)"

definition exit_choose :: "PthreadT \<Rightarrow> world \<Rightarrow> api" where
  "exit_choose caller w =
     (let w1 = w\<lparr>st := State_remove caller (st w)\<rparr>
      in if threads (st w1) = [] then Done ThreadGone w1
         else attempt (State_choose (st w1)) (\<lambda>(r, s).
           case r of
             None \<Rightarrow> Done ThreadGone (w1\<lparr>st := s\<rparr>)
           | Some idx \<Rightarrow>
               attempt (index (threads s) idx) (\<lambda>nxt.
                 attempt (State_t nxt s) (\<lambda>_.
                   Done ThreadGone (cond_signal (SuspendCond nxt) (w1\<lparr>st := s\<rparr>))))))"

definition do_thread_exit :: "PthreadT \<Rightarrow> world \<Rightarrow> api" where
  "do_thread_exit caller w =
     (case Option.bind (info (st w) caller) joiner of
        Some j \<Rightarrow> info_upd unknown_thread j (\<lambda>t. t\<lparr>is_blocking := False\<rparr>) w (exit_choose caller)
      | None \<Rightarrow> exit_choose caller w)"

text \<open>\<open>rsched_pthread_exit\<close> does the same and ends the thread with the raw \<open>exit\<close> system call. The return
  value of the thread is dropped.\<close>

definition rsched_pthread_exit :: "usize \<Rightarrow> PthreadT \<Rightarrow> world \<Rightarrow> api" where
  "rsched_pthread_exit retval caller w = do_thread_exit caller w"

definition join_switched2 :: "PthreadT \<Rightarrow> world \<Rightarrow> api" where
  "join_switched2 target w = Done (RealJoin target) w"

definition join_switched1 :: "PthreadT \<Rightarrow> PthreadT \<Rightarrow> world \<Rightarrow> api" where
  "join_switched1 caller target w =
     (if target \<in> set (threads (st w))
      then info_upd unknown_thread target (\<lambda>t. t\<lparr>joiner := Some caller\<rparr>) w (\<lambda>w1.
             info_upd unknown_thread caller (\<lambda>t. t\<lparr>is_blocking := True\<rparr>) w1 (\<lambda>w2.
               ocall (context_switch caller w2) (JoinSwitched2 target) (join_switched2 target)))
      else join_switched2 target w)"

definition rsched_pthread_join :: "PthreadT \<Rightarrow> PthreadT \<Rightarrow> world \<Rightarrow> api" where
  "rsched_pthread_join caller target w =
     ocall (context_switch caller w) (JoinSwitched1 target) (join_switched1 caller target)"

section \<open>Mutexes\<close>

text \<open>After the virtual mutex is taken: the real lock, then the event is cleared on both paths.\<close>

definition lock_finish :: "Env \<Rightarrow> PthreadT \<Rightarrow> usize \<Rightarrow> world \<Rightarrow> api" where
  "lock_finish env caller lock w =
     (let r = rp_mutex_lock env lock
      in if r \<noteq> 0 then on_st (clear_event caller) w (Done (Ret r))
         else on_st (clear_event caller) w (Done (Ret 0)))"

definition lock_switched :: "Env \<Rightarrow> PthreadT \<Rightarrow> usize \<Rightarrow> world \<Rightarrow> api" where
  "lock_switched env caller lock w =
     ocall (mutex_lock (overflow_checks env) lock caller w) (Locked lock) (lock_finish env caller lock)"

definition rsched_pthread_mutex_lock :: "Env \<Rightarrow> PthreadT \<Rightarrow> usize \<Rightarrow> u64 \<Rightarrow> world \<Rightarrow> api" where
  "rsched_pthread_mutex_lock env caller lock ra w =
     on_st (set_event caller (event_at ra (LockAcq lock))) w (\<lambda>w1.
       case info (st w1) caller of
         None \<Rightarrow> Fault no_entry
       | Some t \<Rightarrow>
           if \<not> will_block (st w1) lock (tid t)
           then ocall (context_switch caller w1) (LockSwitched lock) (lock_switched env caller lock)
           else lock_switched env caller lock w1)"

definition trylock_switched :: "Env \<Rightarrow> PthreadT \<Rightarrow> usize \<Rightarrow> world \<Rightarrow> api" where
  "trylock_switched env caller lock w =
     (case info (st w) caller of
        None \<Rightarrow> Fault no_entry
      | Some t \<Rightarrow>
          if (case mutexes (st w) lock of Some m \<Rightarrow> owner_tid m = tid t | None \<Rightarrow> False)
          then if is_recursive_mutex (st w) lock
               then lock_switched env caller lock w
               else on_st (clear_event caller) w (Done (Ret EBUSY))
          else if will_block (st w) lock (tid t)
          then on_st (clear_event caller) w (Done (Ret EBUSY))
          else lock_switched env caller lock w)"

definition rsched_pthread_mutex_trylock :: "Env \<Rightarrow> PthreadT \<Rightarrow> usize \<Rightarrow> u64 \<Rightarrow> world \<Rightarrow> api" where
  "rsched_pthread_mutex_trylock env caller lock ra w =
     on_st (set_event caller (event_at ra (LockAcq lock))) w (\<lambda>w1.
       ocall (context_switch caller w1) (TrylockSwitched lock) (trylock_switched env caller lock))"

definition unlock_switched :: "PthreadT \<Rightarrow> c_int \<Rightarrow> world \<Rightarrow> api" where
  "unlock_switched caller r w = on_st (clear_event caller) w (Done (Ret r))"

definition rsched_pthread_mutex_unlock :: "Env \<Rightarrow> PthreadT \<Rightarrow> usize \<Rightarrow> u64 \<Rightarrow> world \<Rightarrow> api" where
  "rsched_pthread_mutex_unlock env caller lock ra w =
     on_st (set_event caller (event_at ra (LockRel lock))) w (\<lambda>w1.
       attempt (mutex_unlock (overflow_checks env) lock caller (st w1)) (\<lambda>(r, s).
         let w2 = w1\<lparr>st := s\<rparr>; real_r = rp_mutex_unlock env lock
         in if r = 0 \<and> real_r \<noteq> 0
            then on_st (clear_event caller) w2 (Done (Ret real_r))
            else ocall (context_switch caller w2) (UnlockSwitched r) (unlock_switched caller r)))"

section \<open>Condition variables\<close>

definition cw_finish :: "Env \<Rightarrow> usize \<Rightarrow> world \<Rightarrow> api" where
  "cw_finish env lock w =
     (let real_lock = rp_mutex_lock env lock
      in if real_lock \<noteq> 0 then Done (Ret real_lock) w else Done (Ret 0) w)"

definition cw_relock :: "Env \<Rightarrow> PthreadT \<Rightarrow> usize \<Rightarrow> world \<Rightarrow> api" where
  "cw_relock env caller lock w =
     ocall (mutex_lock (overflow_checks env) lock caller w) (CwLocked lock) (cw_finish env lock)"

definition cw_waited :: "Env \<Rightarrow> PthreadT \<Rightarrow> usize \<Rightarrow> world \<Rightarrow> api" where
  "cw_waited env caller lock w =
     info_upd unknown_thread caller (\<lambda>t. t\<lparr>is_in_rsched_wait := False\<rparr>) w (cw_relock env caller lock)"

definition cw_switched2 :: "Env \<Rightarrow> PthreadT \<Rightarrow> usize \<Rightarrow> world \<Rightarrow> api" where
  "cw_switched2 env caller lock w =
     attempt (State_t caller (st w)) (\<lambda>t.
       if is_blocking t
       then info_upd unknown_thread caller (\<lambda>t. t\<lparr>is_in_rsched_wait := True\<rparr>) w
              (Park (SuspendCond caller) ([], CwWaited lock))
       else cw_relock env caller lock w)"

definition cond_push :: "usize \<Rightarrow> PthreadT \<Rightarrow> world \<Rightarrow> world" where
  "cond_push cond caller w =
     (let c = (case conds (st w) cond of Some c \<Rightarrow> c | None \<Rightarrow> \<lparr>c_waiters = []\<rparr>)
      in w\<lparr>st := (st w)\<lparr>conds := (conds (st w))(cond \<mapsto> c\<lparr>c_waiters := c_waiters c @ [caller]\<rparr>)\<rparr>\<rparr>)"

definition cw_switched1 :: "Env \<Rightarrow> PthreadT \<Rightarrow> usize \<Rightarrow> usize \<Rightarrow> world \<Rightarrow> api" where
  "cw_switched1 env caller cond lock w =
     attempt (mutex_unlock (overflow_checks env) lock caller (st w)) (\<lambda>(r, s).
       let w1 = w\<lparr>st := s\<rparr>; real_unlock = rp_mutex_unlock env lock
       in if r \<noteq> 0 then Done (Ret r) w1
          else if real_unlock \<noteq> 0 then Done (Ret real_unlock) w1
          else info_upd unknown_thread caller (\<lambda>t. t\<lparr>is_blocking := True\<rparr>) (cond_push cond caller w1)
                 (\<lambda>w2. ocall (context_switch caller w2) (CwSwitched2 lock)
                    (cw_switched2 env caller lock)))"

definition rsched_pthread_cond_wait :: "Env \<Rightarrow> PthreadT \<Rightarrow> usize \<Rightarrow> usize \<Rightarrow> world \<Rightarrow> api" where
  "rsched_pthread_cond_wait env caller cond lock w =
     (case info (st w) caller of
        None \<Rightarrow> Fault no_entry
      | Some t \<Rightarrow>
          if \<not> will_block (st w) lock (tid t)
          then ocall (context_switch caller w) (CwSwitched1 cond lock) (cw_switched1 env caller cond lock)
          else cw_switched1 env caller cond lock w)"

definition signal_switched :: "world \<Rightarrow> api" where
  "signal_switched w = Done (Ret 0) w"

definition signal_waiter :: "usize \<Rightarrow> State \<Rightarrow> fault + State" where
  "signal_waiter cond s =
     (case conds s cond of
        None \<Rightarrow> Inr s
      | Some c \<Rightarrow>
          if c_waiters c = [] then Inr s
          else (case dyn_choose (sched s) (replicate (length (c_waiters c)) False) of
                  Inl e \<Rightarrow> Inl e
                | Inr (None, d) \<Rightarrow> Inl (Expect ''rsched: non-empty cond waiter list'')
                | Inr (Some idx, d) \<Rightarrow>
                    (case index (c_waiters c) idx of
                       Inl e \<Rightarrow> Inl e
                     | Inr w \<Rightarrow>
                         State_t_upd w (\<lambda>t. t\<lparr>is_blocking := False\<rparr>)
                           (s\<lparr>sched := d,
                              conds := (conds s)(cond \<mapsto> c\<lparr>c_waiters := remove_at idx (c_waiters c)\<rparr>)\<rparr>))))"

definition rsched_pthread_cond_signal :: "PthreadT \<Rightarrow> usize \<Rightarrow> world \<Rightarrow> api" where
  "rsched_pthread_cond_signal caller cond w =
     on_st (signal_waiter cond) w (\<lambda>w1.
       ocall (context_switch caller w1) SignalSwitched signal_switched)"

text \<open>\<open>for w in waiters { st().t(w).is_blocking = false }\<close>.\<close>

fun unblock_all :: "PthreadT list \<Rightarrow> State \<Rightarrow> fault + State" where
  "unblock_all [] s = Inr s"
| "unblock_all (w # ws) s =
     (case State_t_upd w (\<lambda>t. t\<lparr>is_blocking := False\<rparr>) s of
        Inl e \<Rightarrow> Inl e
      | Inr s1 \<Rightarrow> unblock_all ws s1)"

definition broadcast_waiters :: "usize \<Rightarrow> State \<Rightarrow> fault + State" where
  "broadcast_waiters cond s =
     (case conds s cond of
        None \<Rightarrow> Inr s
      | Some c \<Rightarrow> unblock_all (c_waiters c) (s\<lparr>conds := (conds s)(cond := None)\<rparr>))"

definition rsched_pthread_cond_broadcast :: "PthreadT \<Rightarrow> usize \<Rightarrow> world \<Rightarrow> api" where
  "rsched_pthread_cond_broadcast caller cond w =
     on_st (broadcast_waiters cond) w (\<lambda>w1.
       ocall (context_switch caller w1) SignalSwitched signal_switched)"

section \<open>Barriers\<close>

definition PTHREAD_BARRIER_SERIAL_THREAD :: c_int where
  "PTHREAD_BARRIER_SERIAL_THREAD = -1"

definition barrier_init_switched :: "Env \<Rightarrow> usize \<Rightarrow> u32 \<Rightarrow> world \<Rightarrow> api" where
  "barrier_init_switched env barrier cnt w =
     (let r = rp_barrier_init env barrier cnt
      in if r = 0
         then Done (Ret r) (w\<lparr>st := (st w)\<lparr>barriers := (barriers (st w))(barrier \<mapsto>
                \<lparr>b_count = cnt, b_waiters = []\<rparr>)\<rparr>\<rparr>)
         else Done (Ret r) w)"

definition rsched_pthread_barrier_init :: "Env \<Rightarrow> PthreadT \<Rightarrow> usize \<Rightarrow> u32 \<Rightarrow> world \<Rightarrow> api" where
  "rsched_pthread_barrier_init env caller barrier cnt w =
     ocall (context_switch caller w) (BarrierInitSwitched barrier cnt)
       (barrier_init_switched env barrier cnt)"

definition barrier_result :: "bool \<Rightarrow> c_int" where
  "barrier_result released = (if released then PTHREAD_BARRIER_SERIAL_THREAD else 0)"

definition barrier_waited :: "PthreadT \<Rightarrow> bool \<Rightarrow> world \<Rightarrow> api" where
  "barrier_waited caller released w =
     info_upd unknown_thread caller (\<lambda>t. t\<lparr>is_in_rsched_wait := False\<rparr>) w
       (Done (Ret (barrier_result released)))"

definition barrier_switched :: "PthreadT \<Rightarrow> bool \<Rightarrow> world \<Rightarrow> api" where
  "barrier_switched caller released w =
     attempt (State_t caller (st w)) (\<lambda>t.
       if is_blocking t
       then info_upd unknown_thread caller (\<lambda>t. t\<lparr>is_in_rsched_wait := True\<rparr>) w
              (Park (SuspendCond caller) ([], BarrierWaited released))
       else Done (Ret (barrier_result released)) w)"

text \<open>The two blocks of \<open>rsched_pthread_barrier_wait\<close>: register as a waiter, then release everyone
  if the barrier is full. The result says whether this caller released it.\<close>

definition barrier_arrive :: "usize \<Rightarrow> PthreadT \<Rightarrow> SBarrier \<Rightarrow> State \<Rightarrow> fault + (bool \<times> State)" where
  "barrier_arrive barrier caller b s =
     (let b1 = b\<lparr>b_waiters := push_absent caller (b_waiters b)\<rparr>;
          s1 = s\<lparr>barriers := (barriers s)(barrier \<mapsto> b1)\<rparr>
      in case (if length (b_waiters b1) < unat (b_count b1)
               then State_t_upd caller (\<lambda>t. t\<lparr>is_blocking := True\<rparr>) s1
               else Inr s1) of
           Inl e \<Rightarrow> Inl e
         | Inr s2 \<Rightarrow>
             if unat (b_count b1) \<le> length (b_waiters b1)
             then (case unblock_all (b_waiters b1)
                          (s2\<lparr>barriers := (barriers s2)(barrier \<mapsto> b1\<lparr>b_waiters := []\<rparr>)\<rparr>) of
                     Inl e \<Rightarrow> Inl e
                   | Inr s3 \<Rightarrow> Inr (True, s3))
             else Inr (False, s2))"

definition barrier_drained :: "PthreadT \<Rightarrow> usize \<Rightarrow> world \<Rightarrow> api" where
  "barrier_drained caller barrier w =
     (case barriers (st w) barrier of
        None \<Rightarrow> Done (Ret EINVAL) w
      | Some b \<Rightarrow>
          attempt (barrier_arrive barrier caller b (st w)) (\<lambda>(released, s).
            ocall (context_switch caller (w\<lparr>st := s\<rparr>)) (BarrierSwitched released)
              (barrier_switched caller released)))"

definition rsched_pthread_barrier_wait :: "PthreadT \<Rightarrow> usize \<Rightarrow> world \<Rightarrow> api" where
  "rsched_pthread_barrier_wait caller barrier w =
     ocall (drain_pending_child w) (BarrierDrained barrier) (barrier_drained caller barrier)"

section \<open>Yields and memory operations\<close>

definition yield_switched :: "PthreadT \<Rightarrow> world \<Rightarrow> api" where
  "yield_switched caller w = on_st (clear_event caller) w (Done (Ret 0))"

definition rsched_sched_yield :: "PthreadT \<Rightarrow> u64 \<Rightarrow> world \<Rightarrow> api" where
  "rsched_sched_yield caller ra w =
     on_st (set_event caller (event_at ra SchedYield)) w (\<lambda>w1.
       ocall (context_switch caller w1) YieldSwitched (yield_switched caller))"

text \<open>\<open>schedule_memop\<close> returns at once when the thread is already inside the library
  (\<open>is_in_rsched()\<close>).\<close>

definition schedule_memop ::
  "bool \<Rightarrow> PthreadT \<Rightarrow> u64 \<Rightarrow> usize \<Rightarrow> usize \<Rightarrow> AccessKind \<Rightarrow> world \<Rightarrow> api" where
  "schedule_memop in_rsched caller addr mem_addr sz access w =
     (if in_rsched then Done (Ret 0) w
      else on_st (set_event caller (event_at addr (MemOp mem_addr sz access))) w (\<lambda>w1.
             ocall (context_switch caller w1) YieldSwitched (yield_switched caller)))"

text \<open>The access code of the instrumentation hooks.\<close>

definition access_of_code :: "u32 \<Rightarrow> AccessKind" where
  "access_of_code code = (if code = 0 then Read else if code = 1 then Write else ReadWrite)"

definition rsched_atomic_instrument_ra ::
  "bool \<Rightarrow> PthreadT \<Rightarrow> usize \<Rightarrow> usize \<Rightarrow> usize \<Rightarrow> u32 \<Rightarrow> world \<Rightarrow> api" where
  "rsched_atomic_instrument_ra in_rsched caller addr mem sz code w =
     schedule_memop in_rsched caller addr mem sz (access_of_code code) w"

definition rsched_atomic_instrument ::
  "bool \<Rightarrow> PthreadT \<Rightarrow> u64 \<Rightarrow> usize \<Rightarrow> usize \<Rightarrow> u32 \<Rightarrow> world \<Rightarrow> api" where
  "rsched_atomic_instrument in_rsched caller ra mem sz code w =
     schedule_memop in_rsched caller ra mem sz (access_of_code code) w"

section \<open>Resuming an exported function\<close>

fun resume_api :: "Env \<Rightarrow> PthreadT \<Rightarrow> ofr \<Rightarrow> world \<Rightarrow> api" where
  "resume_api env p (CreateDrained sa ra) w = create_drained env p sa ra w"
| "resume_api env p (JoinSwitched1 target) w = join_switched1 p target w"
| "resume_api env p (JoinSwitched2 target) w = join_switched2 target w"
| "resume_api env p (LockSwitched lock) w = lock_switched env p lock w"
| "resume_api env p (Locked lock) w = lock_finish env p lock w"
| "resume_api env p (TrylockSwitched lock) w = trylock_switched env p lock w"
| "resume_api env p (UnlockSwitched r) w = unlock_switched p r w"
| "resume_api env p (CwSwitched1 cond lock) w = cw_switched1 env p cond lock w"
| "resume_api env p (CwSwitched2 lock) w = cw_switched2 env p lock w"
| "resume_api env p (CwWaited lock) w = cw_waited env p lock w"
| "resume_api env p (CwLocked lock) w = cw_finish env lock w"
| "resume_api env p SignalSwitched w = signal_switched w"
| "resume_api env p (BarrierInitSwitched barrier cnt) w = barrier_init_switched env barrier cnt w"
| "resume_api env p (BarrierDrained barrier) w = barrier_drained p barrier w"
| "resume_api env p (BarrierSwitched released) w = barrier_switched p released w"
| "resume_api env p (BarrierWaited released) w = barrier_waited p released w"
| "resume_api env p YieldSwitched w = yield_switched p w"
| "resume_api env p TrampolineWaited w = trampoline_waited p w"

definition resume :: "Env \<Rightarrow> PthreadT \<Rightarrow> ifr list \<times> ofr \<Rightarrow> world \<Rightarrow> api" where
  "resume env p k w = ocall (run_frames (overflow_checks env) (fst k) w) (snd k) (resume_api env p (snd k))"

end
