(* ===== verification/Rsched_Sync.thy ===== *)
theory Rsched_Sync
  imports Rsched_Api
begin

text \<open>
  What the virtual synchronisation objects do, operation by operation: when locking returns and when
  it waits, the branches of unlocking, and the effect of signals, broadcasts and barrier arrivals on
  the waiting threads.
\<close>

section \<open>Mutexes\<close>

lemma State_t_Inr_iff: "State_t p s = Inr t \<longleftrightarrow> info s p = Some t"
  by (simp add: State_t_def split: option.splits)

text \<open>A turn of \<open>mutex_lock\<close> that finds the mutex taken never returns: the switch leaves the caller
  blocking, so it waits.\<close>

lemma lock_loop_taken:
  assumes "owner_tid (mutex_entry key i (st w)) \<noteq> i"
  shows "mutex_lock_loop oc key i p w \<noteq> Done u w'"
proof
  assume ret: "mutex_lock_loop oc key i p w = Done u w'"
  let ?e = "mutex_entry key i (st w)"
  let ?w1 = "put_mutex key (?e\<lparr>m_waiters := push_absent p (m_waiters ?e)\<rparr>) w"
  obtain t where t: "info (st ?w1) p = Some t"
    using ret assms by (cases "info (st ?w1) p") (auto simp: mutex_lock_loop_unfold Let_def)
  let ?v = "?w1\<lparr>st := (st ?w1)\<lparr>info := (info (st ?w1))(p \<mapsto> t\<lparr>is_blocking := True\<rparr>)\<rparr>\<rparr>"
  have "icall (context_switch p ?v) (MlSwitched key i p) (ml_switched oc key i p) = Done u w'"
    using ret assms t by (simp add: mutex_lock_loop_unfold Let_def)
  then obtain w2 where cs: "context_switch p ?v = Done () w2" and ml: "ml_switched oc key i p w2 = Done u w'"
    by (cases "context_switch p ?v") auto
  have "blocking_flags (st w2) p = Some True"
    using context_switch_Done_blocking [OF cs] by (simp add: blocking_flags_def)
  then obtain t2 where "info (st w2) p = Some t2" "is_blocking t2" by (auto simp: blocking_flags_def)
  then show False using ml by (simp add: ml_switched_def State_t_def)
qed

text \<open>C17: \<open>mutex_lock\<close> returns exactly when the mutex is free or already belongs to the caller's tid and
  the count does not overflow. The entry then belongs to that tid, its count is one higher, its
  waiters and every other mutex are as before. In every other case the caller waits or a fault
  stops it, so no thread returns from locking a mutex another one owns.\<close>

theorem mutex_lock_returns_iff:
  "mutex_lock_loop oc key i p w = Done () w' \<longleftrightarrow>
     (\<exists>c. owner_tid (mutex_entry key i (st w)) = i
        \<and> chk_add oc (recursive_count (mutex_entry key i (st w))) 1 = Inr c
        \<and> w' = put_mutex key ((mutex_entry key i (st w))\<lparr>recursive_count := c\<rparr>) w)"
proof (cases "owner_tid (mutex_entry key i (st w)) = i")
  case True
  then show ?thesis
    by (cases "chk_add oc (recursive_count (mutex_entry key i (st w))) 1")
       (auto simp: mutex_lock_loop_unfold Let_def)
next
  case False
  then show ?thesis using lock_loop_taken by auto
qed

text \<open>The error branches of unlocking. A mutex that nobody holds gives \<open>EINVAL\<close>, one that another
  tid holds gives \<open>EPERM\<close>, and neither changes the state; a nested unlock only counts down.\<close>

theorem mutex_unlock_branches:
  assumes "info s p = Some t"
  shows "(mutexes s key = None \<longrightarrow> mutex_unlock oc key p s = Inr (EINVAL, s))
   \<and> (\<forall>mu. mutexes s key = Some mu \<longrightarrow> owner_tid mu \<noteq> tid t \<longrightarrow> mutex_unlock oc key p s = Inr (EPERM, s))
   \<and> (\<forall>mu. mutexes s key = Some mu \<longrightarrow> owner_tid mu = tid t \<longrightarrow> 1 < recursive_count mu \<longrightarrow>
        mutex_unlock oc key p s
        = Inr (0, s\<lparr>mutexes := (mutexes s)(key \<mapsto> mu\<lparr>recursive_count := recursive_count mu - 1\<rparr>)\<rparr>))"
proof -
  have nested: "chk_sub oc n 1 = Inr (n - 1) \<and> 0 < n - 1" if "1 < n" for n :: u32
  proof
    show "chk_sub oc n 1 = Inr (n - 1)" using that by (simp add: less_imp_le)
    have "n - 1 \<noteq> 0" using that by auto
    then show "0 < n - 1" by (simp add: word_gt_0)
  qed
  show ?thesis using assms nested by (auto simp: mutex_unlock_def Let_def)
qed

theorem mutex_unlock_branches_witness:
  "mutex_unlock True 500 1 ((State_new (\<lambda>_. None) 7)\<lparr>info := [1 \<mapsto> Thread_new 1 101]\<rparr>)
     = Inr (EINVAL, (State_new (\<lambda>_. None) 7)\<lparr>info := [1 \<mapsto> Thread_new 1 101]\<rparr>)"
  using mutex_unlock_branches [of "(State_new (\<lambda>_. None) 7)\<lparr>info := [1 \<mapsto> Thread_new 1 101]\<rparr>" 1 "Thread_new 1 101" 500 True]
  by (simp add: State_new_def Let_def)



text \<open>Two threads, the first holding mutex 500 once and the second queued for it.\<close>

definition demo_contended :: State where
  "demo_contended = (State_new (\<lambda>_. None) 7)\<lparr>info := [1 \<mapsto> Thread_new 1 101, 2 \<mapsto> (Thread_new 2 102)\<lparr>is_blocking := True\<rparr>],
     mutexes := [500 \<mapsto> \<lparr>owner_tid = 101, recursive_count = 1, m_waiters = [2]\<rparr>]\<rparr>"


text \<open>Locking a free mutex and unlocking it restores the state.\<close>

theorem lock_unlock_roundtrip:
  assumes "mutexes (st w) key = None" and "info (st w) p = Some t"
  shows "\<exists>w'. mutex_lock oc key p w = Done () w' \<and> mutex_unlock oc key p (st w') = Inr (0, st w)"
proof -
  let ?m = "\<lparr>owner_tid = tid t, recursive_count = 1, m_waiters = []\<rparr>"
  have "mutex_lock_loop oc key (tid t) p w = Done () (put_mutex key ?m w)"
    by (subst mutex_lock_returns_iff) (use assms in \<open>auto simp: mutex_entry_def chk_add_def\<close>)
  then have "mutex_lock oc key p w = Done () (put_mutex key ?m w)" using assms(2) by (simp add: mutex_lock_def)
  moreover have "(mutexes (st w))(key := None) = mutexes (st w)" using assms(1) by (metis fun_upd_triv)
  then have "mutex_unlock oc key p (st (put_mutex key ?m w)) = Inr (0, st w)"
    using assms by (simp add: mutex_unlock_def Let_def)
  ultimately show ?thesis by blast
qed

definition demo_world :: "State \<Rightarrow> world" where
  "demo_world s = \<lparr>st = s, boxes = Map.empty, effects = []\<rparr>"

theorem lock_unlock_roundtrip_witness:
  "\<exists>w'. mutex_lock True 600 1 (demo_world demo_contended) = Done () w'
     \<and> mutex_unlock True 600 1 (st w') = Inr (0, st (demo_world demo_contended))"
  by (rule lock_unlock_roundtrip [where t = "Thread_new 1 101"])
     (simp_all add: demo_world_def demo_contended_def State_new_def Let_def)

text \<open>\<open>pthread_mutex_trylock\<close> never waits for the mutex. After its switch it returns at once: \<open>EBUSY\<close>
  when another tid owns the mutex, or when the caller owns it and it is not recursive.\<close>

theorem trylock_never_waits:
  assumes "info (st w) p = Some t" and "\<And>mu. mutexes (st w) lock = Some mu \<Longrightarrow> owner_tid mu \<noteq> 0"
  shows "\<not> (\<exists>q k w'. trylock_switched env p lock w = Park q k w')
    \<and> (will_block (st w) lock (tid t) \<longrightarrow> (\<exists>w'. trylock_switched env p lock w = Done (Ret EBUSY) w'))"
proof -
  let ?m = "mutex_entry lock (tid t) (st w)"
  have lock: "\<not> (\<exists>q k w'. lock_switched env p lock w = Park q k w')" if "owner_tid ?m = tid t"
  proof -
    have "mutex_lock (overflow_checks env) lock p w
        = attempt (chk_add (overflow_checks env) (recursive_count ?m) 1)
            (\<lambda>c. Done () (put_mutex lock (?m\<lparr>recursive_count := c\<rparr>) w))"
      using that assms(1) by (simp add: mutex_lock_def mutex_lock_loop_unfold Let_def)
    then show ?thesis
      by (cases "chk_add (overflow_checks env) (recursive_count ?m) 1")
         (simp_all add: lock_switched_def lock_finish_def on_st_def clear_event_def State_t_upd_def
            Let_def assms(1))
  qed
  have "owner_tid ?m = tid t" if "\<not> will_block (st w) lock (tid t)"
    using that assms(2) by (auto simp: will_block_def mutex_entry_def split: option.splits)
  moreover have "\<exists>w'. on_st (clear_event p) w (Done (Ret EBUSY)) = Done (Ret EBUSY) w'"
    using assms(1) by (simp add: on_st_def clear_event_def State_t_upd_def)
  moreover have "owner_tid ?m = tid t" if "mutexes (st w) lock = Some mu" "owner_tid mu = tid t" for mu
    using that by (simp add: mutex_entry_def)
  moreover have "\<not> will_block (st w) lock (tid t)" if "mutexes (st w) lock = Some mu" "owner_tid mu = tid t" for mu
    using that by (simp add: will_block_def)
  ultimately show ?thesis using assms(1) lock
    by (cases "mutexes (st w) lock") (auto simp: trylock_switched_def)
qed

theorem trylock_never_waits_witness:
  "\<exists>w'. trylock_switched \<lparr>overflow_checks = True, rp_mutex_lock = (\<lambda>_. 0), rp_mutex_unlock = (\<lambda>_. 0),
      rp_create = (0, 0), rp_barrier_init = (\<lambda>_ _. 0), new_box = 0, gettid = 0\<rparr>
      2 500 (demo_world demo_contended) = Done (Ret EBUSY) w'"
proof -
  let ?t = "(Thread_new 2 102)\<lparr>is_blocking := True\<rparr>"
  have "info (st (demo_world demo_contended)) 2 = Some ?t"
    and "\<And>mu. mutexes (st (demo_world demo_contended)) 500 = Some mu \<Longrightarrow> owner_tid mu \<noteq> 0"
    and "will_block (st (demo_world demo_contended)) 500 (tid ?t)"
    by (auto simp: demo_world_def demo_contended_def will_block_def Thread_new_def Thread_new_with_tid_def)
  then show ?thesis using trylock_never_waits by blast
qed

section \<open>Condition variables\<close>

text \<open>\<open>unblock_all\<close> in one equation.\<close>

definition unblocked :: "PthreadT set \<Rightarrow> (PthreadT \<rightharpoonup> Thread) \<Rightarrow> PthreadT \<rightharpoonup> Thread" where
  "unblocked ws infos q = (if q \<in> ws then map_option (\<lambda>t. t\<lparr>is_blocking := False\<rparr>) (infos q) else infos q)"

lemma unblock_all_eq:
  "set ws \<subseteq> dom (info s) \<Longrightarrow> unblock_all ws s = Inr (s\<lparr>info := unblocked (set ws) (info s)\<rparr>)"
proof (induction ws arbitrary: s)
  case Nil
  then show ?case by (simp add: unblocked_def [abs_def])
next
  case (Cons w ws)
  obtain t where t: "info s w = Some t" using Cons.prems by auto
  let ?s = "s\<lparr>info := (info s)(w \<mapsto> t\<lparr>is_blocking := False\<rparr>)\<rparr>"
  have "unblock_all ws ?s = Inr (?s\<lparr>info := unblocked (set ws) (info ?s)\<rparr>)"
    using Cons.prems by (intro Cons.IH) auto
  moreover have "unblocked (set ws) (info ?s) = unblocked (set (w # ws)) (info s)"
    using t by (auto simp: fun_eq_iff unblocked_def)
  ultimately show ?case using t by (simp add: State_t_upd_def)
qed

text \<open>C20: a broadcast unblocks every waiter of the condition variable, nobody else, and forgets the
  queue.\<close>

theorem broadcast_unblocks_all:
  assumes "\<And>cv. conds s cond = Some cv \<Longrightarrow> set (c_waiters cv) \<subseteq> dom (info s)"
  shows "broadcast_waiters cond s = Inr (s\<lparr>conds := (conds s)(cond := None),
     info := unblocked (case conds s cond of None \<Rightarrow> {} | Some cv \<Rightarrow> set (c_waiters cv)) (info s)\<rparr>)"
proof (cases "conds s cond")
  case None
  then have "(conds s)(cond := None) = conds s" by (metis fun_upd_triv)
  then show ?thesis using None by (simp add: broadcast_waiters_def unblocked_def [abs_def])
next
  case (Some cv)
  then show ?thesis using assms by (simp add: broadcast_waiters_def unblock_all_eq)
qed

theorem broadcast_unblocks_all_witness:
  "\<exists>s'. broadcast_waiters 9 (demo_contended\<lparr>conds := [9 \<mapsto> \<lparr>c_waiters = [2]\<rparr>]\<rparr>) = Inr s'
     \<and> map_option is_blocking (info s' 2) = Some False"
proof -
  let ?s = "demo_contended\<lparr>conds := [9 \<mapsto> \<lparr>c_waiters = [2]\<rparr>]\<rparr>"
  have "\<And>cv. conds ?s 9 = Some cv \<Longrightarrow> set (c_waiters cv) \<subseteq> dom (info ?s)"
    by (auto simp: demo_contended_def)
  from broadcast_unblocks_all [of ?s 9, OF this] show ?thesis
    by (simp add: unblocked_def demo_contended_def)
qed




section \<open>Barriers\<close>

lemma arrive_waits:
  assumes "length (b_waiters b) + 1 < unat (b_count b)" and "p \<notin> set (b_waiters b)" and "info s p = Some t"
  shows "barrier_arrive barrier p b s = Inr (False, s\<lparr>
     barriers := (barriers s)(barrier \<mapsto> b\<lparr>b_waiters := b_waiters b @ [p]\<rparr>),
     info := (info s)(p \<mapsto> t\<lparr>is_blocking := True\<rparr>)\<rparr>)"
  using assms by (simp add: barrier_arrive_def State_t_upd_def Let_def)

lemma arrive_releases:
  assumes "unat (b_count b) \<le> length (b_waiters b) + 1" and "p \<notin> set (b_waiters b)"
    and "set (b_waiters b) \<subseteq> dom (info s)" and "p \<in> dom (info s)"
  shows "barrier_arrive barrier p b s = Inr (True, s\<lparr>
     barriers := (barriers s)(barrier \<mapsto> b\<lparr>b_waiters := []\<rparr>),
     info := unblocked (insert p (set (b_waiters b))) (info s)\<rparr>)"
proof -
  let ?s = "s\<lparr>barriers := (barriers s)(barrier \<mapsto> b\<lparr>b_waiters := []\<rparr>)\<rparr>"
  have "unblock_all (b_waiters b @ [p]) ?s
      = Inr (?s\<lparr>info := unblocked (insert p (set (b_waiters b))) (info s)\<rparr>)"
    using unblock_all_eq [of "b_waiters b @ [p]" ?s] assms(3,4) by simp
  then show ?thesis using assms(1,2) by (simp add: barrier_arrive_def Let_def)
qed

text \<open>Arrivals one after the other: the results of \<open>barrier_arrive\<close>, in order.\<close>

fun arrivals :: "usize \<Rightarrow> PthreadT list \<Rightarrow> State \<Rightarrow> fault + (bool list \<times> State)" where
  "arrivals barrier [] s = Inr ([], s)"
| "arrivals barrier (p # ps) s =
     (case barriers s barrier of
        None \<Rightarrow> Inl UnwrapNone
      | Some b \<Rightarrow> (case barrier_arrive barrier p b s of
            Inl e \<Rightarrow> Inl e
          | Inr (r, s1) \<Rightarrow> (case arrivals barrier ps s1 of
                Inl e \<Rightarrow> Inl e
              | Inr (rs, s2) \<Rightarrow> Inr (r # rs, s2))))"

lemma barrier_round_from:
  assumes "ps \<noteq> []" and "barriers s barrier = Some b" and "unat (b_count b) = length (b_waiters b) + length ps"
    and "distinct (b_waiters b @ ps)" and "set (b_waiters b @ ps) \<subseteq> dom (info s)"
  shows "\<exists>s'. arrivals barrier ps s = Inr (replicate (length ps - 1) False @ [True], s')
     \<and> barriers s' barrier = Some (b\<lparr>b_waiters := []\<rparr>)
     \<and> (\<forall>q\<in>set (b_waiters b @ ps). map_option is_blocking (info s' q) = Some False)"
  using assms
proof (induction ps arbitrary: s b)
  case (Cons p ps)
  obtain t where t: "info s p = Some t" using Cons.prems(5) by auto
  have new: "p \<notin> set (b_waiters b)" using Cons.prems(4) by auto
  show ?case
  proof (cases "ps = []")
    case True
    have "barrier_arrive barrier p b s = Inr (True, s\<lparr>
       barriers := (barriers s)(barrier \<mapsto> b\<lparr>b_waiters := []\<rparr>),
       info := unblocked (insert p (set (b_waiters b))) (info s)\<rparr>)"
      using Cons.prems True new by (intro arrive_releases) auto
    moreover have "map_option is_blocking (unblocked (insert p (set (b_waiters b))) (info s) q) = Some False"
      if "q \<in> set (b_waiters b @ [p])" for q
      using that Cons.prems(5) True by (auto simp: unblocked_def)
    ultimately show ?thesis using Cons.prems(2) True by simp
  next
    case False
    let ?b = "b\<lparr>b_waiters := b_waiters b @ [p]\<rparr>"
    let ?s = "s\<lparr>barriers := (barriers s)(barrier \<mapsto> ?b), info := (info s)(p \<mapsto> t\<lparr>is_blocking := True\<rparr>)\<rparr>"
    have arr: "barrier_arrive barrier p b s = Inr (False, ?s)"
      using Cons.prems(3) False new t by (intro arrive_waits) (cases ps, auto)
    have "\<exists>s'. arrivals barrier ps ?s = Inr (replicate (length ps - 1) False @ [True], s')
       \<and> barriers s' barrier = Some (?b\<lparr>b_waiters := []\<rparr>)
       \<and> (\<forall>q\<in>set (b_waiters ?b @ ps). map_option is_blocking (info s' q) = Some False)"
      using Cons.prems False by (intro Cons.IH) auto
    then obtain s' where s': "arrivals barrier ps ?s = Inr (replicate (length ps - 1) False @ [True], s')"
      "barriers s' barrier = Some (?b\<lparr>b_waiters := []\<rparr>)"
      "\<forall>q\<in>set (b_waiters ?b @ ps). map_option is_blocking (info s' q) = Some False" by blast
    have "False # replicate (length ps - 1) False = replicate (length ps) False"
      using False by (cases ps) simp_all
    then show ?thesis using arr s' Cons.prems(2) by simp
  qed
qed simp



section \<open>The context switch\<close>

text \<open>The segment up to the wait, once the caller is registered and no child is pending.\<close>

lemma context_switch_cases:
  assumes wf: "wf_threads (st w)" and pend: "pending_child (st w) = None"
    and p: "p \<in> set (threads (st w))" "info (st w) p = Some t" and run: "\<not> is_in_rsched_wait t"
  obtains (away) n w' where
      "context_switch p w = Park (SuspendCond p) [InWake p, CsWoken p] w'"
      "n \<noteq> p" "eligible (st w) n" "effects w' = effects w @ [Signal (SuspendCond n)]"
    | (stay) w' where "context_switch p w = Done () w'" "\<And>q. \<not> eligible (st w) q" "effects w' = effects w"
proof -
  define u where "u = (if startup_done t then w
    else w\<lparr>st := (st w)\<lparr>info := (info (st w))(p \<mapsto> t\<lparr>startup_done := True\<rparr>)\<rparr>\<rparr>)"
  have el: "eligible (st u) q = eligible (st w) q" for q
    using p run by (auto simp: u_def eligible_def ineligible_def)
  have wfu: "wf_threads (st u)" using wf p by (auto simp: u_def wf_threads_def)
  have pu: "\<not> eligible (st u) p" using p run by (auto simp: u_def eligible_def ineligible_def)
  obtain tp where tp: "info (st u) p = Some tp" using p by (cases "startup_done t") (auto simp: u_def)
  have eff: "effects u = effects w" "threads (st u) = threads (st w)" by (simp_all add: u_def)
  have cs: "context_switch p w = (if length (threads (st w)) \<le> 1 then Done () w else cs_choose p u)"
    using pend p by (simp add: context_switch_def drain_pending_child_def cs_after_drain_def u_def)
  show thesis
  proof (cases "length (threads (st w)) \<le> 1")
    case True
    then have "set (threads (st w)) = {p}" using p(1) by (cases "threads (st w)") auto
    then have "\<not> eligible (st w) q" for q using pu el by (auto simp: eligible_def)
    then show thesis using stay True cs by simp
  next
    case False
    show thesis using wfu
    proof (cases rule: State_choose_cases)
      case (chosen i d)
      let ?n = "threads (st u) ! i"
      obtain tn where tn: "info (st u) ?n = Some tn" using chosen(3) by (auto simp: eligible_def)
      have ne: "?n \<noteq> p" using chosen(3) pu by auto
      have "context_switch p w = Park (SuspendCond p) [InWake p, CsWoken p]
          (cond_signal (SuspendCond ?n) (u\<lparr>st := (st u)\<lparr>sched := d\<rparr>\<rparr>)
             \<lparr>st := (st u)\<lparr>sched := d, info := (info (st u))(p \<mapsto> tp\<lparr>is_in_rsched_wait := True\<rparr>)\<rparr>\<rparr>)"
        using cs False chosen ne tn tp by (simp add: cs_choose_def wake_def index_def Let_def)
      then show thesis using away ne chosen(3) el eff by simp
    next
      case (deadlock d)
      then show thesis using stay [of "u\<lparr>st := (st u)\<lparr>sched := d\<rparr>\<rparr>"] cs False el eff
        by (simp add: cs_choose_def)
    qed
  qed
qed

text \<open>C16: a context switch never keeps the caller running while another thread can run. If some
  thread is eligible, it signals one eligible thread other than the caller and suspends the caller;
  otherwise it returns and signals nobody. The
  caller itself is never picked, because it does not wait inside the library.\<close>

theorem switch_moves_away:
  assumes "wf_threads (st w)" and "pending_child (st w) = None"
    and "p \<in> set (threads (st w))" and "info (st w) p = Some t" and "\<not> is_in_rsched_wait t"
  shows "if \<exists>q. eligible (st w) q
    then \<exists>n w'. context_switch p w = Park (SuspendCond p) [InWake p, CsWoken p] w'
           \<and> n \<noteq> p \<and> eligible (st w) n \<and> effects w' = effects w @ [Signal (SuspendCond n)]
    else \<exists>w'. context_switch p w = Done () w' \<and> effects w' = effects w"
  using assms by (cases rule: context_switch_cases) auto

text \<open>Thread 1 runs and thread 2 waits for its turn.\<close>

definition demo_two :: State where
  "demo_two = (State_new (\<lambda>_. None) 7)\<lparr>threads := [1, 2],
     info := [1 \<mapsto> Thread_new 1 101, 2 \<mapsto> (Thread_new 2 102)\<lparr>startup_done := True, is_in_rsched_wait := True\<rparr>]\<rparr>"

theorem switch_moves_away_witness:
  "\<exists>w'. context_switch 1 (demo_world demo_two) = Park (SuspendCond 1) [InWake 1, CsWoken 1] w'
     \<and> effects w' = [Signal (SuspendCond 2)]"
proof -
  let ?w = "demo_world demo_two"
  note defs = demo_world_def demo_two_def Thread_new_def Thread_new_with_tid_def State_new_def Let_def
  have "wf_threads (st ?w)" by (auto simp: defs wf_threads_def split: if_splits)
  moreover have "eligible (st ?w) q \<longleftrightarrow> q = 2" for q
    by (auto simp: defs eligible_def ineligible_def)
  ultimately show ?thesis
    using switch_moves_away [of ?w 1 "Thread_new 1 101"] by (auto simp: defs)
qed

end
