(* ===== verification/Rsched_Running.thy ===== *)
theory Rsched_Running
  imports Rsched_Api
begin

text \<open>
  The discipline that every segment of the library keeps. At any moment at most one thread holds
  the right to run; the others are parked on their own \<open>suspend_cond\<close> or have not entered the
  library yet. \<open>running b p c w\<close> is the assertion that holds while a segment of the running
  thread \<open>p\<close> executes (\<open>b\<close> is its own \<open>is_in_rsched_wait\<close> flag); \<open>ipark\<close> and \<open>opark\<close> say what
  it leaves behind when it waits. The lemmas of this theory are contracts
  \<open>outcome_sat F Q R segment\<close> for the functions that can wait.
\<close>

section \<open>Where a thread is\<close>

datatype ctl =
    NoThread
  | Fresh usize
  | InUser
  | Parked waitq "ifr list \<times> ofr"
  | Woken waitq "ifr list \<times> ofr"
  | Joining PthreadT
  | Gone

section \<open>Assertions\<close>

text \<open>Every thread named by a waiter list or a \<open>joiner\<close> field has a descriptor.\<close>

definition refs_ok :: "State \<Rightarrow> bool" where
  "refs_ok s \<longleftrightarrow>
     (\<forall>k m. mutexes s k = Some m \<longrightarrow> set (m_waiters m) \<subseteq> dom (info s))
   \<and> (\<forall>k c. conds s k = Some c \<longrightarrow> set (c_waiters c) \<subseteq> dom (info s))
   \<and> (\<forall>k b. barriers s k = Some b \<longrightarrow> set (b_waiters b) \<subseteq> dom (info s))
   \<and> (\<forall>q t j. info s q = Some t \<longrightarrow> joiner t = Some j \<longrightarrow> j \<in> dom (info s))"

text \<open>
  The frames below the one that waits, in the order they resume. \<open>chain_ok p b fs x\<close>: they belong
  to \<open>p\<close>, and if \<open>b\<close> says whether the thread is known to be settled (not blocking, or nobody is
  eligible) when the first of them resumes, then \<open>x\<close> may be relied on after the last. A switch
  settles its caller, and the turn of \<open>mutex_lock\<close> that follows a switch needs it.
\<close>

fun chain_ok :: "PthreadT \<Rightarrow> bool \<Rightarrow> ifr list \<Rightarrow> bool \<Rightarrow> bool" where
  "chain_ok p b [] x = (x \<longrightarrow> b)"
| "chain_ok p b (CsDrained q # fs) x = (q = p \<and> chain_ok p True fs x)"
| "chain_ok p b (CsWoken q # fs) x = (q = p \<and> chain_ok p b fs x)"
| "chain_ok p b (MlSwitched key i q # fs) x = (q = p \<and> b \<and> chain_ok p False fs x)"
| "chain_ok p b (_ # fs) x = False"

text \<open>Stacks that wait on the thread's own condition variable: the innermost frame is the wait.\<close>

fun wait_frames :: "PthreadT \<Rightarrow> ifr list \<Rightarrow> bool \<Rightarrow> bool" where
  "wait_frames p (InWake q # fs) x = (q = p \<and> chain_ok p True fs x)"
| "wait_frames p (MlWaited key i q # fs) x = (q = p \<and> chain_ok p False fs x)"
| "wait_frames p _ x = False"

fun api_wait_frame :: "ofr \<Rightarrow> bool" where
  "api_wait_frame (CwWaited lock) = True"
| "api_wait_frame (BarrierWaited released) = True"
| "api_wait_frame TrampolineWaited = True"
| "api_wait_frame _ = False"

text \<open>The exported functions that wait once more if their caller is still blocking after a switch.\<close>

fun needs_settled :: "ofr \<Rightarrow> bool" where
  "needs_settled (CwSwitched2 lock) = True"
| "needs_settled (BarrierSwitched released) = True"
| "needs_settled _ = False"

fun is_create :: "ofr \<Rightarrow> bool" where
  "is_create (CreateDrained sa ra) = True"
| "is_create _ = False"

fun susp_stack :: "PthreadT \<Rightarrow> ifr list \<times> ofr \<Rightarrow> bool" where
  "susp_stack p (fs, o') \<longleftrightarrow> (if fs = [] then api_wait_frame o'
     else wait_frames p fs (needs_settled o') \<and> \<not> is_create o')"

fun drain_stack :: "PthreadT \<Rightarrow> usize \<Rightarrow> PthreadT \<Rightarrow> ifr list \<Rightarrow> bool \<Rightarrow> bool" where
  "drain_stack p sa ch (InDrain sa' ch' # fs) x = (sa' = sa \<and> ch' = ch \<and> chain_ok p False fs x)"
| "drain_stack p sa ch _ x = False"

text \<open>A thread that does not run: it does not exist, has not run its trampoline yet, or is parked.\<close>

fun thread_ok :: "(PthreadT \<Rightarrow> ctl) \<Rightarrow> State \<Rightarrow> PthreadT \<Rightarrow> bool" where
  "thread_ok c s q = (case c q of
     NoThread \<Rightarrow> q \<notin> set (threads s)
   | Gone \<Rightarrow> q \<notin> set (threads s)
   | Fresh sa \<Rightarrow> q \<in> set (threads s) \<and>
       (\<exists>t. info s q = Some t \<and> \<not> is_in_rsched_wait t \<and> \<not> startup_done t)
   | Parked x k \<Rightarrow> x = SuspendCond q \<and> q \<in> set (threads s) \<and> susp_stack q k \<and>
       (\<exists>t. info s q = Some t \<and> is_in_rsched_wait t)
   | _ \<Rightarrow> False)"

declare thread_ok.simps [simp del]

text \<open>The boxes of start arguments: a fresh thread's box is alive and not ready, no two fresh threads
  share one, and the box of the pending child is alive.\<close>

definition pend_ok :: "(PthreadT \<Rightarrow> ctl) \<Rightarrow> (usize \<rightharpoonup> StartArg) \<Rightarrow> usize \<Rightarrow> PthreadT \<Rightarrow> bool" where
  "pend_ok c bx sa ch \<longleftrightarrow>
     (\<exists>a. bx sa = Some a \<and> (if ready a then (\<forall>x. c ch \<noteq> Fresh x) else c ch = Fresh sa))"

definition box_ok :: "(PthreadT \<Rightarrow> ctl) \<Rightarrow> (usize \<rightharpoonup> StartArg) \<Rightarrow> bool" where
  "box_ok c bx \<longleftrightarrow>
     (\<forall>q sa. c q = Fresh sa \<longrightarrow> (\<exists>a. bx sa = Some a \<and> \<not> ready a))
   \<and> (\<forall>q q' sa. c q = Fresh sa \<longrightarrow> c q' = Fresh sa \<longrightarrow> q = q')"

text \<open>The box a thread inside \<open>pthread_create\<close> has allocated and not published yet.\<close>

definition own_box :: "(PthreadT \<Rightarrow> ctl) \<Rightarrow> world \<Rightarrow> usize \<Rightarrow> bool" where
  "own_box c w sa \<longleftrightarrow> (\<exists>a. boxes w sa = Some a \<and> \<not> ready a) \<and> (\<forall>q. c q \<noteq> Fresh sa)
     \<and> (\<forall>ch. pending_child (st w) \<noteq> Some (sa, ch))"

definition frame_box :: "(PthreadT \<Rightarrow> ctl) \<Rightarrow> world \<Rightarrow> ifr list \<times> ofr \<Rightarrow> bool" where
  "frame_box c w k = (case snd k of
     CreateDrained sa ra \<Rightarrow> own_box c w sa \<and> tl (fst k) = []
   | _ \<Rightarrow> True)"

definition base :: "(PthreadT \<Rightarrow> bool) \<Rightarrow> (PthreadT \<Rightarrow> ctl) \<Rightarrow> world \<Rightarrow> bool" where
  "base P c w \<longleftrightarrow> wf_threads (st w) \<and> refs_ok (st w) \<and> box_ok c (boxes w)
     \<and> (\<forall>sa ch. pending_child (st w) = Some (sa, ch) \<longrightarrow> pend_ok c (boxes w) sa ch)
     \<and> (\<forall>q. \<not> P q \<longrightarrow> thread_ok c (st w) q)"

definition running :: "bool \<Rightarrow> PthreadT \<Rightarrow> (PthreadT \<Rightarrow> ctl) \<Rightarrow> world \<Rightarrow> bool" where
  "running b p c w \<longleftrightarrow> base (\<lambda>q. q = p) c w \<and> p \<in> set (threads (st w))
     \<and> (\<forall>sa. c p \<noteq> Fresh sa)
     \<and> (\<exists>t. info (st w) p = Some t \<and> is_in_rsched_wait t = b)"

definition no_eligible :: "State \<Rightarrow> bool" where
  "no_eligible s \<longleftrightarrow> (\<forall>q. \<not> eligible s q)"

text \<open>After the thread has parked on its own condition variable: control was signalled to one other
  eligible thread, or nobody is eligible.\<close>

definition susp_post :: "PthreadT \<Rightarrow> (PthreadT \<Rightarrow> ctl) \<Rightarrow> world \<Rightarrow> bool" where
  "susp_post p c w \<longleftrightarrow> running True p c w \<and>
     ((\<exists>n. effects w = [Signal (SuspendCond n)] \<and> n \<noteq> p \<and> eligible (st w) n)
      \<or> (effects w = [] \<and> no_eligible (st w)))"

text \<open>While the thread waits for its new child to register.\<close>

definition drain_post :: "PthreadT \<Rightarrow> (PthreadT \<Rightarrow> ctl) \<Rightarrow> usize \<Rightarrow> PthreadT \<Rightarrow> world \<Rightarrow> bool" where
  "drain_post p c sa ch w \<longleftrightarrow> running False p c w \<and> effects w = [] \<and> pending_child (st w) = None
     \<and> (\<exists>a. boxes w sa = Some a \<and> \<not> ready a) \<and> c ch = Fresh sa"

definition settled :: "PthreadT \<Rightarrow> State \<Rightarrow> bool" where
  "settled p s \<longleftrightarrow> (\<forall>t. info s p = Some t \<longrightarrow> \<not> is_blocking t) \<or> no_eligible s"

definition ipark :: "PthreadT \<Rightarrow> (PthreadT \<Rightarrow> ctl) \<Rightarrow> bool \<Rightarrow> waitq \<Rightarrow> ifr list \<Rightarrow> world \<Rightarrow> bool" where
  "ipark p c x q fs w \<longleftrightarrow> (case q of
     SuspendCond r \<Rightarrow> r = p \<and> wait_frames p fs x \<and> susp_post p c w
   | ReadyCond sa \<Rightarrow> (\<exists>ch. drain_stack p sa ch fs x \<and> drain_post p c sa ch w))"

definition opark ::
  "PthreadT \<Rightarrow> (PthreadT \<Rightarrow> ctl) \<Rightarrow> waitq \<Rightarrow> ifr list \<times> ofr \<Rightarrow> world \<Rightarrow> bool" where
  "opark p c q k w \<longleftrightarrow> (case q of
     SuspendCond r \<Rightarrow> r = p \<and> susp_stack p k \<and> susp_post p c w
   | ReadyCond sa \<Rightarrow> frame_box c w k \<and>
       (\<exists>ch. drain_stack p sa ch (fst k) (needs_settled (snd k)) \<and> drain_post p c sa ch w))"

abbreviation counter_faults :: "fault set" where
  "counter_faults \<equiv> {AddOverflow, SubOverflow}"

text \<open>The contract of an inner function called by the running thread; \<open>x\<close> says whether its return
  leaves the caller settled.\<close>

definition idle_run :: "PthreadT \<Rightarrow> (PthreadT \<Rightarrow> ctl) \<Rightarrow> bool \<Rightarrow> world \<Rightarrow> bool" where
  "idle_run p c x w \<longleftrightarrow> running False p c w \<and> effects w = [] \<and> (x \<longrightarrow> settled p (st w))"

definition iseg_ok :: "PthreadT \<Rightarrow> (PthreadT \<Rightarrow> ctl) \<Rightarrow> bool \<Rightarrow> unit seg \<Rightarrow> bool" where
  "iseg_ok p c x m \<longleftrightarrow> outcome_sat counter_faults (\<lambda>_. idle_run p c x) (ipark p c x) m"

text \<open>A started thread, or a spawned one, as the end of a segment leaves it.\<close>

definition ret_post :: "PthreadT \<Rightarrow> (PthreadT \<Rightarrow> ctl) \<Rightarrow> world \<Rightarrow> bool" where
  "ret_post p c w \<longleftrightarrow>
     (effects w = [] \<and> running False p c w)
   \<or> (\<exists>ch sa. effects w = [Spawn ch sa] \<and> ch \<noteq> p \<and> (c ch = NoThread \<or> c ch = Gone)
         \<and> pending_child (st w) = Some (sa, ch) \<and> running False p (c(ch := Fresh sa)) w)"

definition gone_post :: "PthreadT \<Rightarrow> (PthreadT \<Rightarrow> ctl) \<Rightarrow> world \<Rightarrow> bool" where
  "gone_post p c w \<longleftrightarrow> base (\<lambda>_. False) (c(p := Gone)) w \<and>
     ((\<exists>n. effects w = [Signal (SuspendCond n)] \<and> n \<noteq> p \<and> eligible (st w) n)
      \<or> (effects w = [] \<and> no_eligible (st w)))"

fun reply_post :: "PthreadT \<Rightarrow> (PthreadT \<Rightarrow> ctl) \<Rightarrow> reply \<Rightarrow> world \<Rightarrow> bool" where
  "reply_post p c ThreadGone w = gone_post p c w"
| "reply_post p c (Ret r) w = ret_post p c w"
| "reply_post p c (RealJoin t) w = ret_post p c w"
| "reply_post p c EnterRoutine w = ret_post p c w"

definition api_ok :: "PthreadT \<Rightarrow> (PthreadT \<Rightarrow> ctl) \<Rightarrow> api \<Rightarrow> bool" where
  "api_ok p c m \<longleftrightarrow> outcome_sat counter_faults (reply_post p c) (opark p c) m"

section \<open>What the assertions depend on\<close>

definition skel :: "State \<Rightarrow> PthreadT list \<times> (usize \<times> PthreadT) option
    \<times> (PthreadT \<Rightarrow> (PthreadT \<times> bool \<times> bool) option)" where
  "skel s = (threads s, pending_child s,
     \<lambda>q. map_option (\<lambda>t. (pthread t, is_in_rsched_wait t, startup_done t)) (info s q))"

lemma skel_cases [consumes 1, case_names absent present]:
  assumes "skel s' = skel s"
  obtains "info s' q = None" "info s q = None"
  | t t' where "info s' q = Some t'" "info s q = Some t" "pthread t' = pthread t"
      "is_in_rsched_wait t' = is_in_rsched_wait t" "startup_done t' = startup_done t"
proof -
  let ?f = "\<lambda>t. (pthread t, is_in_rsched_wait t, startup_done t)"
  have "(\<lambda>q. map_option ?f (info s' q)) = (\<lambda>q. map_option ?f (info s q))"
    using assms by (simp add: skel_def)
  then have "map_option ?f (info s' q) = map_option ?f (info s q)" by (rule fun_cong)
  then show thesis using that by (cases "info s' q"; cases "info s q") simp_all
qed

lemma skel_threads: "skel s' = skel s \<Longrightarrow> threads s' = threads s"
  and skel_pending: "skel s' = skel s \<Longrightarrow> pending_child s' = pending_child s"
  by (simp_all add: skel_def)

lemma skel_dom: "skel s' = skel s \<Longrightarrow> dom (info s') = dom (info s)"
proof (rule set_eqI)
  fix q assume "skel s' = skel s"
  then show "q \<in> dom (info s') \<longleftrightarrow> q \<in> dom (info s)"
    by (cases rule: skel_cases [of s' s q]) (simp_all add: domIff)
qed

lemma thread_ok_skel:
  assumes "skel s' = skel s" and "thread_ok c s q"
  shows "thread_ok c s' q"
proof -
  have "threads s' = threads s" using assms(1) by (rule skel_threads)
  with assms(1) show ?thesis using assms(2)
    by (cases rule: skel_cases [of s' s q]; cases "c q") (simp_all add: thread_ok.simps)
qed

lemma wf_threads_skel:
  assumes "skel s' = skel s" and "wf_threads s"
  shows "wf_threads s'"
proof -
  have "pthread t = p" if t: "info s' p = Some t" for p t
    using assms(1) by (cases rule: skel_cases [of s' s p]) (use t assms(2) in \<open>auto simp: wf_threads_def\<close>)
  then show ?thesis
    using assms skel_threads [OF assms(1)] skel_dom [OF assms(1)] by (simp add: wf_threads_def)
qed

lemma base_skel:
  assumes "base P c w" and "skel s' = skel (st w)" and "refs_ok s'"
  shows "base P c (w\<lparr>st := s'\<rparr>)"
  unfolding base_def
  using assms wf_threads_skel [OF assms(2)] thread_ok_skel [OF assms(2)] skel_pending [OF assms(2)]
  by (simp add: base_def)

lemma running_skel:
  assumes "running b p c w" and "skel s' = skel (st w)" and "refs_ok s'"
  shows "running b p c (w\<lparr>st := s'\<rparr>)"
proof -
  have "\<exists>t. info s' p = Some t \<and> is_in_rsched_wait t = b"
    using assms(2) by (cases rule: skel_cases [of s' "st w" p]) (use assms(1) in \<open>auto simp: running_def\<close>)
  then show ?thesis
    using assms(1) base_skel [OF _ assms(2,3)] skel_threads [OF assms(2)]
    by (simp add: running_def)
qed

lemma running_effects [simp]: "running b p c (w\<lparr>effects := e\<rparr>) = running b p c w"
  by (simp add: running_def base_def)

lemma runningD:
  assumes "running b p c w"
  shows "wf_threads (st w)" and "refs_ok (st w)" and "p \<in> set (threads (st w))"
    and "box_ok c (boxes w)" and "q \<noteq> p \<Longrightarrow> thread_ok c (st w) q"
    and "pending_child (st w) = Some (sa, ch) \<Longrightarrow> pend_ok c (boxes w) sa ch"
    and "c p \<noteq> Fresh sa"
  using assms by (auto simp: running_def base_def)

lemma running_info:
  assumes "running b p c w"
  obtains t where "info (st w) p = Some t" "is_in_rsched_wait t = b"
  using assms by (auto simp: running_def)

lemma running_caller_ineligible: "running False p c w \<Longrightarrow> \<not> eligible (st w) p"
  by (auto simp: running_def eligible_def ineligible_def)

end
