(* ===== verification/Rsched_Contract.thy ===== *)
theory Rsched_Contract
  imports Rsched_Running
begin

text \<open>
  The contracts of the functions that can wait: each keeps the running discipline, whether it
  returns or parks, and none of them faults except by overflow of a lock counter.
\<close>

section \<open>Single writes\<close>

lemma skel_upd:
  "info s q = Some t \<Longrightarrow> pthread t' = pthread t \<Longrightarrow> is_in_rsched_wait t' = is_in_rsched_wait t \<Longrightarrow>
   startup_done t' = startup_done t \<Longrightarrow> skel (s\<lparr>info := (info s)(q \<mapsto> t')\<rparr>) = skel s"
  by (simp add: skel_def fun_eq_iff)

lemma skel_other [simp]:
  "skel (s\<lparr>sched := d\<rparr>) = skel s"
  "skel (s\<lparr>mutexes := m\<rparr>) = skel s"
  "skel (s\<lparr>conds := n\<rparr>) = skel s"
  "skel (s\<lparr>barriers := b\<rparr>) = skel s"
  by (simp_all add: skel_def)

lemma refs_ok_sched [simp]:
  "refs_ok (s\<lparr>sched := d\<rparr>) = refs_ok s"
  "refs_ok (s\<lparr>pending_child := pc\<rparr>) = refs_ok s"
  by (simp_all add: refs_ok_def)

lemma refs_ok_upd:
  assumes "refs_ok s" and "info s q = Some t" and "\<And>j. joiner t' = Some j \<Longrightarrow> j \<in> dom (info s)"
  shows "refs_ok (s\<lparr>info := (info s)(q \<mapsto> t')\<rparr>)"
proof -
  have dom: "dom ((info s)(q \<mapsto> t')) = dom (info s)" using assms(2) by auto
  have joiners: "j \<in> dom (info s)" if "((info s)(q \<mapsto> t')) r = Some u" "joiner u = Some j" for r u j
    using that assms(1,3) unfolding refs_ok_def by (metis fun_upd_apply option.inject)
  show ?thesis
    using assms(1) joiners unfolding refs_ok_def by (simp add: dom del: fun_upd_apply dom_fun_upd)
qed

lemma refs_ok_joiner:
  "refs_ok s \<Longrightarrow> info s q = Some t \<Longrightarrow> joiner t = Some j \<Longrightarrow> j \<in> dom (info s)"
  by (auto simp: refs_ok_def)

lemma refs_ok_upd_same:
  "refs_ok s \<Longrightarrow> info s q = Some t \<Longrightarrow> joiner t' = joiner t \<Longrightarrow>
   refs_ok (s\<lparr>info := (info s)(q \<mapsto> t')\<rparr>)"
  by (rule refs_ok_upd) (simp_all add: refs_ok_joiner)

lemma refs_ok_mutex:
  "refs_ok s \<Longrightarrow> set (m_waiters m) \<subseteq> dom (info s) \<Longrightarrow>
   refs_ok (s\<lparr>mutexes := (mutexes s)(key \<mapsto> m)\<rparr>)"
  by (simp add: refs_ok_def)

lemma refs_ok_waiters:
  assumes "refs_ok s"
  shows "mutexes s k = Some m \<Longrightarrow> set (m_waiters m) \<subseteq> dom (info s)"
    and "conds s k = Some cv \<Longrightarrow> set (c_waiters cv) \<subseteq> dom (info s)"
    and "barriers s k = Some b \<Longrightarrow> set (b_waiters b) \<subseteq> dom (info s)"
  using assms by (simp_all add: refs_ok_def)

text \<open>Writing the flags that the assertions do depend on.\<close>

lemma thread_ok_other:
  "threads s' = threads s \<Longrightarrow> info s' q = info s q \<Longrightarrow> thread_ok c s' q = thread_ok c s q"
  by (cases "c q") (simp_all add: thread_ok.simps)

lemma wf_threads_flags:
  assumes "wf_threads s" and "info s q = Some t" and "pthread t' = pthread t"
  shows "wf_threads (s\<lparr>info := (info s)(q \<mapsto> t')\<rparr>)"
  using assms by (auto simp: wf_threads_def)

lemma running_wait_upd:
  assumes run: "running b p c w" and t: "info (st w) p = Some t"
  shows "running b' p c (w\<lparr>st := (st w)\<lparr>info := (info (st w))(p \<mapsto> t\<lparr>is_in_rsched_wait := b'\<rparr>)\<rparr>\<rparr>)"
proof -
  let ?s = "(st w)\<lparr>info := (info (st w))(p \<mapsto> t\<lparr>is_in_rsched_wait := b'\<rparr>)\<rparr>"
  have "wf_threads ?s" using run t by (intro wf_threads_flags) (auto dest: runningD)
  moreover have "refs_ok ?s" using run t by (intro refs_ok_upd_same) (auto dest: runningD)
  moreover have "thread_ok c ?s q" if "q \<noteq> p" for q
    using runningD(5) [OF run that] that by (subst thread_ok_other [of _ "st w"]) simp_all
  ultimately show ?thesis using run by (simp add: running_def base_def)
qed

lemma running_startup_upd:
  assumes run: "running b p c w" and t: "info (st w) q = Some t" and nf: "\<And>sa. c q \<noteq> Fresh sa"
  shows "running b p c (w\<lparr>st := (st w)\<lparr>info := (info (st w))(q \<mapsto> t\<lparr>startup_done := True\<rparr>)\<rparr>\<rparr>)"
proof -
  let ?s = "(st w)\<lparr>info := (info (st w))(q \<mapsto> t\<lparr>startup_done := True\<rparr>)\<rparr>"
  have "wf_threads ?s" using run t by (intro wf_threads_flags) (auto dest: runningD)
  moreover have "refs_ok ?s" using run t by (intro refs_ok_upd_same) (auto dest: runningD)
  moreover have "thread_ok c ?s r" if "r \<noteq> p" for r
  proof (cases "r = q")
    case True
    then show ?thesis using runningD(5) [OF run that] nf t
      by (cases "c q") (auto simp: thread_ok.simps)
  next
    case False
    then show ?thesis using runningD(5) [OF run that] by (subst thread_ok_other [of _ "st w"]) simp_all
  qed
  moreover have "\<exists>u. info ?s p = Some u \<and> is_in_rsched_wait u = b"
    using run t by (auto simp: running_def)
  ultimately show ?thesis using run by (simp add: running_def base_def)
qed

lemma running_pending_None:
  "running b p c w \<Longrightarrow> running b p c (w\<lparr>st := (st w)\<lparr>pending_child := None\<rparr>\<rparr>)"
  by (simp add: running_def base_def wf_threads_def
      thread_ok_other [of "(st w)\<lparr>pending_child := None\<rparr>" "st w"])

lemma running_upd:
  assumes "running b p c w" and "info (st w) q = Some t" and "pthread t' = pthread t"
    and "is_in_rsched_wait t' = is_in_rsched_wait t" and "startup_done t' = startup_done t"
    and "joiner t' = joiner t"
  shows "running b p c (w\<lparr>st := (st w)\<lparr>info := (info (st w))(q \<mapsto> t')\<rparr>\<rparr>)"
  using assms by (intro running_skel skel_upd refs_ok_upd_same) (auto dest: runningD)

section \<open>Chains of frames\<close>

lemma chain_ok_mono:
  "chain_ok p b fs x \<Longrightarrow> (b \<Longrightarrow> b') \<Longrightarrow> (y \<Longrightarrow> x) \<Longrightarrow> chain_ok p b' fs y"
  by (induction p b fs x arbitrary: b' rule: chain_ok.induct) auto

lemma chain_ok_append:
  "chain_ok p b fs y \<Longrightarrow> chain_ok p y gs x \<Longrightarrow> chain_ok p b (fs @ gs) x"
  by (induction p b fs y rule: chain_ok.induct) (auto elim: chain_ok_mono)

fun_cases wait_framesE: "wait_frames p fs x"
fun_cases drain_stackE: "drain_stack p sa ch fs x"

lemma wait_frames_append:
  "wait_frames p fs y \<Longrightarrow> chain_ok p y gs x \<Longrightarrow> wait_frames p (fs @ gs) x"
  by (induction p fs y rule: wait_frames.induct) (auto intro: chain_ok_append)

lemma drain_stack_append:
  "drain_stack p sa ch fs y \<Longrightarrow> chain_ok p y gs x \<Longrightarrow> drain_stack p sa ch (fs @ gs) x"
  by (induction p sa ch fs y rule: drain_stack.induct) (auto intro: chain_ok_append)

lemma ipark_append:
  "ipark p c y q fs w \<Longrightarrow> chain_ok p y gs x \<Longrightarrow> ipark p c x q (fs @ gs) w"
  by (auto simp: ipark_def split: waitq.splits intro: wait_frames_append drain_stack_append)

lemma iseg_ok_icall:
  assumes "iseg_ok p c y m" and "chain_ok p y [f] x"
    and "\<And>w. idle_run p c y w \<Longrightarrow> iseg_ok p c x (k w)"
  shows "iseg_ok p c x (icall m f k)"
  using assms by (cases m) (auto simp: iseg_ok_def intro: ipark_append)


section \<open>Draining and switching\<close>

lemma running_free_box:
  assumes run: "running b p c w" and a: "boxes w sa = Some a" "ready a" and pc: "pending_child (st w) = None"
  shows "running b p c (w\<lparr>boxes := (boxes w)(sa := None)\<rparr>)"
proof -
  have "box_ok c ((boxes w)(sa := None))"
    using runningD(4) [OF run] a unfolding box_ok_def by fastforce
  then show ?thesis using run pc by (simp add: running_def base_def)
qed

lemma own_box_free:
  "boxes w sa = Some a \<Longrightarrow> ready a \<Longrightarrow> own_box c w x \<Longrightarrow>
   own_box c (w\<lparr>boxes := (boxes w)(sa := None)\<rparr>) x"
  by (auto simp: own_box_def)

definition drained :: "PthreadT \<Rightarrow> (PthreadT \<Rightarrow> ctl) \<Rightarrow> world \<Rightarrow> world \<Rightarrow> bool" where
  "drained p c w w' \<longleftrightarrow> idle_run p c False w' \<and> pending_child (st w') = None
     \<and> (\<forall>x. own_box c w x \<longrightarrow> own_box c w' x)"

lemma drain_loop_ok:
  assumes run: "running False p c w" and eff: "effects w = []" and pc: "pending_child (st w) = None"
    and pend: "pend_ok c (boxes w) sa ch"
  shows "outcome_sat {} (\<lambda>_. drained p c w)
     (\<lambda>q fs w'. q = ReadyCond sa \<and> fs = [InDrain sa ch] \<and> w' = w \<and> drain_post p c sa ch w)
     (drain_loop sa ch w)"
proof -
  obtain a where a: "boxes w sa = Some a"
    and fresh: "if ready a then (\<forall>x. c ch \<noteq> Fresh x) else c ch = Fresh sa"
    using pend by (auto simp: pend_ok_def)
  show ?thesis
  proof (cases "ready a")
    case False
    then show ?thesis using a fresh run eff pc by (simp add: drain_loop_def drain_post_def)
  next
    case True
    let ?w = "w\<lparr>boxes := (boxes w)(sa := None)\<rparr>"
    have run': "running False p c ?w" using running_free_box [OF run a True pc] .
    have own: "own_box c w x \<Longrightarrow> own_box c ?w x" for x using own_box_free [OF a True] .
    show ?thesis
    proof (cases "info (st w) ch")
      case None
      then show ?thesis using a True run' eff pc own by (simp add: drain_loop_def drained_def idle_run_def)
    next
      case (Some t)
      then have "running False p c (?w\<lparr>st := (st ?w)\<lparr>info := (info (st ?w))(ch \<mapsto> t\<lparr>startup_done := True\<rparr>)\<rparr>\<rparr>)"
        using True fresh by (intro running_startup_upd [OF run']) simp_all
      then show ?thesis using a True eff pc own Some
        by (simp add: drain_loop_def drained_def idle_run_def own_box_def)
    qed
  qed
qed

lemma drain_pending_child_ok:
  assumes run: "running False p c w" and eff: "effects w = []"
  shows "outcome_sat {} (\<lambda>_. drained p c w)
     (\<lambda>q fs w'. \<exists>sa ch. q = ReadyCond sa \<and> fs = [InDrain sa ch] \<and> drain_post p c sa ch w'
        \<and> (\<forall>x. own_box c w x \<longrightarrow> own_box c w' x))
     (drain_pending_child w)"
proof (cases "pending_child (st w)")
  case None
  then show ?thesis using assms by (simp add: drain_pending_child_def drained_def idle_run_def)
next
  case (Some x)
  obtain sa ch where x: "x = (sa, ch)" by (cases x)
  let ?w = "w\<lparr>st := (st w)\<lparr>pending_child := None\<rparr>\<rparr>"
  have own: "own_box c w y \<Longrightarrow> own_box c ?w y" for y by (simp add: own_box_def)
  have "pend_ok c (boxes w) sa ch" using runningD(6) [OF run] Some x by simp
  then have "outcome_sat {} (\<lambda>_. drained p c ?w)
     (\<lambda>q fs w'. q = ReadyCond sa \<and> fs = [InDrain sa ch] \<and> w' = ?w \<and> drain_post p c sa ch ?w)
     (drain_loop sa ch ?w)"
    using running_pending_None [OF run] eff by (intro drain_loop_ok) simp_all
  then show ?thesis
    using Some x own
    by (cases "drain_loop sa ch ?w") (auto simp: drain_pending_child_def drained_def)
qed

lemma iseg_ok_drain:
  "running False p c w \<Longrightarrow> effects w = [] \<Longrightarrow> iseg_ok p c False (drain_pending_child w)"
  using drain_pending_child_ok [of p c w]
  by (cases "drain_pending_child w") (auto simp: iseg_ok_def drained_def ipark_def)

lemma iseg_ok_choose:
  assumes run: "running False p c w" and eff: "effects w = []"
  shows "iseg_ok p c True (cs_choose p w)"
  using runningD(1) [OF run]
proof (cases rule: State_choose_cases)
  case (chosen i d)
  let ?n = "threads (st w) ! i" and ?w = "w\<lparr>st := (st w)\<lparr>sched := d\<rparr>\<rparr>"
  have ne: "?n \<noteq> p" using chosen(3) running_caller_ineligible [OF run] by auto
  obtain u where u: "info (st w) ?n = Some u" using chosen(3) by (auto simp: eligible_def)
  obtain t where t: "info (st w) p = Some t" using run by (rule running_info)
  have "running False p c (cond_signal (SuspendCond ?n) ?w)"
    using running_skel [OF run, of "(st w)\<lparr>sched := d\<rparr>"] runningD(2) [OF run]
    by (simp add: cond_signal_def)
  then have "running True p c ((cond_signal (SuspendCond ?n) ?w)\<lparr>st := (st ?w)\<lparr>info :=
      (info (st ?w))(p \<mapsto> t\<lparr>is_in_rsched_wait := True\<rparr>)\<rparr>\<rparr>)"
    using running_wait_upd [of False p c "cond_signal (SuspendCond ?n) ?w" t True] t by simp
  moreover have "eligible ((st w)\<lparr>sched := d, info := (info (st w))(p \<mapsto> t\<lparr>is_in_rsched_wait := True\<rparr>)\<rparr>) ?n"
    using chosen(3) ne by (simp add: eligible_def)
  ultimately show ?thesis using chosen(1,2) ne u t eff
    by (simp add: cs_choose_def wake_def iseg_ok_def ipark_def susp_post_def)
next
  case (deadlock d)
  then have "idle_run p c True (w\<lparr>st := (st w)\<lparr>sched := d\<rparr>\<rparr>)"
    using running_skel [OF run, of "(st w)\<lparr>sched := d\<rparr>"] runningD(2) [OF run] eff
    by (simp add: idle_run_def settled_def no_eligible_def eligible_def)
  then show ?thesis using deadlock(1) by (simp add: cs_choose_def iseg_ok_def)
qed

lemma single_no_eligible:
  assumes run: "running False p c w" and len: "length (threads (st w)) \<le> 1"
  shows "no_eligible (st w)"
proof -
  have "q = p" if "q \<in> set (threads (st w))" for q
    using that len runningD(3) [OF run] by (cases "threads (st w)") auto
  then have "q = p" if "eligible (st w) q" for q using that by (simp add: eligible_def)
  then show ?thesis unfolding no_eligible_def using running_caller_ineligible [OF run] by blast
qed

lemma iseg_ok_after_drain:
  assumes run: "running False p c w" and eff: "effects w = []"
  shows "iseg_ok p c True (cs_after_drain p w)"
proof (cases "length (threads (st w)) \<le> 1")
  case True
  then show ?thesis using run eff single_no_eligible [OF run True] runningD(3) [OF run]
    by (simp add: cs_after_drain_def iseg_ok_def idle_run_def settled_def)
next
  case False
  obtain t where t: "info (st w) p = Some t" using run by (rule running_info)
  show ?thesis
  proof (cases "startup_done t")
    case True
    then show ?thesis using iseg_ok_choose [OF run eff] False t runningD(3) [OF run]
      by (simp add: cs_after_drain_def)
  next
    case not_done: False
    have "iseg_ok p c True (cs_choose p (w\<lparr>st := (st w)\<lparr>info := (info (st w))(p \<mapsto> t\<lparr>startup_done := True\<rparr>)\<rparr>\<rparr>))"
      using running_startup_upd [OF run t] runningD(7) [OF run] eff by (intro iseg_ok_choose) simp_all
    then show ?thesis using False not_done t runningD(3) [OF run] by (simp add: cs_after_drain_def)
  qed
qed

lemma iseg_ok_context_switch:
  assumes "running False p c w" and "effects w = []"
  shows "iseg_ok p c True (context_switch p w)"
  unfolding context_switch_def
  by (rule iseg_ok_icall [OF iseg_ok_drain [OF assms]])
     (simp_all add: idle_run_def iseg_ok_after_drain)


section \<open>Locking\<close>

lemma State_t_Some [simp]: "info s p = Some t \<Longrightarrow> State_t p s = Inr t"
  by (simp add: State_t_def)

text \<open>A thread that is still blocking after a switch waits for itself: nobody else is eligible then.\<close>

lemma susp_self:
  assumes "idle_run p c True w" and t: "info (st w) p = Some t" and b: "is_blocking t"
  shows "susp_post p c (w\<lparr>st := (st w)\<lparr>info := (info (st w))(p \<mapsto> t\<lparr>is_in_rsched_wait := True\<rparr>)\<rparr>\<rparr>)"
proof -
  have run: "running False p c w" and eff: "effects w = []" and none: "no_eligible (st w)"
    using assms by (auto simp: idle_run_def settled_def)
  have "no_eligible ((st w)\<lparr>info := (info (st w))(p \<mapsto> t\<lparr>is_in_rsched_wait := True\<rparr>)\<rparr>)"
    using none b by (auto simp: no_eligible_def eligible_def ineligible_def)
  then show ?thesis using running_wait_upd [OF run t, of True] eff by (simp add: susp_post_def)
qed

lemma iseg_ok_ml_self:
  assumes "idle_run p c True w" and "info (st w) p = Some t" and "is_blocking t"
  shows "iseg_ok p c False (ml_switched oc key i p w)"
  using susp_self [OF assms] assms(2,3) by (simp add: ml_switched_def iseg_ok_def ipark_def)

lemma mutex_entry_waiters:
  "refs_ok s \<Longrightarrow> set (m_waiters (mutex_entry key i s)) \<subseteq> dom (info s)"
  by (auto simp: mutex_entry_def dest: refs_ok_waiters(1) split: option.splits)

lemma running_put_mutex:
  assumes run: "running b p c w" and "set (m_waiters m) \<subseteq> dom (info (st w))"
  shows "running b p c (put_mutex key m w)"
  unfolding put_mutex_def using assms
  by (intro running_skel refs_ok_mutex) (auto dest: runningD)

lemma iseg_ok_lock_loop:
  assumes run: "running False p c w" and eff: "effects w = []"
  shows "iseg_ok p c False (mutex_lock_loop oc key i p w)"
proof -
  let ?e = "mutex_entry key i (st w)"
  have sub: "set (m_waiters ?e) \<subseteq> dom (info (st w))"
    using runningD(2) [OF run] by (rule mutex_entry_waiters)
  obtain t where t: "info (st w) p = Some t" using run by (rule running_info)
  show ?thesis
  proof (cases "owner_tid ?e = i")
    case True
    have "running False p c (put_mutex key (?e\<lparr>recursive_count := n\<rparr>) w)" for n
      using sub by (intro running_put_mutex [OF run]) simp
    then show ?thesis using True eff
      by (simp add: mutex_lock_loop_unfold iseg_ok_def idle_run_def chk_add_def Let_def)
  next
    case False
    let ?w = "put_mutex key (?e\<lparr>m_waiters := push_absent p (m_waiters ?e)\<rparr>) w"
    let ?v = "?w\<lparr>st := (st ?w)\<lparr>info := (info (st ?w))(p \<mapsto> t\<lparr>is_blocking := True\<rparr>)\<rparr>\<rparr>"
    have "running False p c ?w" using sub t by (intro running_put_mutex [OF run]) auto
    then have "running False p c ?v" using t by (intro running_upd [where t = t]) simp_all
    then have cs: "iseg_ok p c True (context_switch p ?v)"
      using eff by (intro iseg_ok_context_switch) simp_all
    have flag: "blocking_flags (st ?v) p = Some True" by (simp add: blocking_flags_def)
    have "iseg_ok p c False (icall (context_switch p ?v) (MlSwitched key i p) (ml_switched oc key i p))"
    proof (cases "context_switch p ?v")
      case (Done u w2)
      then have "idle_run p c True w2" using cs by (simp add: iseg_ok_def)
      moreover have "blocking_flags (st w2) p = Some True"
        using flag context_switch_Done_blocking [of p ?v w2] Done by simp
      ultimately show ?thesis using Done by (auto simp: blocking_flags_def intro: iseg_ok_ml_self)
    next
      case (Park q fs w2)
      then show ?thesis using cs by (auto simp: iseg_ok_def intro: ipark_append)
    next
      case (Fault e)
      then show ?thesis using cs by (simp add: iseg_ok_def)
    qed
    then show ?thesis using False t by (simp add: mutex_lock_loop_unfold Let_def)
  qed
qed

lemma iseg_ok_mutex_lock:
  assumes run: "running False p c w" and eff: "effects w = []"
  shows "iseg_ok p c False (mutex_lock oc key p w)"
proof -
  obtain t where "info (st w) p = Some t" using run by (rule running_info)
  then show ?thesis using iseg_ok_lock_loop [OF run eff] by (simp add: mutex_lock_def)
qed

lemma iseg_ok_ml_switched:
  assumes "idle_run p c True w"
  shows "iseg_ok p c False (ml_switched oc key i p w)"
proof -
  have run: "running False p c w" and eff: "effects w = []" using assms by (simp_all add: idle_run_def)
  obtain t where t: "info (st w) p = Some t" using run by (rule running_info)
  show ?thesis
  proof (cases "is_blocking t")
    case True
    then show ?thesis using assms t by (intro iseg_ok_ml_self)
  next
    case False
    then show ?thesis using t iseg_ok_lock_loop [OF run eff] by (simp add: ml_switched_def)
  qed
qed

section \<open>Resuming a stack\<close>

lemma iseg_ok_Done [simp]: "iseg_ok p c x (Done u w) = idle_run p c x w"
  and iseg_ok_Park [simp]: "iseg_ok p c x (Park q fs w) = ipark p c x q fs w"
  and iseg_ok_Fault [simp]: "iseg_ok p c x (Fault e) = (e \<in> counter_faults)"
  by (simp_all add: iseg_ok_def)

lemma iseg_ok_run_frames_Cons:
  assumes "iseg_ok p c y (resume_frame oc f w)" and "chain_ok p y fs x"
    and "\<And>w'. idle_run p c y w' \<Longrightarrow> iseg_ok p c x (run_frames oc fs w')"
  shows "iseg_ok p c x (run_frames oc (f # fs) w)"
  using assms by (cases "resume_frame oc f w") (auto intro: ipark_append)

lemma idle_run_after_wake: "idle_run p c b w \<Longrightarrow> iseg_ok p c b (cs_after_wake p w)"
proof -
  assume idle: "idle_run p c b w"
  let ?s = "(st w)\<lparr>sched := dyn_on_event (sched (st w)) (Option.bind (info (st w) p) next_event)\<rparr>"
  have "running False p c (w\<lparr>st := ?s\<rparr>)"
    using idle by (intro running_skel) (auto simp: idle_run_def dest: runningD)
  moreover have "settled p ?s = settled p (st w)"
    by (simp add: settled_def no_eligible_def eligible_def)
  ultimately show ?thesis using idle by (simp add: cs_after_wake_def idle_run_def)
qed

lemma iseg_ok_chain:
  "chain_ok p b fs x \<Longrightarrow> idle_run p c b w \<Longrightarrow> iseg_ok p c x (run_frames oc fs w)"
proof (induction p b fs x arbitrary: w rule: chain_ok.induct)
  case (1 p b x)
  then show ?case by (auto simp: idle_run_def)
next
  case (2 p b q fs x)
  then show ?case
    by (intro iseg_ok_run_frames_Cons [where y = True]) (auto simp: idle_run_def intro: iseg_ok_after_drain)
next
  case (3 p b q fs x)
  then show ?case
    by (intro iseg_ok_run_frames_Cons [where y = b]) (auto intro: idle_run_after_wake)
next
  case (4 p b key i q fs x)
  then show ?case
    by (intro iseg_ok_run_frames_Cons [where y = False]) (auto intro: iseg_ok_ml_switched)
qed simp_all

text \<open>A thread that was chosen is not blocking, so the wait it returns from leaves it settled.\<close>

lemma resume_wait:
  assumes run: "running True p c w" and t: "info (st w) p = Some t" and "\<not> is_blocking t"
    and eff: "effects w = []"
  shows "idle_run p c True (w\<lparr>st := (st w)\<lparr>info := (info (st w))(p \<mapsto> t\<lparr>is_in_rsched_wait := False\<rparr>)\<rparr>\<rparr>)"
  using running_wait_upd [OF run t, of False] assms by (simp add: idle_run_def settled_def)

lemma iseg_ok_resume_wait:
  assumes "wait_frames p fs x" and run: "running True p c w" and t: "info (st w) p = Some t"
    and b: "\<not> is_blocking t" and eff: "effects w = []"
  shows "iseg_ok p c x (run_frames oc fs w)"
proof -
  let ?w = "w\<lparr>st := (st w)\<lparr>info := (info (st w))(p \<mapsto> t\<lparr>is_in_rsched_wait := False\<rparr>)\<rparr>\<rparr>"
  have idle: "idle_run p c True ?w" using resume_wait [OF run t b eff] .
  then have lock: "iseg_ok p c False (mutex_lock_loop oc key i p ?w)" for key i
    by (intro iseg_ok_lock_loop) (simp_all add: idle_run_def)
  from assms(1) consider
      (woken) gs where "fs = InWake p # gs" "chain_ok p True gs x"
    | (waited) key i gs where "fs = MlWaited key i p # gs" "chain_ok p False gs x"
    by (elim wait_framesE) auto
  then show ?thesis
  proof cases
    case woken
    then show ?thesis using idle t
      by (simp only:, intro iseg_ok_run_frames_Cons [where y = True])
         (auto simp: wake_resume_def intro: iseg_ok_chain)
  next
    case waited
    then show ?thesis using lock t
      by (simp only:, intro iseg_ok_run_frames_Cons [where y = False])
         (auto simp: ml_waited_def intro: iseg_ok_chain)
  qed
qed

end
