(* ===== verification/Rsched_Discipline.thy ===== *)
theory Rsched_Discipline
  imports Rsched_Contract
begin

text \<open>
  Every exported operation keeps the running discipline (\<open>api_ok\<close>), from its entry and from every
  point where it can resume.
\<close>

section \<open>Steps on the state\<close>

text \<open>A step on the state that keeps what the assertions depend on.\<close>

definition keeps :: "State \<Rightarrow> fault + State \<Rightarrow> bool" where
  "keeps s r \<longleftrightarrow> (case r of Inl e \<Rightarrow> e \<in> counter_faults | Inr s' \<Rightarrow> skel s' = skel s \<and> refs_ok s')"

lemma keeps_simps [simp]:
  "keeps s (Inl e) = (e \<in> counter_faults)"
  "keeps s (Inr s') = (skel s' = skel s \<and> refs_ok s')"
  by (simp_all add: keeps_def)

lemma keeps_trans: "skel s' = skel s \<Longrightarrow> keeps s' r \<Longrightarrow> keeps s r"
  by (cases r) auto

lemma keeps_upd:
  assumes "refs_ok s" and "q \<in> dom (info s)" and "\<And>t. pthread (f t) = pthread t"
    and "\<And>t. is_in_rsched_wait (f t) = is_in_rsched_wait t" and "\<And>t. startup_done (f t) = startup_done t"
    and "\<And>t. joiner (f t) = joiner t"
  shows "keeps s (State_t_upd q f s)"
proof -
  obtain t where t: "info s q = Some t" using assms(2) by blast
  then show ?thesis using assms by (simp add: State_t_upd_def skel_upd [OF t] refs_ok_upd_same [OF _ t])
qed

lemma keeps_event:
  assumes "refs_ok s" and "q \<in> dom (info s)"
  shows "keeps s (set_event q ev s)" and "keeps s (clear_event q s)"
  using assms by (simp_all add: set_event_def clear_event_def keeps_upd)

lemma keeps_hand_over:
  assumes refs: "refs_ok s" and ws: "set (m_waiters m) \<subseteq> dom (info s)" and ne: "m_waiters m \<noteq> []"
  shows "keeps s (hand_over key m s)"
proof -
  have "0 < length (m_waiters m)" using ne by simp
  then obtain idx d where ch: "dyn_choose (sched s) (replicate (length (m_waiters m)) False) = Inr (Some idx, d)"
    and i: "idx < length (m_waiters m)" by (rule dyn.pick_waiter)
  let ?q = "m_waiters m ! idx"
  have "?q \<in> dom (info s)" using i ws nth_mem by blast
  then obtain wt where wt: "info s ?q = Some wt" by blast
  let ?m = "m\<lparr>m_waiters := remove_at idx (m_waiters m), owner_tid := tid wt\<rparr>"
  let ?s = "s\<lparr>sched := d, mutexes := (mutexes s)(key \<mapsto> ?m)\<rparr>"
  have "refs_ok ?s"
    using refs_ok_mutex [of "s\<lparr>sched := d\<rparr>" ?m key] refs ws set_remove_at_subset [of idx "m_waiters m"]
    by auto
  then have "keeps ?s (State_t_upd ?q (\<lambda>t. t\<lparr>is_blocking := False\<rparr>) ?s)"
    using wt by (intro keeps_upd) auto
  then have "keeps s (State_t_upd ?q (\<lambda>t. t\<lparr>is_blocking := False\<rparr>) ?s)"
    by (rule keeps_trans [rotated]) simp
  then show ?thesis using ch i wt by (simp add: hand_over_def)
qed

lemma refs_ok_mutex_del [simp]: "refs_ok s \<Longrightarrow> refs_ok (s\<lparr>mutexes := (mutexes s)(key := None)\<rparr>)"
  by (simp add: refs_ok_def)

lemma keeps_mutex_unlock:
  assumes refs: "refs_ok s" and c: "info s caller = Some t"
  shows "keeps s (map_sum id snd (mutex_unlock oc key caller s))"
proof (cases "mutexes s key")
  case None
  then show ?thesis using c refs by (simp add: mutex_unlock_def)
next
  case (Some m)
  then have ws: "set (m_waiters m) \<subseteq> dom (info s)" using refs by (simp add: refs_ok_waiters)
  have put: "refs_ok (s\<lparr>mutexes := (mutexes s)(key \<mapsto> m\<lparr>recursive_count := n\<rparr>)\<rparr>)" for n
    using refs ws by (intro refs_ok_mutex) simp_all
  have ho: "keeps s (hand_over key (m\<lparr>recursive_count := n\<rparr>) (s\<lparr>mutexes := (mutexes s)(key \<mapsto> m\<lparr>recursive_count := n\<rparr>)\<rparr>))"
    if "m_waiters m \<noteq> []" for n
    by (rule keeps_trans [OF _ keeps_hand_over]) (use put ws that in simp_all)
  have del: "refs_ok (s\<lparr>mutexes := (mutexes s)(key := None)\<rparr>)" using refs by simp
  show ?thesis using Some c refs put del ho [of "recursive_count m - 1"]
    by (auto simp: mutex_unlock_def chk_sub_def Let_def split: sum.splits)
qed

lemma keeps_unblock_all:
  "refs_ok s \<Longrightarrow> set ws \<subseteq> dom (info s) \<Longrightarrow> keeps s (unblock_all ws s)"
proof (induction ws arbitrary: s)
  case (Cons w ws)
  have k: "keeps s (State_t_upd w (\<lambda>t. t\<lparr>is_blocking := False\<rparr>) s)"
    using Cons.prems by (intro keeps_upd) auto
  show ?case
  proof (cases "State_t_upd w (\<lambda>t. t\<lparr>is_blocking := False\<rparr>) s")
    case (Inl e)
    then show ?thesis using k by simp
  next
    case (Inr s1)
    then have sk: "skel s1 = skel s" and refs: "refs_ok s1" using k by simp_all
    have "keeps s1 (unblock_all ws s1)"
      using Cons.prems(2) skel_dom [OF sk] by (intro Cons.IH [OF refs]) simp
    then show ?thesis using Inr keeps_trans [OF sk] by simp
  qed
qed simp

lemma refs_ok_cond:
  "refs_ok s \<Longrightarrow> (\<And>c. oc = Some c \<Longrightarrow> set (c_waiters c) \<subseteq> dom (info s)) \<Longrightarrow>
   refs_ok (s\<lparr>conds := (conds s)(key := oc)\<rparr>)"
  by (simp add: refs_ok_def)

lemma refs_ok_barrier:
  "refs_ok s \<Longrightarrow> set (b_waiters b) \<subseteq> dom (info s) \<Longrightarrow>
   refs_ok (s\<lparr>barriers := (barriers s)(key \<mapsto> b)\<rparr>)"
  by (simp add: refs_ok_def)

lemma keeps_signal_waiter:
  assumes refs: "refs_ok s"
  shows "keeps s (signal_waiter cond s)"
proof (cases "conds s cond")
  case (Some cv)
  have ws: "set (c_waiters cv) \<subseteq> dom (info s)" using refs Some by (rule refs_ok_waiters(2))
  show ?thesis
  proof (cases "c_waiters cv = []")
    case False
    then have "0 < length (c_waiters cv)" by simp
    then obtain idx d where ch: "dyn_choose (sched s) (replicate (length (c_waiters cv)) False) = Inr (Some idx, d)"
      and i: "idx < length (c_waiters cv)" by (rule dyn.pick_waiter)
    let ?s = "s\<lparr>sched := d, conds := (conds s)(cond \<mapsto> cv\<lparr>c_waiters := remove_at idx (c_waiters cv)\<rparr>)\<rparr>"
    have "refs_ok ?s"
      using refs_ok_cond [of "s\<lparr>sched := d\<rparr>" "Some (cv\<lparr>c_waiters := remove_at idx (c_waiters cv)\<rparr>)" cond]
        refs ws set_remove_at_subset [of idx "c_waiters cv"] by auto
    then have "keeps ?s (State_t_upd (c_waiters cv ! idx) (\<lambda>t. t\<lparr>is_blocking := False\<rparr>) ?s)"
      using i ws nth_mem by (intro keeps_upd) auto
    then have "keeps s (State_t_upd (c_waiters cv ! idx) (\<lambda>t. t\<lparr>is_blocking := False\<rparr>) ?s)"
      by (rule keeps_trans [rotated]) simp
    then show ?thesis using Some False ch i by (simp add: signal_waiter_def)
  qed (use Some refs in \<open>simp add: signal_waiter_def\<close>)
qed (use refs in \<open>simp add: signal_waiter_def\<close>)

lemma keeps_broadcast:
  assumes refs: "refs_ok s"
  shows "keeps s (broadcast_waiters cond s)"
proof (cases "conds s cond")
  case (Some cv)
  let ?s = "s\<lparr>conds := (conds s)(cond := None)\<rparr>"
  have "keeps ?s (unblock_all (c_waiters cv) ?s)"
    using refs refs_ok_waiters(2) [OF refs Some] by (intro keeps_unblock_all refs_ok_cond) auto
  then have "keeps s (unblock_all (c_waiters cv) ?s)" by (rule keeps_trans [rotated]) simp
  then show ?thesis using Some by (simp add: broadcast_waiters_def)
qed (use refs in \<open>simp add: broadcast_waiters_def\<close>)

lemma keeps_barrier_arrive:
  assumes refs: "refs_ok s" and b: "barriers s barrier = Some b" and c: "caller \<in> dom (info s)"
  shows "keeps s (map_sum id snd (barrier_arrive barrier caller b s))"
proof -
  let ?b = "b\<lparr>b_waiters := push_absent caller (b_waiters b)\<rparr>"
  let ?s = "s\<lparr>barriers := (barriers s)(barrier \<mapsto> ?b)\<rparr>"
  have ws: "set (b_waiters ?b) \<subseteq> dom (info s)" using refs_ok_waiters(3) [OF refs b] c by simp
  have r1: "refs_ok ?s" using refs ws by (intro refs_ok_barrier)
  show ?thesis
  proof (cases "length (b_waiters ?b) < unat (b_count b)")
    case True
    have "keeps ?s (State_t_upd caller (\<lambda>t. t\<lparr>is_blocking := True\<rparr>) ?s)"
      using r1 c by (intro keeps_upd) auto
    then have "keeps s (State_t_upd caller (\<lambda>t. t\<lparr>is_blocking := True\<rparr>) ?s)"
      by (rule keeps_trans [rotated]) simp
    then show ?thesis using True
      by (cases "State_t_upd caller (\<lambda>t. t\<lparr>is_blocking := True\<rparr>) ?s")
         (simp_all add: barrier_arrive_def Let_def)
  next
    case False
    let ?s2 = "?s\<lparr>barriers := (barriers ?s)(barrier \<mapsto> ?b\<lparr>b_waiters := []\<rparr>)\<rparr>"
    have "refs_ok ?s2" using r1 refs_ok_barrier [of ?s "?b\<lparr>b_waiters := []\<rparr>" barrier] by simp
    then have "keeps ?s2 (unblock_all (b_waiters ?b) ?s2)" using ws by (intro keeps_unblock_all) simp_all
    then have "keeps s (unblock_all (b_waiters ?b) ?s2)" by (rule keeps_trans [rotated]) simp
    then show ?thesis using False
      by (cases "unblock_all (b_waiters ?b) ?s2") (simp_all add: barrier_arrive_def Let_def)
  qed
qed


section \<open>Rules for exported functions\<close>

lemma api_ok_simps [simp]:
  "api_ok p c (Done r w) = reply_post p c r w"
  "api_ok p c (Park q k w) = opark p c q k w"
  "api_ok p c (Fault e) = (e \<in> counter_faults)"
  by (simp_all add: api_ok_def)

lemma api_ok_return:
  assumes "idle_run p c x w"
  shows "api_ok p c (Done (Ret r) w)" and "api_ok p c (Done (RealJoin t) w)"
    and "api_ok p c (Done EnterRoutine w)"
  using assms by (simp_all add: ret_post_def idle_run_def)

lemma ipark_nonempty: "ipark p c x q fs w \<Longrightarrow> fs \<noteq> []"
  by (cases fs) (auto simp: ipark_def split: waitq.splits)

lemma ipark_weaken: "ipark p c x q fs w \<Longrightarrow> (y \<Longrightarrow> x) \<Longrightarrow> ipark p c y q fs w"
  using ipark_append [of p c x q fs w "[]" y] by simp

lemma frame_box_trivial: "\<not> is_create f \<Longrightarrow> frame_box c w (fs, f)"
  by (cases f) (auto simp: frame_box_def)

lemma api_ok_ocall:
  assumes "iseg_ok p c x m" and "needs_settled f \<Longrightarrow> x" and "\<not> is_create f"
    and "\<And>w. idle_run p c x w \<Longrightarrow> api_ok p c (k w)"
  shows "api_ok p c (ocall m f k)"
proof (cases m)
  case (Park q fs w)
  then have "ipark p c x q fs w" using assms(1) by simp
  then have "fs \<noteq> []" and "ipark p c (needs_settled f) q fs w"
    using assms(2) by (auto dest: ipark_nonempty intro: ipark_weaken)
  then show ?thesis using Park assms(3) frame_box_trivial
    by (auto simp: opark_def ipark_def split: waitq.splits)
qed (use assms in auto)

lemma idle_run_keeps:
  assumes "idle_run p c x w" and "skel s' = skel (st w)" and "refs_ok s'"
  shows "idle_run p c False (w\<lparr>st := s'\<rparr>)"
  using assms running_skel [of False p c w s'] by (simp add: idle_run_def)

lemma idle_runD:
  assumes "idle_run p c x w"
  shows "running False p c w" and "effects w = []" and "refs_ok (st w)" and "p \<in> dom (info (st w))"
    and "idle_run p c False w"
  using assms by (auto simp: idle_run_def running_def base_def)

lemma api_ok_on_st:
  assumes "idle_run p c x w" and "\<And>s. refs_ok s \<Longrightarrow> p \<in> dom (info s) \<Longrightarrow> keeps s (f s)"
    and "\<And>w. idle_run p c False w \<Longrightarrow> api_ok p c (k w)"
  shows "api_ok p c (on_st f w k)"
proof -
  have keep: "keeps (st w) (f (st w))" using idle_runD(3,4) [OF assms(1)] by (rule assms(2))
  show ?thesis
  proof (cases "f (st w)")
    case (Inr s')
    then show ?thesis using keep assms(3) idle_run_keeps [OF assms(1), of s'] by (simp add: on_st_def)
  qed (use keep in \<open>simp add: on_st_def\<close>)
qed

lemma idle_run_info:
  assumes "idle_run p c x w"
  obtains t where "info (st w) p = Some t"
  using idle_runD(4) [OF assms] by blast

lemma idle_run_upd:
  assumes "idle_run p c x w" and "info (st w) q = Some t" and "pthread t' = pthread t"
    and "is_in_rsched_wait t' = is_in_rsched_wait t" and "startup_done t' = startup_done t"
    and "joiner t' = joiner t"
  shows "idle_run p c False (w\<lparr>st := (st w)\<lparr>info := (info (st w))(q \<mapsto> t')\<rparr>\<rparr>)"
  using assms running_upd [of False p c w q t t'] by (simp add: idle_run_def)

lemma api_ok_switch:
  assumes "idle_run p c x w" and "\<not> is_create f"
    and "\<And>w. idle_run p c True w \<Longrightarrow> api_ok p c (k w)"
  shows "api_ok p c (ocall (context_switch p w) f k)"
  using assms by (intro api_ok_ocall [OF iseg_ok_context_switch]) (auto dest: idle_runD)

section \<open>Yields, memory operations and mutexes\<close>

lemma api_ok_clear:
  assumes "idle_run p c x w"
  shows "api_ok p c (on_st (clear_event p) w (Done (Ret r)))"
  by (rule api_ok_on_st [OF assms keeps_event(2) api_ok_return(1)])

lemma api_ok_yield_switched: "idle_run p c x w \<Longrightarrow> api_ok p c (yield_switched p w)"
  by (simp add: yield_switched_def api_ok_clear)

lemma api_ok_set_event:
  assumes "idle_run p c x w" and "\<And>w. idle_run p c False w \<Longrightarrow> api_ok p c (k w)"
  shows "api_ok p c (on_st (set_event p ev) w k)"
  by (rule api_ok_on_st [OF assms(1) keeps_event(1) assms(2)])

lemma api_ok_sched_yield: "idle_run p c x w \<Longrightarrow> api_ok p c (rsched_sched_yield p ra w)"
  unfolding rsched_sched_yield_def
  by (intro api_ok_set_event api_ok_switch) (auto intro: api_ok_yield_switched)

lemma api_ok_memop: "idle_run p c x w \<Longrightarrow> api_ok p c (schedule_memop r p addr mem sz a w)"
  unfolding schedule_memop_def
  by (auto intro!: api_ok_set_event api_ok_switch intro: api_ok_yield_switched
      simp: ret_post_def idle_run_def)

lemma api_ok_lock_finish: "idle_run p c x w \<Longrightarrow> api_ok p c (lock_finish env p lock w)"
  by (simp add: lock_finish_def api_ok_clear Let_def)

lemma api_ok_lock_switched: "idle_run p c x w \<Longrightarrow> api_ok p c (lock_switched env p lock w)"
  unfolding lock_switched_def
  by (rule api_ok_ocall [OF iseg_ok_mutex_lock])
     (auto intro: api_ok_lock_finish dest: idle_runD)

lemma api_ok_mutex_lock:
  "idle_run p c x w \<Longrightarrow> api_ok p c (rsched_pthread_mutex_lock env p lock ra w)"
  unfolding rsched_pthread_mutex_lock_def
proof (erule api_ok_set_event)
  fix w1 assume idle: "idle_run p c False w1"
  then obtain t where "info (st w1) p = Some t" by (rule idle_run_info)
  then show "api_ok p c (case info (st w1) p of None \<Rightarrow> Fault no_entry | Some t \<Rightarrow>
      if \<not> will_block (st w1) lock (tid t)
      then ocall (context_switch p w1) (LockSwitched lock) (lock_switched env p lock)
      else lock_switched env p lock w1)"
    using idle by (auto intro!: api_ok_switch intro: api_ok_lock_switched)
qed

lemma api_ok_trylock_switched:
  assumes "idle_run p c x w"
  shows "api_ok p c (trylock_switched env p lock w)"
proof -
  obtain t where "info (st w) p = Some t" using assms by (rule idle_run_info)
  then show ?thesis using api_ok_lock_switched [OF assms] api_ok_clear [OF assms]
    by (simp add: trylock_switched_def)
qed

lemma api_ok_mutex_trylock:
  "idle_run p c x w \<Longrightarrow> api_ok p c (rsched_pthread_mutex_trylock env p lock ra w)"
  unfolding rsched_pthread_mutex_trylock_def
  by (intro api_ok_set_event api_ok_switch) (auto intro: api_ok_trylock_switched)

lemma api_ok_unlock_switched: "idle_run p c x w \<Longrightarrow> api_ok p c (unlock_switched p r w)"
  by (simp add: unlock_switched_def api_ok_clear)

text \<open>A pure step with a result beside the state.\<close>

lemma api_ok_attempt:
  assumes "idle_run p c x w" and "keeps (st w) (map_sum id snd r)"
    and "\<And>v s'. r = Inr (v, s') \<Longrightarrow> idle_run p c False (w\<lparr>st := s'\<rparr>) \<Longrightarrow> api_ok p c (k (v, s'))"
  shows "api_ok p c (attempt r k)"
proof (cases r)
  case (Inr y)
  obtain v s' where y: "y = (v, s')" by (cases y)
  then have "idle_run p c False (w\<lparr>st := s'\<rparr>)" using assms(2) Inr by (intro idle_run_keeps [OF assms(1)]) simp_all
  then show ?thesis using assms(3) Inr y by simp
qed (use assms in simp)

lemma api_ok_mutex_unlock:
  "idle_run p c x w \<Longrightarrow> api_ok p c (rsched_pthread_mutex_unlock env p lock ra w)"
  unfolding rsched_pthread_mutex_unlock_def
proof (erule api_ok_set_event)
  fix w1 assume idle: "idle_run p c False w1"
  then obtain t where t: "info (st w1) p = Some t" by (rule idle_run_info)
  show "api_ok p c (attempt (mutex_unlock (overflow_checks env) lock p (st w1)) (\<lambda>(r, s).
         let w2 = w1\<lparr>st := s\<rparr>; real_r = rp_mutex_unlock env lock
         in if r = 0 \<and> real_r \<noteq> 0
            then on_st (clear_event p) w2 (Done (Ret real_r))
            else ocall (context_switch p w2) (UnlockSwitched r) (unlock_switched p r)))"
    by (rule api_ok_attempt [OF idle keeps_mutex_unlock [OF idle_runD(3) [OF idle] t]])
       (auto simp: Let_def intro!: api_ok_clear api_ok_switch intro: api_ok_unlock_switched)
qed


section \<open>Condition variables\<close>

lemma api_ok_cw_finish: "idle_run p c x w \<Longrightarrow> api_ok p c (cw_finish env lock w)"
  by (simp add: cw_finish_def Let_def ret_post_def idle_run_def)

lemma api_ok_cw_relock: "idle_run p c x w \<Longrightarrow> api_ok p c (cw_relock env p lock w)"
  unfolding cw_relock_def
  by (rule api_ok_ocall [OF iseg_ok_mutex_lock])
     (auto intro: api_ok_cw_finish dest: idle_runD)

text \<open>The wait of a caller that is still blocking after its switch, at an exported function.\<close>

lemma api_ok_self_wait:
  assumes "idle_run p c True w" and "info (st w) p = Some t" and "is_blocking t" and "api_wait_frame f"
  shows "api_ok p c (info_upd unknown_thread p (\<lambda>t. t\<lparr>is_in_rsched_wait := True\<rparr>) w
                       (Park (SuspendCond p) ([], f)))"
  using susp_self [OF assms(1-3)] assms by (simp add: opark_def)

lemma api_ok_cw_switched2:
  assumes "idle_run p c True w"
  shows "api_ok p c (cw_switched2 env p lock w)"
proof -
  obtain t where t: "info (st w) p = Some t" using assms by (rule idle_run_info)
  show ?thesis unfolding cw_switched2_def
    using t api_ok_self_wait [OF assms t, of "CwWaited lock"] api_ok_cw_relock [OF assms] by simp
qed

lemma idle_run_cond_push:
  assumes "idle_run p c x w"
  shows "idle_run p c False (cond_push cond p w)"
proof -
  let ?c = "case conds (st w) cond of Some c \<Rightarrow> c | None \<Rightarrow> \<lparr>c_waiters = []\<rparr>"
  have "set (c_waiters ?c) \<subseteq> dom (info (st w))"
    using refs_ok_waiters(2) [OF idle_runD(3) [OF assms]] by (cases "conds (st w) cond") auto
  then have "refs_ok ((st w)\<lparr>conds := (conds (st w))(cond \<mapsto> ?c\<lparr>c_waiters := c_waiters ?c @ [p]\<rparr>)\<rparr>)"
    using idle_runD(3,4) [OF assms] by (intro refs_ok_cond) auto
  then show ?thesis unfolding cond_push_def Let_def by (intro idle_run_keeps [OF assms]) simp_all
qed

lemma api_ok_cw_switched1:
  assumes idle: "idle_run p c x w"
  shows "api_ok p c (cw_switched1 env p cond lock w)"
proof -
  obtain t where t: "info (st w) p = Some t" using idle by (rule idle_run_info)
  have rest: "api_ok p c (info_upd unknown_thread p (\<lambda>t. t\<lparr>is_blocking := True\<rparr>) (cond_push cond p w1)
      (\<lambda>w2. ocall (context_switch p w2) (CwSwitched2 lock) (cw_switched2 env p lock)))"
    if "idle_run p c False w1" for w1
  proof -
    have push: "idle_run p c False (cond_push cond p w1)" using that by (rule idle_run_cond_push)
    obtain u where u: "info (st (cond_push cond p w1)) p = Some u" using push by (rule idle_run_info)
    have "idle_run p c False ((cond_push cond p w1)\<lparr>st := (st (cond_push cond p w1))\<lparr>info :=
        (info (st (cond_push cond p w1)))(p \<mapsto> u\<lparr>is_blocking := True\<rparr>)\<rparr>\<rparr>)"
      by (rule idle_run_upd [OF push u]) simp_all
    then show ?thesis using u
      by (simp, intro api_ok_switch) (auto intro: api_ok_cw_switched2)
  qed
  show ?thesis unfolding cw_switched1_def
    by (rule api_ok_attempt [OF idle keeps_mutex_unlock [OF idle_runD(3) [OF idle] t]])
       (use rest in \<open>auto simp: Let_def ret_post_def idle_run_def\<close>)
qed

lemma api_ok_cond_wait:
  assumes idle: "idle_run p c x w"
  shows "api_ok p c (rsched_pthread_cond_wait env p cond lock w)"
proof -
  obtain t where "info (st w) p = Some t" using idle by (rule idle_run_info)
  then show ?thesis unfolding rsched_pthread_cond_wait_def
    using idle by (auto intro!: api_ok_switch intro: api_ok_cw_switched1)
qed

lemma api_ok_signal_switched: "idle_run p c x w \<Longrightarrow> api_ok p c (signal_switched w)"
  by (simp add: signal_switched_def ret_post_def idle_run_def)

lemma api_ok_cond_signal:
  assumes "idle_run p c x w"
  shows "api_ok p c (rsched_pthread_cond_signal p cond w)"
  unfolding rsched_pthread_cond_signal_def
  by (rule api_ok_on_st [OF assms keeps_signal_waiter])
     (auto intro!: api_ok_switch intro: api_ok_signal_switched)

lemma api_ok_cond_broadcast:
  assumes "idle_run p c x w"
  shows "api_ok p c (rsched_pthread_cond_broadcast p cond w)"
  unfolding rsched_pthread_cond_broadcast_def
  by (rule api_ok_on_st [OF assms keeps_broadcast])
     (auto intro!: api_ok_switch intro: api_ok_signal_switched)

section \<open>Barriers\<close>

lemma api_ok_barrier_init_switched:
  assumes idle: "idle_run p c x w"
  shows "api_ok p c (barrier_init_switched env barrier cnt w)"
proof -
  have "idle_run p c False (w\<lparr>st := (st w)\<lparr>barriers := (barriers (st w))(barrier \<mapsto>
      \<lparr>b_count = cnt, b_waiters = []\<rparr>)\<rparr>\<rparr>)"
    using idle_runD(3) [OF idle] by (intro idle_run_keeps [OF idle] refs_ok_barrier) simp_all
  then show ?thesis using idle by (simp add: barrier_init_switched_def Let_def ret_post_def idle_run_def)
qed

lemma api_ok_barrier_init: "idle_run p c x w \<Longrightarrow> api_ok p c (rsched_pthread_barrier_init env p barrier cnt w)"
  unfolding rsched_pthread_barrier_init_def
  by (rule api_ok_switch) (auto intro: api_ok_barrier_init_switched)

lemma api_ok_barrier_switched:
  assumes "idle_run p c True w"
  shows "api_ok p c (barrier_switched p released w)"
proof -
  obtain t where t: "info (st w) p = Some t" using assms by (rule idle_run_info)
  show ?thesis unfolding barrier_switched_def
    using t api_ok_self_wait [OF assms t, of "BarrierWaited released"] assms
    by (auto simp: ret_post_def idle_run_def)
qed

lemma api_ok_barrier_drained:
  assumes idle: "idle_run p c x w"
  shows "api_ok p c (barrier_drained p barrier w)"
proof (cases "barriers (st w) barrier")
  case None
  then show ?thesis using idle by (simp add: barrier_drained_def ret_post_def idle_run_def)
next
  case (Some b)
  have "api_ok p c (attempt (barrier_arrive barrier p b (st w)) (\<lambda>(released, s).
            ocall (context_switch p (w\<lparr>st := s\<rparr>)) (BarrierSwitched released) (barrier_switched p released)))"
    by (rule api_ok_attempt [OF idle keeps_barrier_arrive [OF idle_runD(3) [OF idle] Some idle_runD(4) [OF idle]]])
       (auto intro!: api_ok_switch intro: api_ok_barrier_switched)
  then show ?thesis using Some by (simp add: barrier_drained_def)
qed

lemma api_ok_barrier_wait: "idle_run p c x w \<Longrightarrow> api_ok p c (rsched_pthread_barrier_wait p barrier w)"
  unfolding rsched_pthread_barrier_wait_def
  by (rule api_ok_ocall [OF iseg_ok_drain])
     (auto intro: api_ok_barrier_drained dest: idle_runD)

section \<open>Threads\<close>

lemma idle_run_joiner:
  assumes idle: "idle_run p c x w" and t: "info (st w) q = Some t"
  shows "idle_run p c False (w\<lparr>st := (st w)\<lparr>info := (info (st w))(q \<mapsto> t\<lparr>joiner := Some p\<rparr>)\<rparr>\<rparr>)"
  using idle_runD(3,4) [OF idle] t
  by (intro idle_run_keeps [OF idle] skel_upd [OF t] refs_ok_upd [OF _ t]) auto

lemma api_ok_join_switched1:
  assumes idle: "idle_run p c x w"
  shows "api_ok p c (join_switched1 p target w)"
proof (cases "target \<in> set (threads (st w))")
  case True
  then obtain t where t: "info (st w) target = Some t"
    using runningD(1) [OF idle_runD(1) [OF idle]] by (auto simp: wf_threads_def)
  let ?w = "w\<lparr>st := (st w)\<lparr>info := (info (st w))(target \<mapsto> t\<lparr>joiner := Some p\<rparr>)\<rparr>\<rparr>"
  have i1: "idle_run p c False ?w" using idle t by (rule idle_run_joiner)
  obtain u where u: "info (st ?w) p = Some u" using i1 by (rule idle_run_info)
  have "idle_run p c False (?w\<lparr>st := (st ?w)\<lparr>info := (info (st ?w))(p \<mapsto> u\<lparr>is_blocking := True\<rparr>)\<rparr>\<rparr>)"
    by (rule idle_run_upd [OF i1 u]) simp_all
  then have "api_ok p c (ocall (context_switch p (?w\<lparr>st := (st ?w)\<lparr>info := (info (st ?w))(p \<mapsto> u\<lparr>is_blocking := True\<rparr>)\<rparr>\<rparr>))
     (JoinSwitched2 target) (join_switched2 target))"
    by (rule api_ok_switch) (auto simp: join_switched2_def ret_post_def idle_run_def)
  moreover have "join_switched1 p target w = info_upd unknown_thread p (\<lambda>t. t\<lparr>is_blocking := True\<rparr>) ?w
      (\<lambda>w2. ocall (context_switch p w2) (JoinSwitched2 target) (join_switched2 target))"
    using True t by (simp add: join_switched1_def)
  ultimately show ?thesis using u by (simp only: info_upd_Some)
qed (use idle in \<open>simp add: join_switched1_def join_switched2_def ret_post_def idle_run_def\<close>)

lemma api_ok_join: "idle_run p c x w \<Longrightarrow> api_ok p c (rsched_pthread_join p target w)"
  unfolding rsched_pthread_join_def
  by (rule api_ok_switch) (auto intro: api_ok_join_switched1)

lemma refs_ok_State_remove:
  assumes "refs_ok s"
  shows "refs_ok (State_remove p s)"
proof (cases "info s p")
  case None
  then show ?thesis using assms by (simp add: refs_ok_def)
next
  case (Some t)
  then have "refs_ok (s\<lparr>info := (info s)(p \<mapsto> t\<lparr>is_blocking := True, is_exited := True\<rparr>)\<rparr>)"
    using assms by (intro refs_ok_upd_same) simp_all
  then show ?thesis using Some by (simp add: refs_ok_def)
qed

lemma base_State_remove:
  assumes "running False p c w"
  shows "base (\<lambda>_. False) (c(p := Gone)) (w\<lparr>st := State_remove p (st w)\<rparr>)"
proof -
  note D = runningD [OF assms]
  have nf: "(c(p := Gone)) q = Fresh sa \<longleftrightarrow> c q = Fresh sa" for q sa using D(7) by simp
  have box: "box_ok (c(p := Gone)) (boxes w)" using D(4) unfolding box_ok_def nf .
  have pend: "pend_ok (c(p := Gone)) (boxes w) sa ch" if "pending_child (st w) = Some (sa, ch)" for sa ch
    using D(6) [OF that] unfolding pend_ok_def nf .
  have "thread_ok (c(p := Gone)) (State_remove p (st w)) q" for q
  proof (cases "q = p")
    case True
    then show ?thesis by (simp add: thread_ok.simps)
  next
    case False
    then show ?thesis using D(5) [OF False]
      by (cases "c q") (simp_all add: thread_ok.simps split: option.splits)
  qed
  then show ?thesis using box pend wf_threads_remove [OF D(1)] refs_ok_State_remove [OF D(2)]
    by (simp add: base_def)
qed

lemma base_sched: "base P c w \<Longrightarrow> base P c (w\<lparr>st := (st w)\<lparr>sched := d\<rparr>\<rparr>)"
  by (rule base_skel) (simp_all add: base_def)

lemma base_effects [simp]: "base P c (w\<lparr>effects := e\<rparr>) = base P c w"
  by (simp add: base_def)

lemma api_ok_exit_choose:
  assumes idle: "idle_run p c x w"
  shows "api_ok p c (exit_choose p w)"
proof -
  let ?s = "State_remove p (st w)"
  have run: "running False p c w" and eff: "effects w = []" using idle_runD [OF idle] by simp_all
  have base: "base (\<lambda>_. False) (c(p := Gone)) (w\<lparr>st := ?s\<rparr>)" using run by (rule base_State_remove)
  have wf: "wf_threads ?s" using wf_threads_remove [OF runningD(1) [OF run]] .
  have base': "base (\<lambda>_. False) (c(p := Gone)) (w\<lparr>st := ?s\<lparr>sched := d\<rparr>\<rparr>)" for d
    using base_sched [OF base, of d] by simp
  show ?thesis
  proof (cases "threads ?s = []")
    case True
    then have "no_eligible ?s" by (simp add: no_eligible_def eligible_def)
    then show ?thesis using True base eff by (simp add: exit_choose_def gone_post_def Let_def)
  next
    case False
    from wf show ?thesis
    proof (cases rule: State_choose_cases)
      case (chosen i d)
      then have "threads ?s ! i \<in> set (threads ?s)" using nth_mem by blast
      then have "threads ?s ! i \<noteq> p" by auto
      moreover have "eligible (?s\<lparr>sched := d\<rparr>) (threads ?s ! i)" using chosen(3) by (simp add: eligible_def)
      moreover obtain u where "info ?s (threads ?s ! i) = Some u" using chosen(3) by (auto simp: eligible_def)
      ultimately show ?thesis using chosen(1,2) False base' eff
        by (simp add: exit_choose_def gone_post_def cond_signal_def del: State_remove_simps)
    next
      case (deadlock d)
      have "no_eligible (?s\<lparr>sched := d\<rparr>)" using deadlock(2) by (simp add: no_eligible_def eligible_def)
      then show ?thesis using deadlock(1) False base' eff
        by (simp add: exit_choose_def gone_post_def del: State_remove_simps)
    qed
  qed
qed

lemma api_ok_thread_exit:
  assumes idle: "idle_run p c x w"
  shows "api_ok p c (do_thread_exit p w)"
proof (cases "Option.bind (info (st w) p) joiner")
  case None
  then show ?thesis using api_ok_exit_choose [OF idle] by (simp add: do_thread_exit_def)
next
  case (Some j)
  then obtain t where "info (st w) p = Some t" "joiner t = Some j" by (cases "info (st w) p") auto
  then obtain u where u: "info (st w) j = Some u" using idle_runD(3) [OF idle] refs_ok_joiner by blast
  have "idle_run p c False (w\<lparr>st := (st w)\<lparr>info := (info (st w))(j \<mapsto> u\<lparr>is_blocking := False\<rparr>)\<rparr>\<rparr>)"
    by (rule idle_run_upd [OF idle u]) simp_all
  then show ?thesis using Some u api_ok_exit_choose by (simp add: do_thread_exit_def)
qed

end
