(* ===== verification/Rsched_Threads.thy ===== *)
theory Rsched_Threads
  imports Rsched_Discipline
begin

text \<open>
  Thread creation and the trampoline under the running discipline, and the resumption of any
  suspended function. Creation is where the discipline meets the allocator and the threads
  library: the address of a new box is not in use, and the id of a new thread is not the id of a
  live one.
\<close>

section \<open>What creation relies on\<close>

definition fresh_box :: "Env \<Rightarrow> world \<Rightarrow> bool" where
  "fresh_box env w \<longleftrightarrow> boxes w (new_box env) = None"

definition fresh_thread :: "Env \<Rightarrow> PthreadT \<Rightarrow> (PthreadT \<Rightarrow> ctl) \<Rightarrow> bool" where
  "fresh_thread env p c \<longleftrightarrow>
     (fst (rp_create env) = 0 \<longrightarrow>
        snd (rp_create env) \<noteq> p \<and> (c (snd (rp_create env)) = NoThread \<or> c (snd (rp_create env)) = Gone))"

section \<open>Creation\<close>

lemma running_new_box:
  assumes run: "running b p c w" and new: "boxes w sa = None"
  shows "running b p c (w\<lparr>boxes := (boxes w)(sa \<mapsto> a)\<rparr>)"
proof -
  note D = runningD [OF run]
  have ne: "sa' \<noteq> sa" if "c q = Fresh sa'" for q sa'
    using D(4) that new unfolding box_ok_def by (metis option.distinct(1))
  have "box_ok c ((boxes w)(sa \<mapsto> a))"
    using D(4) ne unfolding box_ok_def by (metis fun_upd_other)
  moreover have "pend_ok c ((boxes w)(sa \<mapsto> a)) sa' ch" if "pending_child (st w) = Some (sa', ch)" for sa' ch
    using D(6) [OF that] new by (auto simp: pend_ok_def)
  ultimately show ?thesis using run by (simp add: running_def base_def)
qed

lemma own_box_new:
  assumes run: "running b p c w" and new: "boxes w sa = None" and a: "\<not> ready a"
  shows "own_box c (w\<lparr>boxes := (boxes w)(sa \<mapsto> a)\<rparr>) sa"
  using runningD(4) [OF run] runningD(6) [OF run] new a
  by (fastforce simp: own_box_def box_ok_def pend_ok_def)

lemma running_drop_own:
  assumes run: "running b p c w" and own: "own_box c w sa"
  shows "running b p c (w\<lparr>boxes := (boxes w)(sa := None)\<rparr>)"
proof -
  note D = runningD [OF run]
  have "box_ok c ((boxes w)(sa := None))"
    using D(4) own unfolding box_ok_def own_box_def by (metis fun_upd_other)
  moreover have "pend_ok c ((boxes w)(sa := None)) sa' ch" if "pending_child (st w) = Some (sa', ch)" for sa' ch
    using D(6) [OF that] own that by (auto simp: pend_ok_def own_box_def)
  ultimately show ?thesis using run by (simp add: running_def base_def)
qed

lemma refs_ok_State_add:
  assumes "refs_ok s" and "joiner t = None"
  shows "refs_ok (State_add t s)"
  using assms unfolding refs_ok_def State_add_def Let_def by (auto split: if_splits) blast+

lemma running_spawn:
  assumes run: "running False p c w" and own: "own_box c w sa" and ne: "ch \<noteq> p"
    and c: "c ch = NoThread \<or> c ch = Gone"
  shows "running False p (c(ch := Fresh sa))
     (w\<lparr>st := (State_add (Thread_new_with_tid ch 0) (st w))\<lparr>pending_child := Some (sa, ch)\<rparr>\<rparr>)"
proof -
  note D = runningD [OF run]
  let ?s = "State_add (Thread_new_with_tid ch 0) (st w)"
  let ?t = "?s\<lparr>pending_child := Some (sa, ch)\<rparr>"
  have out: "ch \<notin> set (threads (st w))" using D(5) [OF ne] c by (auto simp: thread_ok.simps)
  have wf: "wf_threads ?s" using D(1) out by (intro wf_threads_add) (simp_all add: Thread_new_with_tid_def)
  have refs: "refs_ok ?s" using D(2) by (intro refs_ok_State_add) (simp_all add: Thread_new_with_tid_def)
  have box: "box_ok (c(ch := Fresh sa)) (boxes w)"
    using D(4) own unfolding box_ok_def own_box_def by (auto split: if_splits)
  have pend: "pend_ok (c(ch := Fresh sa)) (boxes w) sa ch"
    using own by (auto simp: pend_ok_def own_box_def)
  have thr: "thread_ok (c(ch := Fresh sa)) ?t q" if "q \<noteq> p" for q
  proof (cases "q = ch")
    case True
    then show ?thesis by (simp add: thread_ok.simps State_add_def Thread_new_with_tid_def Let_def)
  next
    case False
    then show ?thesis using D(5) [OF that]
      by (cases "c q") (simp_all add: thread_ok.simps State_add_def Thread_new_with_tid_def Let_def)
  qed
  have inf: "info ?t p = info (st w) p" using ne by (simp add: State_add_def Thread_new_with_tid_def Let_def)
  have "wf_threads ?t" using wf by (simp add: wf_threads_def)
  then have "base (\<lambda>q. q = p) (c(ch := Fresh sa)) (w\<lparr>st := ?t\<rparr>)"
    using refs box pend thr by (simp add: base_def)
  moreover have "p \<in> set (threads ?t)" using D(3) by (simp add: State_add_def Let_def)
  moreover have "\<exists>t. info ?t p = Some t \<and> \<not> is_in_rsched_wait t"
    unfolding inf using run by (simp add: running_def)
  ultimately show ?thesis using D(7) ne unfolding running_def by simp
qed

lemma State_upd_swap: "(s :: State)\<lparr>pending_child := a, info := b\<rparr> = s\<lparr>info := b, pending_child := a\<rparr>"
  by (cases s) simp

lemma world_upd_swap: "(w :: world)\<lparr>effects := e, st := s\<rparr> = w\<lparr>st := s, effects := e\<rparr>"
  by (cases w) simp

lemma api_ok_create_drained:
  assumes idle: "idle_run p c x w" and own: "own_box c w sa" and fr: "fresh_thread env p c"
  shows "api_ok p c (create_drained env p sa ra w)"
proof -
  obtain r ch where rp: "rp_create env = (r, ch)" by (cases "rp_create env")
  have run: "running False p c w" and eff: "effects w = []" using idle_runD [OF idle] by simp_all
  show ?thesis
  proof (cases "r = 0")
    case False
    then show ?thesis using rp running_drop_own [OF run own] eff
      by (simp add: create_drained_def ret_post_def)
  next
    case True
    then have ne: "ch \<noteq> p" and c: "c ch = NoThread \<or> c ch = Gone" using fr rp by (simp_all add: fresh_thread_def)
    let ?v = "w\<lparr>st := (State_add (Thread_new_with_tid ch 0) (st w))\<lparr>pending_child := Some (sa, ch)\<rparr>\<rparr>"
    have run': "running False p (c(ch := Fresh sa)) ?v" using running_spawn [OF run own ne c] .
    obtain t where t: "info (st ?v) p = Some t" using run' by (rule running_info)
    have "running False p (c(ch := Fresh sa)) (?v\<lparr>st := (st ?v)\<lparr>info := (info (st ?v))(p \<mapsto>
        t\<lparr>next_event := Some (event_at ra ThreadCreate)\<rparr>)\<rparr>\<rparr>)"
      by (rule running_upd [OF run' t]) simp_all
    then have "running False p (c(ch := Fresh sa)) (w\<lparr>st := (State_add (Thread_new_with_tid ch 0) (st w))\<lparr>
        info := (info (st ?v))(p \<mapsto> t\<lparr>next_event := Some (event_at ra ThreadCreate)\<rparr>),
        pending_child := Some (sa, ch)\<rparr>, effects := [Spawn ch sa]\<rparr>)"
      by (simp add: State_upd_swap)
    then have "ret_post p c (w\<lparr>st := (State_add (Thread_new_with_tid ch 0) (st w))\<lparr>
        info := (info (st ?v))(p \<mapsto> t\<lparr>next_event := Some (event_at ra ThreadCreate)\<rparr>),
        pending_child := Some (sa, ch)\<rparr>, effects := [Spawn ch sa]\<rparr>)"
      using ne c unfolding ret_post_def by auto
    then show ?thesis using rp True t eff
      by (simp add: create_drained_def on_st_def set_event_def State_t_upd_def world_upd_swap)
  qed
qed

lemma api_ok_create:
  assumes idle: "idle_run p c x w" and fb: "fresh_box env w" and fr: "fresh_thread env p c"
  shows "api_ok p c (rsched_pthread_create env p start arg ra w)"
proof -
  let ?sa = "new_box env"
  let ?w = "w\<lparr>boxes := (boxes w)(?sa \<mapsto> \<lparr>routine = start, start_arg = arg, ready = False\<rparr>)\<rparr>"
  have new: "boxes w ?sa = None" using fb by (simp add: fresh_box_def)
  have run: "running False p c ?w" and eff: "effects ?w = []"
    using running_new_box [OF idle_runD(1) [OF idle] new] idle_runD(2) [OF idle] by simp_all
  have own: "own_box c ?w ?sa" using own_box_new [OF idle_runD(1) [OF idle] new] by simp
  have "outcome_sat {} (\<lambda>_. drained p c ?w)
     (\<lambda>q fs w'. \<exists>sa ch. q = ReadyCond sa \<and> fs = [InDrain sa ch] \<and> drain_post p c sa ch w'
        \<and> (\<forall>x. own_box c ?w x \<longrightarrow> own_box c w' x)) (drain_pending_child ?w)"
    using run eff by (rule drain_pending_child_ok)
  then show ?thesis unfolding rsched_pthread_create_def Let_def
    using own fr
    by (cases "drain_pending_child ?w")
       (auto simp: drained_def opark_def ipark_def frame_box_def intro: api_ok_create_drained)
qed


section \<open>The trampoline\<close>

text \<open>A new thread registers itself while another thread runs (or nobody does). It always reaches its
  first wait, marks its box ready, signals the thread that may wait for it, and changes nobody's
  eligibility, its own included.\<close>

definition trampolined :: "Env \<Rightarrow> PthreadT \<Rightarrow> usize \<Rightarrow> Thread \<Rightarrow> StartArg \<Rightarrow> world \<Rightarrow> world" where
  "trampolined env q sa t a w =
     w\<lparr>st := (st w)\<lparr>info := (info (st w))(q \<mapsto> t\<lparr>tid := gettid env, is_in_rsched_wait := True\<rparr>)\<rparr>,
       boxes := (boxes w)(sa \<mapsto> a\<lparr>ready := True\<rparr>), effects := effects w @ [Signal (ReadyCond sa)]\<rparr>"

abbreviation at_start :: "PthreadT \<Rightarrow> ctl" where
  "at_start q \<equiv> Parked (SuspendCond q) ([], TrampolineWaited)"

lemma trampoline_eq:
  assumes "info (st w) q = Some t" and "boxes w sa = Some a"
  shows "trampoline env q sa w = Park (SuspendCond q) ([], TrampolineWaited) (trampolined env q sa t a w)"
  using assms by (cases w; cases "st w") (simp add: trampoline_def trampolined_def Let_def cond_signal_def)

lemma fresh_unique: "box_ok c bx \<Longrightarrow> c q = Fresh sa \<Longrightarrow> c r = Fresh sa \<longleftrightarrow> r = q"
  by (auto simp: box_ok_def)

lemma box_ok_trampolined:
  assumes "box_ok c bx" and "c q = Fresh sa"
  shows "box_ok (c(q := at_start q)) (bx(sa \<mapsto> b))"
  using assms fresh_unique [OF assms] unfolding box_ok_def
  by (auto split: if_splits)

lemma pend_ok_trampolined:
  assumes bx: "box_ok c bx" and q: "c q = Fresh sa" and "ready b" and "pend_ok c bx sa' ch"
  shows "pend_ok (c(q := at_start q)) (bx(sa \<mapsto> b)) sa' ch"
proof (cases "sa' = sa")
  case True
  have "\<exists>a. bx sa = Some a \<and> \<not> ready a" using bx q unfolding box_ok_def by blast
  then have "c ch = Fresh sa" using True assms(4) by (auto simp: pend_ok_def)
  then have "ch = q" using fresh_unique [OF bx q] by simp
  then show ?thesis using True assms(3) by (simp add: pend_ok_def)
next
  case False
  have "ch \<noteq> q" if "c ch = Fresh sa'" using that False q by auto
  then show ?thesis using False assms(4) by (auto simp: pend_ok_def split: if_splits)
qed

lemma own_box_trampolined:
  "own_box c w x \<Longrightarrow> c q = Fresh sa \<Longrightarrow> own_box (c(q := at_start q)) (trampolined env q sa t a w) x"
  by (auto simp: own_box_def trampolined_def)

lemma fresh_info:
  assumes "base P c w" and "c q = Fresh sa" and "\<not> P q"
  obtains t a where "info (st w) q = Some t" "boxes w sa = Some a" "\<not> ready a" "\<not> startup_done t"
proof -
  have "\<exists>a. boxes w sa = Some a \<and> \<not> ready a" using assms(1,2) by (simp add: base_def box_ok_def)
  moreover have "thread_ok c (st w) q" using assms(1,3) by (simp add: base_def)
  ultimately show thesis using that assms(2) by (auto simp: thread_ok.simps)
qed

lemma base_trampolined:
  assumes b: "base P c w" and q: "c q = Fresh sa" and nP: "\<not> P q"
    and t: "info (st w) q = Some t"
  shows "base P (c(q := at_start q)) (trampolined env q sa t a w)"
proof -
  let ?s = "(st w)\<lparr>info := (info (st w))(q \<mapsto> t\<lparr>tid := gettid env, is_in_rsched_wait := True\<rparr>)\<rparr>"
  have wf: "wf_threads ?s" using b t by (intro wf_threads_flags) (simp_all add: base_def)
  have refs: "refs_ok ?s" using b t by (intro refs_ok_upd_same) (simp_all add: base_def)
  have bx: "box_ok c (boxes w)" using b by (simp add: base_def)
  have thr: "thread_ok (c(q := at_start q)) ?s r" if "\<not> P r" for r
  proof (cases "r = q")
    case True
    have "thread_ok c (st w) q" using b nP by (simp add: base_def)
    then show ?thesis using True q by (simp add: thread_ok.simps)
  next
    case False
    have "thread_ok c (st w) r" using b that by (simp add: base_def)
    then show ?thesis using False by (cases "c r") (simp_all add: thread_ok.simps)
  qed
  have "pend_ok (c(q := at_start q)) ((boxes w)(sa \<mapsto> a\<lparr>ready := True\<rparr>)) sa' ch"
    if "pending_child (st w) = Some (sa', ch)" for sa' ch
    using b that by (intro pend_ok_trampolined [OF bx q]) (simp_all add: base_def)
  then show ?thesis using wf refs thr box_ok_trampolined [OF bx q]
    by (simp add: base_def trampolined_def)
qed

lemma trampolined_simps [simp]:
  "threads (st (trampolined env q sa t a w)) = threads (st w)"
  "pending_child (st (trampolined env q sa t a w)) = pending_child (st w)"
  "sched (st (trampolined env q sa t a w)) = sched (st w)"
  "effects (trampolined env q sa t a w) = effects w @ [Signal (ReadyCond sa)]"
  "boxes (trampolined env q sa t a w) = (boxes w)(sa \<mapsto> a\<lparr>ready := True\<rparr>)"
  "r \<noteq> q \<Longrightarrow> info (st (trampolined env q sa t a w)) r = info (st w) r"
  by (simp_all add: trampolined_def)

lemma eligible_trampolined:
  assumes "info (st w) q = Some t" and "\<not> startup_done t"
  shows "eligible (st (trampolined env q sa t a w)) n = eligible (st w) n"
  using assms by (auto simp: eligible_def ineligible_def trampolined_def)

lemma running_trampolined:
  assumes run: "running b p c w" and q: "c q = Fresh sa" and t: "info (st w) q = Some t"
  shows "running b p (c(q := at_start q)) (trampolined env q sa t a w)"
proof -
  have ne: "q \<noteq> p" using runningD(7) [OF run] q by auto
  have "base (\<lambda>r. r = p) (c(q := at_start q)) (trampolined env q sa t a w)"
    using run ne q t by (intro base_trampolined) (simp_all add: running_def)
  then show ?thesis using run ne by (simp add: running_def)
qed

section \<open>Resuming\<close>

lemma idle_run_wait_False:
  assumes run: "running b p c w" and eff: "effects w = []" and t: "info (st w) p = Some t"
  shows "idle_run p c False (w\<lparr>st := (st w)\<lparr>info := (info (st w))(p \<mapsto> t\<lparr>is_in_rsched_wait := False\<rparr>)\<rparr>\<rparr>)"
  using running_wait_upd [OF run t, of False] eff by (simp add: idle_run_def)

lemma api_ok_wait_frame:
  assumes f: "api_wait_frame f" and run: "running b p c w" and eff: "effects w = []"
  shows "api_ok p c (resume_api env p f w)"
proof -
  obtain t where t: "info (st w) p = Some t" using run by (rule running_info)
  note idle = idle_run_wait_False [OF run eff t]
  show ?thesis using f
  proof (cases f)
    case (CwWaited lock)
    then show ?thesis using t api_ok_cw_relock [OF idle] by (simp add: cw_waited_def)
  next
    case (BarrierWaited released)
    then show ?thesis using t idle by (simp add: barrier_waited_def ret_post_def idle_run_def)
  next
    case TrampolineWaited
    then show ?thesis using t idle by (simp add: trampoline_waited_def ret_post_def idle_run_def)
  qed simp_all
qed

lemma api_ok_resume_api:
  assumes nc: "\<not> is_create f" and idle: "idle_run p c x w" and settled: "needs_settled f \<Longrightarrow> x"
  shows "api_ok p c (resume_api env p f w)"
proof (cases "api_wait_frame f")
  case True
  then show ?thesis using idle_runD(1,2) [OF idle] by (rule api_ok_wait_frame)
next
  case False
  then show ?thesis using assms
    by (cases f)
       (auto simp del: api_ok_simps intro: api_ok_join_switched1 api_ok_lock_switched
          api_ok_lock_finish api_ok_trylock_switched api_ok_unlock_switched api_ok_cw_switched1
          api_ok_cw_switched2 api_ok_cw_finish api_ok_signal_switched api_ok_barrier_init_switched
          api_ok_barrier_drained api_ok_barrier_switched api_ok_yield_switched api_ok_return
          simp: join_switched2_def)
qed

text \<open>Resuming a thread that was chosen.\<close>

lemma api_ok_resume_susp:
  assumes k: "susp_stack p k" and run: "running True p c w" and eff: "effects w = []"
    and el: "eligible (st w) p"
  shows "api_ok p c (resume env p k w)"
proof -
  obtain fs f where kf: "k = (fs, f)" by (cases k)
  obtain t where t: "info (st w) p = Some t" and nb: "\<not> is_blocking t"
    using el by (auto simp: eligible_def ineligible_def)
  show ?thesis
  proof (cases "fs = []")
    case True
    then have "api_wait_frame f" using k kf by simp
    from api_ok_wait_frame [OF this run eff] show ?thesis using True kf by (simp add: resume_def)
  next
    case False
    then have wf: "wait_frames p fs (needs_settled f)" and nc: "\<not> is_create f" using k kf by simp_all
    have "api_ok p c (ocall (run_frames (overflow_checks env) fs w) f (resume_api env p f))"
      by (rule api_ok_ocall [OF iseg_ok_resume_wait [OF wf run t nb eff] _ nc])
         (auto intro: api_ok_resume_api [OF nc])
    then show ?thesis using kf by (simp add: resume_def)
  qed
qed

text \<open>Resuming a thread that waits for its child, whether or not the child has registered.\<close>

lemma api_ok_resume_drain:
  assumes ds: "drain_stack p sa ch (fst k) (needs_settled (snd k))" and fb: "frame_box c w k"
    and run: "running False p c w" and eff: "effects w = []" and pc: "pending_child (st w) = None"
    and pend: "pend_ok c (boxes w) sa ch" and fr: "is_create (snd k) \<Longrightarrow> fresh_thread env p c"
  shows "api_ok p c (resume env p k w)"
proof -
  obtain rest f where kf: "k = (InDrain sa ch # rest, f)" and chain: "chain_ok p False rest (needs_settled f)"
    using ds by (cases k) (auto elim: drain_stackE)
  note loop = drain_loop_ok [OF run eff pc pend]
  have iloop: "iseg_ok p c False (resume_frame oc (InDrain sa ch) w)" for oc
    using loop by (cases "drain_loop sa ch w") (auto simp: drained_def ipark_def)
  show ?thesis
  proof (cases "is_create f")
    case True
    then obtain sa' ra where f: "f = CreateDrained sa' ra" by (cases f) auto
    have own: "own_box c w sa'" and rest: "rest = []" using fb kf f by (simp_all add: frame_box_def)
    show ?thesis using loop own fr kf f rest
      by (cases "drain_loop sa ch w")
         (auto simp: resume_def drained_def opark_def frame_box_def intro: api_ok_create_drained)
  next
    case False
    have "iseg_ok p c (needs_settled f) (run_frames (overflow_checks env) (InDrain sa ch # rest) w)"
      by (rule iseg_ok_run_frames_Cons [OF iloop chain iseg_ok_chain [OF chain]])
    then have "api_ok p c (ocall (run_frames (overflow_checks env) (InDrain sa ch # rest) w) f (resume_api env p f))"
      by (rule api_ok_ocall [OF _ _ False]) (auto intro: api_ok_resume_api [OF False])
    then show ?thesis using kf by (simp add: resume_def)
  qed
qed

end
