(* ===== verification/Rsched_Commute.thy ===== *)
theory Rsched_Commute
  imports Rsched_Threads
begin

text \<open>
  The start of a new thread commutes with the segments of the others. \<open>begun\<close> is what the
  trampoline does to the shared state, and \<open>starting\<close> says that the child is registered, has not
  run its trampoline and is the pending one. A segment of another thread that runs before the
  trampoline of the child does what it would do after it: it ends in the same way on states
  related by \<open>begun\<close>, or it waits for the child, and resuming it after the trampoline gives the
  outcome it would have had. So the timing of thread starts leaves no trace in the schedule.
\<close>

section \<open>A child that has begun\<close>

definition begun_thread :: "pid_t \<Rightarrow> Thread \<Rightarrow> Thread" where
  "begun_thread i t = t\<lparr>tid := i, is_in_rsched_wait := True\<rparr>"

definition begun_st :: "pid_t \<Rightarrow> PthreadT \<Rightarrow> State \<Rightarrow> State" where
  "begun_st i q s = s\<lparr>info := (info s)(q := map_option (begun_thread i) (info s q))\<rparr>"

definition begun :: "pid_t \<Rightarrow> PthreadT \<Rightarrow> usize \<Rightarrow> world \<Rightarrow> world" where
  "begun i q sa w = w\<lparr>st := begun_st i q (st w),
     boxes := (boxes w)(sa := map_option (\<lambda>a. a\<lparr>ready := True\<rparr>) (boxes w sa))\<rparr>"

definition starting_st :: "PthreadT \<Rightarrow> usize \<Rightarrow> State \<Rightarrow> bool" where
  "starting_st q sa s \<longleftrightarrow> pending_child s = Some (sa, q)
     \<and> (\<exists>t. info s q = Some t \<and> \<not> startup_done t)
     \<and> (\<forall>key mu. mutexes s key = Some mu \<longrightarrow> q \<notin> set (m_waiters mu))"

definition starting :: "PthreadT \<Rightarrow> usize \<Rightarrow> world \<Rightarrow> bool" where
  "starting q sa w \<longleftrightarrow> starting_st q sa (st w) \<and> (\<exists>a. boxes w sa = Some a \<and> \<not> ready a)"

lemma begun_st_simps [simp]:
  "threads (begun_st i q s) = threads s"
  "sched (begun_st i q s) = sched s"
  "mutexes (begun_st i q s) = mutexes s"
  "conds (begun_st i q s) = conds s"
  "barriers (begun_st i q s) = barriers s"
  "recursive_mutexes (begun_st i q s) = recursive_mutexes s"
  "recursive_mutex_attrs (begun_st i q s) = recursive_mutex_attrs s"
  "pending_child (begun_st i q s) = pending_child s"
  "r \<noteq> q \<Longrightarrow> info (begun_st i q s) r = info s r"
  "info (begun_st i q s) q = map_option (begun_thread i) (info s q)"
  by (simp_all add: begun_st_def)

lemma begun_simps [simp]:
  "st (begun i q sa w) = begun_st i q (st w)"
  "effects (begun i q sa w) = effects w"
  "x \<noteq> sa \<Longrightarrow> boxes (begun i q sa w) x = boxes w x"
  "boxes (begun i q sa w) sa = map_option (\<lambda>a. a\<lparr>ready := True\<rparr>) (boxes w sa)"
  by (simp_all add: begun_def)

text \<open>Writes to the rest of the state move out of \<open>begun\<close>.\<close>

named_theorems begun_out \<open>writes that move out of a begun state\<close>

lemma begun_st_out [begun_out]:
  "(begun_st i q s)\<lparr>threads := x1\<rparr> = begun_st i q (s\<lparr>threads := x1\<rparr>)"
  "(begun_st i q s)\<lparr>sched := x2\<rparr> = begun_st i q (s\<lparr>sched := x2\<rparr>)"
  "(begun_st i q s)\<lparr>mutexes := x3\<rparr> = begun_st i q (s\<lparr>mutexes := x3\<rparr>)"
  "(begun_st i q s)\<lparr>conds := x4\<rparr> = begun_st i q (s\<lparr>conds := x4\<rparr>)"
  "(begun_st i q s)\<lparr>barriers := x5\<rparr> = begun_st i q (s\<lparr>barriers := x5\<rparr>)"
  "(begun_st i q s)\<lparr>pending_child := x6\<rparr> = begun_st i q (s\<lparr>pending_child := x6\<rparr>)"
  "(begun_st i q s)\<lparr>recursive_mutexes := x7\<rparr> = begun_st i q (s\<lparr>recursive_mutexes := x7\<rparr>)"
  "(begun_st i q s)\<lparr>recursive_mutex_attrs := x8\<rparr> = begun_st i q (s\<lparr>recursive_mutex_attrs := x8\<rparr>)"
  by (simp_all add: begun_st_def)

lemma begun_w_out [begun_out]:
  "(begun i q sa w)\<lparr>st := begun_st i q s\<rparr> = begun i q sa (w\<lparr>st := s\<rparr>)"
  "cond_signal y (begun i q sa w) = begun i q sa (cond_signal y w)"
  "put_mutex key mu (begun i q sa w) = begun i q sa (put_mutex key mu w)"
  "cond_push c r (begun i q sa w) = begun i q sa (cond_push c r w)"
  by (simp_all add: begun_def cond_signal_def put_mutex_def cond_push_def begun_st_def Let_def)

lemma begun_upd_other:
  "r \<noteq> q \<Longrightarrow> (begun_st i q s)\<lparr>info := (info (begun_st i q s))(r \<mapsto> t)\<rparr>
     = begun_st i q (s\<lparr>info := (info s)(r \<mapsto> t)\<rparr>)"
  by (simp add: begun_st_def fun_upd_twist)

lemma begun_upd_self:
  "info s q = Some t \<Longrightarrow> (begun_st i q s)\<lparr>info := (info (begun_st i q s))(q \<mapsto> begun_thread i t')\<rparr>
     = begun_st i q (s\<lparr>info := (info s)(q \<mapsto> t')\<rparr>)"
  by (simp add: begun_st_def)

text \<open>A write to a descriptor that does not concern the start of its thread.\<close>

definition start_neutral :: "(Thread \<Rightarrow> Thread) \<Rightarrow> bool" where
  "start_neutral f \<longleftrightarrow> (\<forall>i t. f (begun_thread i t) = begun_thread i (f t) \<and> startup_done (f t) = startup_done t)"

lemma start_neutral_writes [simp]:
  "start_neutral (\<lambda>t. t\<lparr>is_blocking := b\<rparr>)"
  "start_neutral (\<lambda>t. t\<lparr>joiner := j\<rparr>)"
  "start_neutral (\<lambda>t. t\<lparr>next_event := e\<rparr>)"
  "start_neutral (\<lambda>t. t\<lparr>is_blocking := b, is_exited := x\<rparr>)"
  by (simp_all add: start_neutral_def begun_thread_def)

section \<open>Pure steps\<close>

definition st_commutes :: "PthreadT \<Rightarrow> usize \<Rightarrow> (State \<Rightarrow> fault + State) \<Rightarrow> State \<Rightarrow> bool" where
  "st_commutes q sa f s \<longleftrightarrow> (\<forall>i. f (begun_st i q s) = map_sum id (begun_st i q) (f s))
     \<and> (\<forall>s'. f s = Inr s' \<longrightarrow> starting_st q sa s')"

lemma starting_upd:
  assumes "starting_st q sa s" and "info s r = Some t" and "r = q \<Longrightarrow> startup_done t' = startup_done t"
  shows "starting_st q sa (s\<lparr>info := (info s)(r \<mapsto> t')\<rparr>)"
  using assms by (auto simp: starting_st_def)

lemma starting_other [simp]:
  "starting_st q sa (s\<lparr>sched := d\<rparr>) = starting_st q sa s"
  "starting_st q sa (s\<lparr>threads := ts\<rparr>) = starting_st q sa s"
  "starting_st q sa (s\<lparr>conds := n\<rparr>) = starting_st q sa s"
  "starting_st q sa (s\<lparr>barriers := b\<rparr>) = starting_st q sa s"
  "starting_st q sa (s\<lparr>recursive_mutexes := x7\<rparr>) = starting_st q sa s"
  "starting_st q sa (s\<lparr>recursive_mutex_attrs := x7\<rparr>) = starting_st q sa s"
  by (simp_all add: starting_st_def)

lemma starting_mutex:
  "starting_st q sa s \<Longrightarrow> q \<notin> set (m_waiters mu) \<Longrightarrow> starting_st q sa (s\<lparr>mutexes := (mutexes s)(key \<mapsto> mu)\<rparr>)"
  "starting_st q sa s \<Longrightarrow> starting_st q sa (s\<lparr>mutexes := (mutexes s)(key := None)\<rparr>)"
  by (simp_all add: starting_st_def)

lemma starting_waiters: "starting_st q sa s \<Longrightarrow> mutexes s key = Some mu \<Longrightarrow> q \<notin> set (m_waiters mu)"
  by (auto simp: starting_st_def)

lemma begun_upd_neutral:
  assumes "info s r = Some t" and "start_neutral f"
  obtains u where "info (begun_st i q s) r = Some u"
    "(begun_st i q s)\<lparr>info := (info (begun_st i q s))(r \<mapsto> f u)\<rparr> = begun_st i q (s\<lparr>info := (info s)(r \<mapsto> f t)\<rparr>)"
proof (cases "r = q")
  case True
  then show thesis using assms that [of "begun_thread i t"] begun_upd_self [of s q t i "f t"]
    by (simp add: start_neutral_def)
next
  case False
  then show thesis using assms(1) that [of t] begun_upd_other [of r q i s "f t"] by simp
qed

lemma commutes_upd:
  assumes s: "starting_st q sa s" and f: "start_neutral f"
  shows "st_commutes q sa (State_t_upd r f) s"
proof (cases "info s r")
  case None
  then have "info (begun_st i q s) r = None" for i by (cases "r = q") simp_all
  then show ?thesis using None by (simp add: st_commutes_def State_t_upd_def)
next
  case (Some t)
  have "State_t_upd r f (begun_st i q s) = Inr (begun_st i q (s\<lparr>info := (info s)(r \<mapsto> f t)\<rparr>))" for i
    by (rule begun_upd_neutral [OF Some f, where i = i and q = q]) (simp add: State_t_upd_def)
  moreover have "starting_st q sa (s\<lparr>info := (info s)(r \<mapsto> f t)\<rparr>)"
    by (rule starting_upd [OF s Some]) (use f in \<open>simp add: start_neutral_def\<close>)
  ultimately show ?thesis using Some by (simp add: st_commutes_def State_t_upd_def)
qed

lemma commutes_event:
  assumes "starting_st q sa s"
  shows "st_commutes q sa (set_event r ev) s" and "st_commutes q sa (clear_event r) s"
proof -
  have "set_event r ev = State_t_upd r (\<lambda>t. t\<lparr>next_event := Some ev\<rparr>)"
    and "clear_event r = State_t_upd r (\<lambda>t. t\<lparr>next_event := None\<rparr>)"
    by (simp_all add: fun_eq_iff set_event_def clear_event_def)
  then show "st_commutes q sa (set_event r ev) s" and "st_commutes q sa (clear_event r) s"
    using commutes_upd [OF assms] by simp_all
qed

lemma commutes_unblock_all:
  "starting_st q sa s \<Longrightarrow> st_commutes q sa (unblock_all ws) s"
proof (induction ws arbitrary: s)
  case Nil
  then show ?case by (simp add: st_commutes_def)
next
  case (Cons r ws)
  note upd = commutes_upd [OF Cons.prems, of "\<lambda>t. t\<lparr>is_blocking := False\<rparr>" r]
  show ?case
  proof (cases "State_t_upd r (\<lambda>t. t\<lparr>is_blocking := False\<rparr>) s")
    case (Inl e)
    then show ?thesis using upd by (simp add: st_commutes_def)
  next
    case (Inr s1)
    then have "starting_st q sa s1" using upd by (simp add: st_commutes_def)
    from Cons.IH [OF this] show ?thesis using upd Inr by (simp add: st_commutes_def)
  qed
qed

text \<open>The same for steps that also return a value.\<close>

definition val_commutes :: "PthreadT \<Rightarrow> usize \<Rightarrow> (State \<Rightarrow> fault + ('a \<times> State)) \<Rightarrow> State \<Rightarrow> bool" where
  "val_commutes q sa f s \<longleftrightarrow> (\<forall>i. f (begun_st i q s) = map_sum id (map_prod id (begun_st i q)) (f s))
     \<and> (\<forall>x s'. f s = Inr (x, s') \<longrightarrow> starting_st q sa s')"

lemma commutes_signal_waiter:
  assumes s: "starting_st q sa s"
  shows "st_commutes q sa (signal_waiter cond) s"
proof (cases "conds s cond")
  case None
  then show ?thesis using s by (simp add: st_commutes_def signal_waiter_def)
next
  case (Some c)
  show ?thesis
  proof (cases "c_waiters c = []")
    case True
    then show ?thesis using s Some by (simp add: st_commutes_def signal_waiter_def)
  next
    case False
    have upd: "st_commutes q sa (State_t_upd r (\<lambda>t. t\<lparr>is_blocking := False\<rparr>)) (s\<lparr>sched := d, conds := n\<rparr>)" for r d n
      using s by (intro commutes_upd) simp_all
    show ?thesis using Some False upd
      by (auto simp: st_commutes_def signal_waiter_def begun_out split: sum.splits option.splits)
  qed
qed

lemma commutes_broadcast:
  assumes s: "starting_st q sa s"
  shows "st_commutes q sa (broadcast_waiters cond) s"
  using s commutes_unblock_all [of q sa "s\<lparr>conds := (conds s)(cond := None)\<rparr>"]
  by (cases "conds s cond") (simp_all add: st_commutes_def broadcast_waiters_def begun_out)

text \<open>A mutex is handed to one of its waiters, and the child is none: only here is the tid of another
  thread read.\<close>

lemma commutes_hand_over:
  assumes s: "starting_st q sa s" and q: "q \<notin> set (m_waiters mu)"
  shows "st_commutes q sa (hand_over key mu) s"
proof -
  have upd: "st_commutes q sa (State_t_upd r (\<lambda>t. t\<lparr>is_blocking := False\<rparr>))
      (s\<lparr>sched := d, mutexes := (mutexes s)(key \<mapsto> mu\<lparr>m_waiters := remove_at idx (m_waiters mu), owner_tid := j\<rparr>)\<rparr>)"
    for r d idx j
    using s q set_remove_at_subset [of idx "m_waiters mu"]
    by (intro commutes_upd starting_mutex(1) [of q sa "s\<lparr>sched := d\<rparr>", simplified]) auto
  have ne: "m_waiters mu ! idx \<noteq> q" if "idx < length (m_waiters mu)" for idx
    using q that by auto
  show ?thesis using upd ne
    by (auto simp: st_commutes_def hand_over_def begun_out index_def split: sum.splits option.splits)
qed

lemma commutes_mutex_unlock:
  assumes s: "starting_st q sa s" and p: "p \<noteq> q"
  shows "val_commutes q sa (mutex_unlock oc key p) s"
proof (cases "info s p")
  case None
  then show ?thesis using p by (simp add: val_commutes_def mutex_unlock_def)
next
  case (Some t)
  show ?thesis
  proof (cases "mutexes s key")
    case None
    then show ?thesis using p s Some by (simp add: val_commutes_def mutex_unlock_def)
  next
    case mu: (Some mu)
    have q: "q \<notin> set (m_waiters mu)" using s mu by (rule starting_waiters)
    have s1: "starting_st q sa (s\<lparr>mutexes := (mutexes s)(key \<mapsto> mu\<lparr>recursive_count := c\<rparr>)\<rparr>)" for c
      using s q by (intro starting_mutex) simp_all
    note ho = commutes_hand_over [OF s1, of "mu\<lparr>recursive_count := c\<rparr>" key c for c, simplified, OF q]
    show ?thesis using p s s1 Some mu ho starting_mutex(2) [OF s]
      by (auto simp: val_commutes_def st_commutes_def mutex_unlock_def Let_def begun_out
          split: sum.splits)
  qed
qed

lemma commutes_barrier_arrive:
  assumes s: "starting_st q sa s"
  shows "val_commutes q sa (barrier_arrive barrier p b) s"
proof -
  define b1 where "b1 = b\<lparr>b_waiters := push_absent p (b_waiters b)\<rparr>"
  define s1 where "s1 = s\<lparr>barriers := (barriers s)(barrier \<mapsto> b1)\<rparr>"
  define f where "f = (if length (b_waiters b1) < unat (b_count b1)
     then State_t_upd p (\<lambda>t. t\<lparr>is_blocking := True\<rparr>) else Inr)"
  have s1: "starting_st q sa s1" using s by (simp add: s1_def)
  have f: "st_commutes q sa f s1" using commutes_upd [OF s1, of "\<lambda>t. t\<lparr>is_blocking := True\<rparr>" p] s1
    by (simp add: f_def st_commutes_def)
  have un: "st_commutes q sa (unblock_all ws) (s2\<lparr>barriers := x\<rparr>)" if "f s1 = Inr s2" for s2 ws x
    using f that by (intro commutes_unblock_all) (simp add: st_commutes_def)
  have bg: "(begun_st i q s)\<lparr>barriers := (barriers s)(barrier \<mapsto> b1)\<rparr> = begun_st i q s1" for i
    by (simp add: s1_def begun_out)
  have eq: "barrier_arrive barrier p b s' = (case f (s'\<lparr>barriers := (barriers s')(barrier \<mapsto> b1)\<rparr>) of
      Inl e \<Rightarrow> Inl e
    | Inr s2 \<Rightarrow> if unat (b_count b1) \<le> length (b_waiters b1)
        then (case unblock_all (b_waiters b1) (s2\<lparr>barriers := (barriers s2)(barrier \<mapsto> b1\<lparr>b_waiters := []\<rparr>)\<rparr>) of
                Inl e \<Rightarrow> Inl e | Inr s3 \<Rightarrow> Inr (True, s3))
        else Inr (False, s2))" for s'
    unfolding barrier_arrive_def Let_def b1_def [symmetric] f_def by simp
  show ?thesis
  proof (cases "f s1")
    case (Inl e)
    then show ?thesis using f bg by (simp add: val_commutes_def st_commutes_def eq s1_def [symmetric])
  next
    case (Inr s2)
    then show ?thesis using f bg un [OF Inr]
      by (auto simp: val_commutes_def st_commutes_def eq s1_def [symmetric] begun_out split: sum.splits)
  qed
qed

text \<open>The child is not started up, so the scheduler sees the same vector before and after the
  trampoline.\<close>

lemma begun_blocking_vec:
  assumes s: "starting_st q sa s"
  shows "blocking_vec (info (begun_st i q s)) ts = blocking_vec (info s) ts"
proof (induction ts)
  case (Cons r ts)
  obtain t where t: "info s q = Some t" "\<not> startup_done t" using s by (auto simp: starting_st_def)
  then have "map_option ineligible (info (begun_st i q s) r) = map_option ineligible (info s r)"
    by (cases "r = q") (simp_all add: ineligible_def begun_thread_def)
  then show ?case using Cons.IH by (cases "info (begun_st i q s) r"; cases "info s r") (simp_all split: sum.splits)
qed simp

lemma commutes_State_choose:
  assumes s: "starting_st q sa s"
  shows "val_commutes q sa State_choose s"
  using s begun_blocking_vec [OF s]
  by (auto simp: val_commutes_def State_choose_def begun_out split: sum.splits)

lemma commutes_State_remove:
  assumes s: "starting_st q sa s" and p: "p \<noteq> q"
  shows "State_remove p (begun_st i q s) = begun_st i q (State_remove p s)" and "starting_st q sa (State_remove p s)"
proof -
  let ?s = "s\<lparr>threads := filter (\<lambda>x. x \<noteq> p) (threads s)\<rparr>"
  show "State_remove p (begun_st i q s) = begun_st i q (State_remove p s)"
    using p begun_upd_other [of p q i ?s]
    by (cases "info s p") (simp_all add: State_remove_def Let_def begun_out)
  show "starting_st q sa (State_remove p s)"
    using s p starting_upd [of q sa ?s p]
    by (cases "info s p") (simp_all add: State_remove_def Let_def)
qed

section \<open>Inner segments\<close>

lemma run_frames_append:
  "run_frames oc (fs @ gs) w = (case run_frames oc fs w of
     Done x w' \<Rightarrow> run_frames oc gs w' | Park y hs w' \<Rightarrow> Park y (hs @ gs) w' | Fault e \<Rightarrow> Fault e)"
  by (induction oc fs w rule: run_frames.induct) (auto split: outcome.splits)

lemma run_frames_icall:
  "icall (run_frames oc fs w) f (resume_frame oc f) = run_frames oc (fs @ [f]) w"
  by (cases "run_frames oc fs w") (auto simp: run_frames_append split: outcome.splits)

text \<open>\<open>out\<close> is the outcome of a segment before the trampoline of the child, \<open>out'\<close> the one after.\<close>

definition seg_late :: "bool \<Rightarrow> pid_t \<Rightarrow> PthreadT \<Rightarrow> usize \<Rightarrow> unit seg \<Rightarrow> unit seg \<Rightarrow> bool" where
  "seg_late oc i q sa out out' = (case out of
     Done x w \<Rightarrow> starting q sa w \<and> out' = Done x (begun i q sa w)
   | Park (ReadyCond y) fs w \<Rightarrow> y = sa \<and> out' = run_frames oc fs (begun i q sa w)
   | Park (SuspendCond r) fs w \<Rightarrow> starting q sa w \<and> out' = Park (SuspendCond r) fs (begun i q sa w)
   | Fault e \<Rightarrow> out' = Fault e)"

definition api_late :: "Env \<Rightarrow> PthreadT \<Rightarrow> pid_t \<Rightarrow> PthreadT \<Rightarrow> usize \<Rightarrow> api \<Rightarrow> api \<Rightarrow> bool" where
  "api_late env p i q sa out out' = (case out of
     Done x w \<Rightarrow> starting q sa w \<and> out' = Done x (begun i q sa w)
   | Park (ReadyCond y) k w \<Rightarrow> y = sa \<and> out' = resume env p k (begun i q sa w)
   | Park (SuspendCond r) k w \<Rightarrow> starting q sa w \<and> out' = Park (SuspendCond r) k (begun i q sa w)
   | Fault e \<Rightarrow> out' = Fault e)"

lemma seg_late_simps [simp]:
  "seg_late oc i q sa (Done x w) out' \<longleftrightarrow> starting q sa w \<and> out' = Done x (begun i q sa w)"
  "seg_late oc i q sa (Park (ReadyCond y) fs w) out' \<longleftrightarrow> y = sa \<and> out' = run_frames oc fs (begun i q sa w)"
  "seg_late oc i q sa (Park (SuspendCond r) fs w) out' \<longleftrightarrow>
     starting q sa w \<and> out' = Park (SuspendCond r) fs (begun i q sa w)"
  "seg_late oc i q sa (Fault e) out' \<longleftrightarrow> out' = Fault e"
  by (simp_all add: seg_late_def)

lemma api_late_simps [simp]:
  "api_late env p i q sa (Done x' w) out' \<longleftrightarrow> starting q sa w \<and> out' = Done x' (begun i q sa w)"
  "api_late env p i q sa (Park (ReadyCond y) k w) out' \<longleftrightarrow> y = sa \<and> out' = resume env p k (begun i q sa w)"
  "api_late env p i q sa (Park (SuspendCond r) k w) out' \<longleftrightarrow>
     starting q sa w \<and> out' = Park (SuspendCond r) k (begun i q sa w)"
  "api_late env p i q sa (Fault e) out' \<longleftrightarrow> out' = Fault e"
  by (simp_all add: api_late_def)

lemma seg_late_icall:
  assumes "seg_late oc i q sa m m'" and "\<And>x w. m = Done x w \<Longrightarrow> starting q sa w \<Longrightarrow> seg_late oc i q sa (k w) (k (begun i q sa w))"
    and "k = resume_frame oc f"
  shows "seg_late oc i q sa (icall m f k) (icall m' f k)"
proof (cases m)
  case (Park y fs w)
  then show ?thesis using assms by (cases y) (simp_all add: run_frames_icall)
qed (use assms in auto)

lemma api_late_ocall:
  assumes "seg_late (overflow_checks env) i q sa m m'"
    and "\<And>x w. m = Done x w \<Longrightarrow> starting q sa w \<Longrightarrow> api_late env p i q sa (k w) (k (begun i q sa w))"
    and "k = resume_api env p f"
  shows "api_late env p i q sa (ocall m f k) (ocall m' f k)"
proof (cases m)
  case (Park y fs w)
  then show ?thesis using assms by (cases y) (simp_all add: resume_def)
qed (use assms in auto)

lemma starting_effects [simp]:
  "starting q sa (w\<lparr>effects := e\<rparr>) = starting q sa w" "starting q sa (cond_signal y w) = starting q sa w"
  by (simp_all add: starting_def cond_signal_def)

lemma startingD: "starting q sa w \<Longrightarrow> starting_st q sa (st w)"
  by (simp add: starting_def)

lemma starting_st_upd: "starting q sa w \<Longrightarrow> starting_st q sa s \<Longrightarrow> starting q sa (w\<lparr>st := s\<rparr>)"
  by (simp add: starting_def)

text \<open>A write to a descriptor, either one that does not concern its start, or of another thread.\<close>

lemma late_info_upd:
  assumes w: "starting q sa w" and f: "start_neutral f \<or> r \<noteq> q"
    and "\<And>w. starting q sa w \<Longrightarrow> R (k w) (k (begun i q sa w))" and "\<And>e. R (Fault e) (Fault e)"
  shows "R (info_upd e r f w k) (info_upd e r f (begun i q sa w) k)"
proof (cases "info (st w) r")
  case None
  then have "info (st (begun i q sa w)) r = None" by (cases "r = q") simp_all
  then show ?thesis using None assms(4) by simp
next
  case (Some t)
  let ?w = "w\<lparr>st := (st w)\<lparr>info := (info (st w))(r \<mapsto> f t)\<rparr>\<rparr>"
  have "starting q sa ?w" using w f
    by (intro starting_st_upd starting_upd [OF startingD [OF w] Some]) (auto simp: start_neutral_def)
  moreover have "info_upd e r f (begun i q sa w) k = k (begun i q sa ?w)"
  proof (cases "r = q")
    case True
    then have "start_neutral f" using f by simp
    then obtain u where "info (begun_st i q (st w)) r = Some u"
      "(begun_st i q (st w))\<lparr>info := (info (begun_st i q (st w)))(r \<mapsto> f u)\<rparr> = begun_st i q (st ?w)"
      by (rule begun_upd_neutral [OF Some, where i = i and q = q]) simp
    then show ?thesis by (simp add: info_upd_def begun_out)
  next
    case False
    then show ?thesis using Some begun_upd_other [OF False, of i "st w"] by (simp add: info_upd_def begun_out)
  qed
  ultimately show ?thesis using Some assms(3) by simp
qed

lemma late_on_st:
  assumes w: "starting q sa w" and f: "st_commutes q sa f (st w)"
    and "\<And>w. starting q sa w \<Longrightarrow> R (k w) (k (begun i q sa w))" and "\<And>e. R (Fault e) (Fault e)"
  shows "R (on_st f w k) (on_st f (begun i q sa w) k)"
proof (cases "f (st w)")
  case (Inl e)
  then show ?thesis using f assms(4) by (simp add: on_st_def st_commutes_def)
next
  case (Inr s)
  then have "starting_st q sa s" using f by (simp add: st_commutes_def)
  with w have "starting q sa (w\<lparr>st := s\<rparr>)" by (rule starting_st_upd)
  then show ?thesis using f Inr assms(3) by (simp add: on_st_def st_commutes_def begun_out)
qed

lemma late_attempt:
  assumes f: "val_commutes q sa f s" and "\<And>x s'. starting_st q sa s' \<Longrightarrow> R (k (x, s')) (k' (x, begun_st i q s'))"
    and "\<And>e. R (Fault e) (Fault e)"
  shows "R (attempt (f s) k) (attempt (f (begun_st i q s)) k')"
  using assms by (cases "f s") (auto simp: val_commutes_def)

lemma seg_late_switch:
  assumes w: "starting q sa w"
  shows "seg_late oc i q sa (drain_pending_child w) (drain_pending_child (begun i q sa w))"
    and "seg_late oc i q sa (context_switch p w) (context_switch p (begun i q sa w))"
proof -
  obtain a where a: "boxes w sa = Some a" "\<not> ready a" "pending_child (st w) = Some (sa, q)"
    using w by (auto simp: starting_def starting_st_def)
  let ?w = "w\<lparr>st := (st w)\<lparr>pending_child := None\<rparr>\<rparr>"
  have "drain_pending_child w = Park (ReadyCond sa) [InDrain sa q] ?w"
    using a by (simp add: drain_pending_child_def drain_loop_def)
  moreover have "drain_pending_child (begun i q sa w) = drain_loop sa q (begun i q sa ?w)"
    using a by (simp add: drain_pending_child_def begun_out)
  moreover have "run_frames oc [InDrain sa q] w' = drain_loop sa q w'" for w'
    by (cases "drain_loop sa q w'") simp_all
  ultimately show d: "seg_late oc i q sa (drain_pending_child w) (drain_pending_child (begun i q sa w))"
    by simp
  have "cs_after_drain p = resume_frame oc (CsDrained p)" by (simp add: fun_eq_iff)
  then show "seg_late oc i q sa (context_switch p w) (context_switch p (begun i q sa w))"
    using \<open>drain_pending_child w = _\<close> d run_frames_icall [of oc "[InDrain sa q]"]
    by (simp add: context_switch_def)
qed

lemma seg_late_wake:
  assumes w: "starting q sa w" and p: "p \<noteq> q"
  shows "seg_late oc i q sa (wake n b p w) (wake n b p (begun i q sa w))"
proof -
  have dom: "info (begun_st i q (st w)) n = None \<longleftrightarrow> info (st w) n = None" by (cases "n = q") simp_all
  have "seg_late oc i q sa
     (info_upd UnwrapNone p (\<lambda>t. t\<lparr>is_in_rsched_wait := True\<rparr>) (cond_signal (SuspendCond n) w)
        (Park (SuspendCond p) [InWake p]))
     (info_upd UnwrapNone p (\<lambda>t. t\<lparr>is_in_rsched_wait := True\<rparr>) (begun i q sa (cond_signal (SuspendCond n) w))
        (Park (SuspendCond p) [InWake p]))"
    by (rule late_info_upd) (use w p in simp_all)
  then show ?thesis using w dom
    by (cases "info (st w) n"; cases "info (begun_st i q (st w)) n") (simp_all add: wake_def Let_def begun_out)
qed

lemma seg_late_after_wake:
  assumes w: "starting q sa w" and p: "p \<noteq> q"
  shows "seg_late oc i q sa (cs_after_wake p w) (cs_after_wake p (begun i q sa w))"
  using assms by (simp add: cs_after_wake_def Let_def begun_out starting_st_upd startingD)

lemma seg_late_choose:
  assumes w: "starting q sa w" and p: "p \<noteq> q"
  shows "seg_late oc i q sa (cs_choose p w) (cs_choose p (begun i q sa w))"
  unfolding cs_choose_def begun_simps
proof (rule late_attempt [OF commutes_State_choose [OF startingD [OF w]]])
  fix x s assume s: "starting_st q sa s"
  have ws: "starting q sa (w\<lparr>st := s\<rparr>)" using w s by (rule starting_st_upd)
  have "seg_late oc i q sa (icall (wake n True p (w\<lparr>st := s\<rparr>)) (CsWoken p) (cs_after_wake p))
      (icall (wake n True p (begun i q sa (w\<lparr>st := s\<rparr>))) (CsWoken p) (cs_after_wake p))" for n
    by (rule seg_late_icall [OF seg_late_wake [OF ws p]]) (simp_all add: seg_late_after_wake p fun_eq_iff)
  then show "seg_late oc i q sa
      (case (x, s) of (None, s) \<Rightarrow> Done () (w\<lparr>st := s\<rparr>) | (Some idx, s) \<Rightarrow>
         attempt (index (threads s) idx) (\<lambda>nxt. icall (wake nxt True p (w\<lparr>st := s\<rparr>)) (CsWoken p) (cs_after_wake p)))
      (case (x, begun_st i q s) of (None, s) \<Rightarrow> Done () ((begun i q sa w)\<lparr>st := s\<rparr>) | (Some idx, s) \<Rightarrow>
         attempt (index (threads s) idx) (\<lambda>nxt. icall (wake nxt True p ((begun i q sa w)\<lparr>st := s\<rparr>)) (CsWoken p) (cs_after_wake p)))"
    using ws by (auto simp: begun_out index_def split: option.splits)
qed simp

lemma seg_late_after_drain:
  assumes w: "starting q sa w" and p: "p \<noteq> q"
  shows "seg_late oc i q sa (cs_after_drain p w) (cs_after_drain p (begun i q sa w))"
proof -
  have "seg_late oc i q sa (info_upd unknown_thread p (\<lambda>t. t\<lparr>startup_done := True\<rparr>) w (cs_choose p))
     (info_upd unknown_thread p (\<lambda>t. t\<lparr>startup_done := True\<rparr>) (begun i q sa w) (cs_choose p))"
    by (rule late_info_upd) (use w p seg_late_choose in simp_all)
  then show ?thesis using w p seg_late_choose [OF w p]
    by (simp add: cs_after_drain_def del: info_upd_Some split: option.split)
qed

section \<open>Locking\<close>

lemma starting_put_mutex: "starting q sa w \<Longrightarrow> q \<notin> set (m_waiters mu) \<Longrightarrow> starting q sa (put_mutex key mu w)"
  unfolding put_mutex_def by (intro starting_st_upd starting_mutex startingD)

lemma switch_no_return: "starting q sa w \<Longrightarrow> context_switch p w \<noteq> Done x w'"
  by (auto simp: context_switch_def drain_pending_child_def drain_loop_def starting_def starting_st_def)

lemma seg_late_lock_loop:
  assumes w: "starting q sa w" and p: "p \<noteq> q"
  shows "seg_late oc i q sa (mutex_lock_loop oc key j p w) (mutex_lock_loop oc key j p (begun i q sa w))"
proof -
  let ?e = "mutex_entry key j (st w)"
  have e: "mutex_entry key j (begun_st i q (st w)) = ?e" by (simp add: mutex_entry_def)
  have q: "q \<notin> set (m_waiters ?e)"
    using starting_waiters [OF startingD [OF w], of key] by (cases "mutexes (st w) key") (simp_all add: mutex_entry_def)
  have take: "seg_late oc i q sa
     (attempt (chk_add oc (recursive_count ?e) 1) (\<lambda>c. Done () (put_mutex key (?e\<lparr>recursive_count := c\<rparr>) w)))
     (attempt (chk_add oc (recursive_count ?e) 1) (\<lambda>c. Done () (put_mutex key (?e\<lparr>recursive_count := c\<rparr>) (begun i q sa w))))"
    using starting_put_mutex [OF w] q by (cases "chk_add oc (recursive_count ?e) 1") (simp_all add: begun_out)
  let ?mu = "?e\<lparr>m_waiters := push_absent p (m_waiters ?e)\<rparr>"
  have "seg_late oc i q sa
     (info_upd unknown_thread p (\<lambda>t. t\<lparr>is_blocking := True\<rparr>) (put_mutex key ?mu w)
        (\<lambda>w1. icall (context_switch p w1) (MlSwitched key j p) (ml_switched oc key j p)))
     (info_upd unknown_thread p (\<lambda>t. t\<lparr>is_blocking := True\<rparr>) (begun i q sa (put_mutex key ?mu w))
        (\<lambda>w1. icall (context_switch p w1) (MlSwitched key j p) (ml_switched oc key j p)))"
    by (rule late_info_upd [OF starting_put_mutex [OF w]])
       (use p q in \<open>auto simp: switch_no_return fun_eq_iff intro!: seg_late_icall seg_late_switch\<close>)
  with take show ?thesis by (simp add: mutex_lock_loop_unfold Let_def e begun_out)
qed

lemma State_t_begun: "p \<noteq> q \<Longrightarrow> State_t p (begun_st i q s) = State_t p s"
  by (simp add: State_t_def)

text \<open>The wait of a thread that is still blocking, in the loop and in the exported operations.\<close>

lemma late_self_wait:
  assumes w: "starting q sa w" and p: "p \<noteq> q" and "\<And>e. R (Fault e) (Fault e)"
    and "\<And>w. starting q sa w \<Longrightarrow> R (Park (SuspendCond p) k w) (Park (SuspendCond p) k (begun i q sa w))"
    and "R (g w) (g (begun i q sa w))"
  shows "R (attempt (State_t p (st w)) (\<lambda>t. if is_blocking t
        then info_upd unknown_thread p (\<lambda>t. t\<lparr>is_in_rsched_wait := True\<rparr>) w (Park (SuspendCond p) k) else g w))
    (attempt (State_t p (st (begun i q sa w))) (\<lambda>t. if is_blocking t
        then info_upd unknown_thread p (\<lambda>t. t\<lparr>is_in_rsched_wait := True\<rparr>) (begun i q sa w) (Park (SuspendCond p) k)
        else g (begun i q sa w)))"
proof -
  have "R (info_upd unknown_thread p (\<lambda>t. t\<lparr>is_in_rsched_wait := True\<rparr>) w (Park (SuspendCond p) k))
     (info_upd unknown_thread p (\<lambda>t. t\<lparr>is_in_rsched_wait := True\<rparr>) (begun i q sa w) (Park (SuspendCond p) k))"
    by (rule late_info_upd [OF w]) (use p assms(3,4) in auto)
  then show ?thesis using p assms(3,5) unfolding begun_simps State_t_begun [OF p]
    by (cases "State_t p (st w)") (simp_all del: info_upd_Some)
qed

lemma seg_late_ml:
  assumes w: "starting q sa w" and p: "p \<noteq> q"
  shows "seg_late oc i q sa (ml_switched oc key j p w) (ml_switched oc key j p (begun i q sa w))"
    and "seg_late oc i q sa (ml_waited oc key j p w) (ml_waited oc key j p (begun i q sa w))"
    and "seg_late oc i q sa (mutex_lock oc key p w) (mutex_lock oc key p (begun i q sa w))"
proof -
  show "seg_late oc i q sa (ml_switched oc key j p w) (ml_switched oc key j p (begun i q sa w))"
    unfolding ml_switched_def by (rule late_self_wait [OF w p]) (simp_all add: seg_late_lock_loop w p)
  show "seg_late oc i q sa (ml_waited oc key j p w) (ml_waited oc key j p (begun i q sa w))"
    unfolding ml_waited_def by (rule late_info_upd [OF w]) (use p in \<open>simp_all add: seg_late_lock_loop\<close>)
  show "seg_late oc i q sa (mutex_lock oc key p w) (mutex_lock oc key p (begun i q sa w))"
    using seg_late_lock_loop [OF w p, of oc i key] p by (cases "info (st w) p") (simp_all add: mutex_lock_def)
qed

section \<open>Stacks of frames\<close>

fun frame_of :: "PthreadT \<Rightarrow> ifr \<Rightarrow> bool" where
  "frame_of p (InDrain sa ch) = False"
| "frame_of p (InWake r) = (r = p)"
| "frame_of p (CsDrained r) = (r = p)"
| "frame_of p (CsWoken r) = (r = p)"
| "frame_of p (MlSwitched key i r) = (r = p)"
| "frame_of p (MlWaited key i r) = (r = p)"

lemma chain_frames: "chain_ok p b fs x \<Longrightarrow> list_all (frame_of p) fs"
  by (induction p b fs x rule: chain_ok.induct) auto

lemma wait_frames_of: "wait_frames p fs x \<Longrightarrow> list_all (frame_of p) fs"
  by (induction p fs x rule: wait_frames.induct) (auto dest: chain_frames)

lemma seg_late_frame:
  assumes w: "starting q sa w" and p: "p \<noteq> q" and f: "frame_of p f"
  shows "seg_late oc i q sa (resume_frame oc f w) (resume_frame oc f (begun i q sa w))"
proof (cases f)
  case (InWake r)
  have "seg_late oc i q sa (wake_resume p w) (wake_resume p (begun i q sa w))"
    unfolding wake_resume_def by (rule late_info_upd [OF w]) (simp_all add: p)
  then show ?thesis using InWake f by simp
qed (use f in \<open>simp_all add: seg_late_after_drain seg_late_after_wake seg_late_ml w p\<close>)

lemma seg_late_frames:
  "starting q sa w \<Longrightarrow> p \<noteq> q \<Longrightarrow> list_all (frame_of p) fs \<Longrightarrow>
   seg_late oc i q sa (run_frames oc fs w) (run_frames oc fs (begun i q sa w))"
proof (induction fs arbitrary: w)
  case (Cons f fs)
  have h: "seg_late oc i q sa (resume_frame oc f w) (resume_frame oc f (begun i q sa w))"
    using Cons.prems by (intro seg_late_frame [of q sa w p]) simp_all
  show ?case
  proof (cases "resume_frame oc f w")
    case (Park y gs w1)
    then show ?thesis using h by (cases y) (simp_all add: run_frames_append split: outcome.splits)
  qed (use h Cons in auto)
qed simp

section \<open>Exported operations\<close>

text \<open>A switch waits for the child, so what follows it does not matter here.\<close>

lemma late_switch:
  assumes w: "starting q sa w" and "k = resume_api env p f"
  shows "api_late env p i q sa (ocall (context_switch r w) f k) (ocall (context_switch r (begun i q sa w)) f k)"
    and "api_late env p i q sa (ocall (drain_pending_child w) f k) (ocall (drain_pending_child (begun i q sa w)) f k)"
proof -
  have d: "drain_pending_child w \<noteq> Done x w'" for x w'
    using w by (auto simp: drain_pending_child_def drain_loop_def starting_def starting_st_def)
  show "api_late env p i q sa (ocall (context_switch r w) f k) (ocall (context_switch r (begun i q sa w)) f k)"
    using seg_late_switch(2) [OF w, of "overflow_checks env" i r] switch_no_return [OF w, of r] assms(2)
    by (intro api_late_ocall) auto
  show "api_late env p i q sa (ocall (drain_pending_child w) f k) (ocall (drain_pending_child (begun i q sa w)) f k)"
    using seg_late_switch(1) [OF w, of "overflow_checks env" i] d assms(2)
    by (intro api_late_ocall) auto
qed

lemma late_event:
  assumes w: "starting q sa w" and "\<And>w. starting q sa w \<Longrightarrow> api_late env p i q sa (k w) (k (begun i q sa w))"
  shows "api_late env p i q sa (on_st (set_event r ev) w k) (on_st (set_event r ev) (begun i q sa w) k)"
    and "api_late env p i q sa (on_st (clear_event r) w k) (on_st (clear_event r) (begun i q sa w) k)"
  by (rule late_on_st [OF w commutes_event(1) [OF startingD [OF w]]]; simp add: assms(2))
     (rule late_on_st [OF w commutes_event(2) [OF startingD [OF w]]]; simp add: assms(2))

lemma late_clear:
  "starting q sa w \<Longrightarrow> api_late env p i q sa (on_st (clear_event r) w (Done x))
     (on_st (clear_event r) (begun i q sa w) (Done x))"
  by (rule late_event) simp_all

lemma late_lock_finish:
  "starting q sa w \<Longrightarrow> api_late env p i q sa (lock_finish env p lock w) (lock_finish env p lock (begun i q sa w))"
  by (simp add: lock_finish_def Let_def late_clear)

lemma late_lock_switched:
  assumes w: "starting q sa w" and p: "p \<noteq> q"
  shows "api_late env p i q sa (lock_switched env p lock w) (lock_switched env p lock (begun i q sa w))"
  unfolding lock_switched_def
  by (rule api_late_ocall [OF seg_late_ml(3) [OF w p]]) (simp_all add: late_lock_finish fun_eq_iff)

lemma will_block_begun [simp]: "will_block (begun_st i q s) key j = will_block s key j"
  by (simp add: will_block_def)

lemma late_mutex_lock:
  assumes w: "starting q sa w" and p: "p \<noteq> q"
  shows "api_late env p i q sa (rsched_pthread_mutex_lock env p lock ra w)
     (rsched_pthread_mutex_lock env p lock ra (begun i q sa w))"
  unfolding rsched_pthread_mutex_lock_def
proof (rule late_event(1) [OF w])
  fix w1 assume w1: "starting q sa w1"
  have "api_late env p i q sa (ocall (context_switch p w1) (LockSwitched lock) (lock_switched env p lock))
     (ocall (context_switch p (begun i q sa w1)) (LockSwitched lock) (lock_switched env p lock))"
    by (rule late_switch [OF w1]) (simp add: fun_eq_iff)
  then show "api_late env p i q sa
      (case info (st w1) p of None \<Rightarrow> Fault no_entry | Some t \<Rightarrow>
         if \<not> will_block (st w1) lock (tid t)
         then ocall (context_switch p w1) (LockSwitched lock) (lock_switched env p lock)
         else lock_switched env p lock w1)
      (case info (st (begun i q sa w1)) p of None \<Rightarrow> Fault no_entry | Some t \<Rightarrow>
         if \<not> will_block (st (begun i q sa w1)) lock (tid t)
         then ocall (context_switch p (begun i q sa w1)) (LockSwitched lock) (lock_switched env p lock)
         else lock_switched env p lock (begun i q sa w1))"
    using late_lock_switched [OF w1 p, of env i lock] p by (cases "info (st w1) p") simp_all
qed

lemma late_trylock_switched:
  assumes w: "starting q sa w" and p: "p \<noteq> q"
  shows "api_late env p i q sa (trylock_switched env p lock w) (trylock_switched env p lock (begun i q sa w))"
  using late_lock_switched [OF w p, of env i lock] late_clear [OF w] p
  by (cases "info (st w) p") (simp_all add: trylock_switched_def is_recursive_mutex_def)

lemma late_trylock:
  assumes w: "starting q sa w"
  shows "api_late env p i q sa (rsched_pthread_mutex_trylock env p lock ra w)
     (rsched_pthread_mutex_trylock env p lock ra (begun i q sa w))"
  unfolding rsched_pthread_mutex_trylock_def
  by (rule late_event(1) [OF w]) (simp add: late_switch fun_eq_iff)

lemma late_mutex_unlock:
  assumes w: "starting q sa w" and p: "p \<noteq> q"
  shows "api_late env p i q sa (rsched_pthread_mutex_unlock env p lock ra w)
     (rsched_pthread_mutex_unlock env p lock ra (begun i q sa w))"
  unfolding rsched_pthread_mutex_unlock_def
proof (rule late_event(1) [OF w])
  fix w1 assume w1: "starting q sa w1"
  show "api_late env p i q sa
      (attempt (mutex_unlock (overflow_checks env) lock p (st w1)) (\<lambda>(r, s).
         let w2 = w1\<lparr>st := s\<rparr>; real_r = rp_mutex_unlock env lock
         in if r = 0 \<and> real_r \<noteq> 0 then on_st (clear_event p) w2 (Done (Ret real_r))
            else ocall (context_switch p w2) (UnlockSwitched r) (unlock_switched p r)))
      (attempt (mutex_unlock (overflow_checks env) lock p (st (begun i q sa w1))) (\<lambda>(r, s).
         let w2 = (begun i q sa w1)\<lparr>st := s\<rparr>; real_r = rp_mutex_unlock env lock
         in if r = 0 \<and> real_r \<noteq> 0 then on_st (clear_event p) w2 (Done (Ret real_r))
            else ocall (context_switch p w2) (UnlockSwitched r) (unlock_switched p r)))"
    unfolding begun_simps
    by (rule late_attempt [OF commutes_mutex_unlock [OF startingD [OF w1] p]])
       (simp_all add: Let_def begun_out late_clear late_switch starting_st_upd [OF w1] fun_eq_iff)
qed

section \<open>Condition variables and barriers\<close>

lemma late_cw_relock:
  assumes w: "starting q sa w" and p: "p \<noteq> q"
  shows "api_late env p i q sa (cw_relock env p lock w) (cw_relock env p lock (begun i q sa w))"
  unfolding cw_relock_def
  by (rule api_late_ocall [OF seg_late_ml(3) [OF w p]]) (simp_all add: cw_finish_def Let_def fun_eq_iff)

lemma late_cw_waited:
  assumes w: "starting q sa w" and p: "p \<noteq> q"
  shows "api_late env p i q sa (cw_waited env p lock w) (cw_waited env p lock (begun i q sa w))"
  unfolding cw_waited_def by (rule late_info_upd [OF w]) (use p in \<open>simp_all add: late_cw_relock\<close>)

lemma late_cw_switched2:
  assumes w: "starting q sa w" and p: "p \<noteq> q"
  shows "api_late env p i q sa (cw_switched2 env p lock w) (cw_switched2 env p lock (begun i q sa w))"
  unfolding cw_switched2_def by (rule late_self_wait [OF w p]) (simp_all add: late_cw_relock w p)

lemma starting_cond_push: "starting q sa w \<Longrightarrow> starting q sa (cond_push cond r w)"
  by (simp add: cond_push_def Let_def starting_st_upd startingD)

lemma late_cw_switched1:
  assumes w: "starting q sa w" and p: "p \<noteq> q"
  shows "api_late env p i q sa (cw_switched1 env p cond lock w) (cw_switched1 env p cond lock (begun i q sa w))"
proof -
  have push: "api_late env p i q sa
     (info_upd unknown_thread p (\<lambda>t. t\<lparr>is_blocking := True\<rparr>) (cond_push cond p w1)
        (\<lambda>w2. ocall (context_switch p w2) (CwSwitched2 lock) (cw_switched2 env p lock)))
     (info_upd unknown_thread p (\<lambda>t. t\<lparr>is_blocking := True\<rparr>) (begun i q sa (cond_push cond p w1))
        (\<lambda>w2. ocall (context_switch p w2) (CwSwitched2 lock) (cw_switched2 env p lock)))"
    if "starting q sa w1" for w1
    by (rule late_info_upd [OF starting_cond_push [OF that]]) (simp_all add: late_switch fun_eq_iff)
  show ?thesis unfolding cw_switched1_def begun_simps
    by (rule late_attempt [OF commutes_mutex_unlock [OF startingD [OF w] p]])
       (simp_all add: Let_def begun_out push starting_st_upd [OF w] del: info_upd_Some)
qed

lemma late_cond_wait:
  assumes w: "starting q sa w" and p: "p \<noteq> q"
  shows "api_late env p i q sa (rsched_pthread_cond_wait env p cond lock w)
     (rsched_pthread_cond_wait env p cond lock (begun i q sa w))"
proof -
  have "api_late env p i q sa (ocall (context_switch p w) (CwSwitched1 cond lock) (cw_switched1 env p cond lock))
     (ocall (context_switch p (begun i q sa w)) (CwSwitched1 cond lock) (cw_switched1 env p cond lock))"
    by (rule late_switch [OF w]) (simp add: fun_eq_iff)
  then show ?thesis using late_cw_switched1 [OF w p, of env i cond lock] p
    by (cases "info (st w) p") (simp_all add: rsched_pthread_cond_wait_def)
qed

lemma late_cond_signal:
  assumes w: "starting q sa w"
  shows "api_late env p i q sa (rsched_pthread_cond_signal p cond w) (rsched_pthread_cond_signal p cond (begun i q sa w))"
    and "api_late env p i q sa (rsched_pthread_cond_broadcast p cond w) (rsched_pthread_cond_broadcast p cond (begun i q sa w))"
  unfolding rsched_pthread_cond_signal_def rsched_pthread_cond_broadcast_def
  by (rule late_on_st [OF w commutes_signal_waiter [OF startingD [OF w]]]; simp add: late_switch fun_eq_iff)
     (rule late_on_st [OF w commutes_broadcast [OF startingD [OF w]]]; simp add: late_switch fun_eq_iff)

lemma late_barrier_init_switched:
  "starting q sa w \<Longrightarrow> api_late env p i q sa (barrier_init_switched env barrier cnt w)
     (barrier_init_switched env barrier cnt (begun i q sa w))"
  by (simp add: barrier_init_switched_def Let_def begun_out starting_st_upd startingD)

lemma late_barrier_waited:
  assumes w: "starting q sa w" and p: "p \<noteq> q"
  shows "api_late env p i q sa (barrier_waited p b w) (barrier_waited p b (begun i q sa w))"
  unfolding barrier_waited_def by (rule late_info_upd [OF w]) (use p in simp_all)

lemma late_barrier_switched:
  assumes w: "starting q sa w" and p: "p \<noteq> q"
  shows "api_late env p i q sa (barrier_switched p b w) (barrier_switched p b (begun i q sa w))"
  unfolding barrier_switched_def by (rule late_self_wait [OF w p]) (simp_all add: w)

lemma late_barrier_drained:
  assumes w: "starting q sa w"
  shows "api_late env p i q sa (barrier_drained p barrier w) (barrier_drained p barrier (begun i q sa w))"
proof (cases "barriers (st w) barrier")
  case (Some b)
  have "api_late env p i q sa
      (attempt (barrier_arrive barrier p b (st w)) (\<lambda>(r, s).
         ocall (context_switch p (w\<lparr>st := s\<rparr>)) (BarrierSwitched r) (barrier_switched p r)))
      (attempt (barrier_arrive barrier p b (begun_st i q (st w))) (\<lambda>(r, s).
         ocall (context_switch p ((begun i q sa w)\<lparr>st := s\<rparr>)) (BarrierSwitched r) (barrier_switched p r)))"
    by (rule late_attempt [OF commutes_barrier_arrive [OF startingD [OF w]]])
       (simp_all add: begun_out late_switch starting_st_upd [OF w] fun_eq_iff)
  then show ?thesis using Some by (simp add: barrier_drained_def)
qed (simp add: barrier_drained_def w)

section \<open>Threads\<close>

lemma late_join_switched1:
  assumes w: "starting q sa w"
  shows "api_late env p i q sa (join_switched1 p target w) (join_switched1 p target (begun i q sa w))"
proof -
  have block: "api_late env p i q sa
     (info_upd unknown_thread p (\<lambda>t. t\<lparr>is_blocking := True\<rparr>) w1
        (\<lambda>w2. ocall (context_switch p w2) (JoinSwitched2 target) (join_switched2 target)))
     (info_upd unknown_thread p (\<lambda>t. t\<lparr>is_blocking := True\<rparr>) (begun i q sa w1)
        (\<lambda>w2. ocall (context_switch p w2) (JoinSwitched2 target) (join_switched2 target)))"
    if "starting q sa w1" for w1
    by (rule late_info_upd [OF that]) (simp_all add: late_switch fun_eq_iff)
  have "api_late env p i q sa
     (info_upd unknown_thread target (\<lambda>t. t\<lparr>joiner := Some p\<rparr>) w (\<lambda>w1. info_upd unknown_thread p (\<lambda>t. t\<lparr>is_blocking := True\<rparr>) w1
        (\<lambda>w2. ocall (context_switch p w2) (JoinSwitched2 target) (join_switched2 target))))
     (info_upd unknown_thread target (\<lambda>t. t\<lparr>joiner := Some p\<rparr>) (begun i q sa w) (\<lambda>w1. info_upd unknown_thread p (\<lambda>t. t\<lparr>is_blocking := True\<rparr>) w1
        (\<lambda>w2. ocall (context_switch p w2) (JoinSwitched2 target) (join_switched2 target))))"
    by (rule late_info_upd [OF w disjI1]) (simp_all add: block del: info_upd_Some)
  then show ?thesis using w unfolding join_switched1_def join_switched2_def by simp
qed

lemma late_exit_choose:
  assumes w: "starting q sa w" and p: "p \<noteq> q"
  shows "api_late env p i q sa (exit_choose p w) (exit_choose p (begun i q sa w))"
proof -
  let ?w = "w\<lparr>st := State_remove p (st w)\<rparr>"
  have s1: "starting_st q sa (State_remove p (st w))" using commutes_State_remove(2) [OF startingD [OF w] p] .
  have w1: "starting q sa ?w" using w s1 by (rule starting_st_upd)
  have eq: "(begun i q sa w)\<lparr>st := State_remove p (begun_st i q (st w))\<rparr> = begun i q sa ?w"
    using commutes_State_remove(1) [OF startingD [OF w] p] by (simp add: begun_out)
  have ignore: "attempt (State_t n (begun_st i q s)) (\<lambda>_. x) = attempt (State_t n s) (\<lambda>_. x)" for n s and x :: api
    by (cases "n = q"; cases "info s n") (auto simp: State_t_def)
  have "api_late env p i q sa
     (attempt (State_choose (st ?w)) (\<lambda>(r, s). case r of None \<Rightarrow> Done ThreadGone (?w\<lparr>st := s\<rparr>)
       | Some idx \<Rightarrow> attempt (index (threads s) idx) (\<lambda>nxt. attempt (State_t nxt s) (\<lambda>_.
            Done ThreadGone (cond_signal (SuspendCond nxt) (?w\<lparr>st := s\<rparr>))))))
     (attempt (State_choose (begun_st i q (st ?w))) (\<lambda>(r, s). case r of None \<Rightarrow> Done ThreadGone ((begun i q sa ?w)\<lparr>st := s\<rparr>)
       | Some idx \<Rightarrow> attempt (index (threads s) idx) (\<lambda>nxt. attempt (State_t nxt s) (\<lambda>_.
            Done ThreadGone (cond_signal (SuspendCond nxt) ((begun i q sa ?w)\<lparr>st := s\<rparr>))))))"
  proof (rule late_attempt [OF commutes_State_choose])
    fix x s assume s: "starting_st q sa s"
    have ws: "starting q sa (?w\<lparr>st := s\<rparr>)" using w1 s by (rule starting_st_upd)
    show "api_late env p i q sa
       (case (x, s) of (None, s) \<Rightarrow> Done ThreadGone (?w\<lparr>st := s\<rparr>)
       | (Some idx, s) \<Rightarrow> attempt (index (threads s) idx) (\<lambda>nxt. attempt (State_t nxt s) (\<lambda>_.
            Done ThreadGone (cond_signal (SuspendCond nxt) (?w\<lparr>st := s\<rparr>)))))
       (case (x, begun_st i q s) of (None, s) \<Rightarrow> Done ThreadGone ((begun i q sa ?w)\<lparr>st := s\<rparr>)
       | (Some idx, s) \<Rightarrow> attempt (index (threads s) idx) (\<lambda>nxt. attempt (State_t nxt s) (\<lambda>_.
            Done ThreadGone (cond_signal (SuspendCond nxt) ((begun i q sa ?w)\<lparr>st := s\<rparr>)))))"
    proof (cases x)
      case (Some idx)
      then show ?thesis using ws
        by (cases "State_t (threads s ! idx) s") (simp_all add: begun_out index_def ignore)
    qed (use ws in \<open>simp add: begun_out\<close>)
  qed (use s1 in simp_all)
  then show ?thesis using w1 unfolding exit_choose_def Let_def begun_simps eq
    by simp
qed

lemma late_thread_exit:
  assumes w: "starting q sa w" and p: "p \<noteq> q"
  shows "api_late env p i q sa (do_thread_exit p w) (do_thread_exit p (begun i q sa w))"
proof (cases "Option.bind (info (st w) p) joiner")
  case None
  then show ?thesis using p late_exit_choose [OF w p] by (simp add: do_thread_exit_def)
next
  case (Some j)
  have "api_late env p i q sa
     (info_upd unknown_thread j (\<lambda>t. t\<lparr>is_blocking := False\<rparr>) w (exit_choose p))
     (info_upd unknown_thread j (\<lambda>t. t\<lparr>is_blocking := False\<rparr>) (begun i q sa w) (exit_choose p))"
    by (rule late_info_upd [OF w]) (simp_all add: late_exit_choose p)
  then show ?thesis using p Some by (simp add: do_thread_exit_def)
qed

lemma late_create:
  assumes w: "starting q sa w" and fb: "fresh_box env w"
  shows "api_late env p i q sa (rsched_pthread_create env p start arg ra w)
     (rsched_pthread_create env p start arg ra (begun i q sa w))"
proof -
  let ?a = "\<lparr>routine = start, start_arg = arg, ready = False\<rparr>"
  let ?w = "w\<lparr>boxes := (boxes w)(new_box env \<mapsto> ?a)\<rparr>"
  have ne: "new_box env \<noteq> sa" using w fb by (auto simp: starting_def fresh_box_def)
  then have w1: "starting q sa ?w" using w by (simp add: starting_def)
  have "(begun i q sa w)\<lparr>boxes := (boxes (begun i q sa w))(new_box env \<mapsto> ?a)\<rparr> = begun i q sa ?w"
    using ne by (simp add: begun_def fun_upd_twist)
  then show ?thesis using late_switch(2) [OF w1, of "create_drained env p (new_box env) ra" env p "CreateDrained (new_box env) ra"]
    by (simp add: rsched_pthread_create_def Let_def fun_eq_iff)
qed

lemma late_trampoline_waited:
  assumes w: "starting q sa w" and p: "p \<noteq> q"
  shows "api_late env p i q sa (trampoline_waited p w) (trampoline_waited p (begun i q sa w))"
  unfolding trampoline_waited_def by (rule late_info_upd [OF w]) (use p in simp_all)

lemma late_yield:
  assumes w: "starting q sa w"
  shows "api_late env p i q sa (rsched_sched_yield p ra w) (rsched_sched_yield p ra (begun i q sa w))"
    and "api_late env p i q sa (schedule_memop b p addr mem sz a w) (schedule_memop b p addr mem sz a (begun i q sa w))"
proof -
  have ev: "api_late env p i q sa
     (on_st (set_event p ev) w (\<lambda>w1. ocall (context_switch p w1) YieldSwitched (yield_switched p)))
     (on_st (set_event p ev) (begun i q sa w) (\<lambda>w1. ocall (context_switch p w1) YieldSwitched (yield_switched p)))" for ev
    by (rule late_event(1) [OF w]) (simp add: late_switch fun_eq_iff)
  then show "api_late env p i q sa (rsched_sched_yield p ra w) (rsched_sched_yield p ra (begun i q sa w))"
    by (simp add: rsched_sched_yield_def)
  show "api_late env p i q sa (schedule_memop b p addr mem sz a w) (schedule_memop b p addr mem sz a (begun i q sa w))"
    using w ev by (simp add: schedule_memop_def)
qed

section \<open>Resuming\<close>

lemma late_resume_api:
  assumes w: "starting q sa w" and p: "p \<noteq> q" and f: "\<not> is_create f"
  shows "api_late env p i q sa (resume_api env p f w) (resume_api env p f (begun i q sa w))"
  using f w p
  by (cases f) (simp_all add: late_join_switched1 join_switched2_def late_lock_switched late_lock_finish
      late_trylock_switched unlock_switched_def yield_switched_def late_clear late_cw_switched1 late_cw_switched2
      late_cw_waited cw_finish_def Let_def signal_switched_def late_barrier_init_switched late_barrier_drained
      late_barrier_switched late_barrier_waited late_trampoline_waited)

text \<open>A chosen thread, resumed before or after the trampoline of the child.\<close>

lemma late_resume:
  assumes w: "starting q sa w" and p: "p \<noteq> q" and k: "susp_stack p k"
  shows "api_late env p i q sa (resume env p k w) (resume env p k (begun i q sa w))"
proof -
  obtain fs f where kf: "k = (fs, f)" by (cases k)
  have fs: "list_all (frame_of p) fs" and f: "\<not> is_create f"
    using k kf by (auto split: if_splits dest: wait_frames_of elim: api_wait_frame.elims)
  show ?thesis unfolding resume_def kf fst_conv snd_conv
    by (rule api_late_ocall [OF seg_late_frames [OF w p fs]]) (simp_all add: late_resume_api p f)
qed

end
