(* ===== verification/Rsched_Seccomp.thy ===== *)
theory Rsched_Seccomp
  imports Rsched_Prelude
begin

text \<open>
  The optional seccomp tripwire of \<^verbatim>\<open>src/rsched/src/lib.rs\<close> (lines 624-870): the raw system call in
  assembly, the SIGSYS handler, and the filter program with its installation.

  The kernel is outside the sources. What it answers to a system call, to \<open>prctl\<close> and to \<open>sigaction\<close>,
  and how it evaluates a filter program are parameters; \<open>bpf_semantics\<close> states the documented
  meaning of the three kinds of instruction that the filter uses.
\<close>

unbundle bit_operations_syntax

section \<open>The raw system call\<close>

text \<open>A \<open>c_long\<close> is kept as its 64 bits.\<close>

type_synonym c_long = "64 word"

datatype reg = RAX | RDI | RSI | RDX | RCX | R8 | R9 | R10

datatype operand = Register reg | StackArg

text \<open>The \<open>mov\<close> instructions of \<open>rsched_internal_syscall6\<close>; \<open>StackArg\<close> is \<open>qword ptr [rsp + 8]\<close>.\<close>

definition rsched_internal_syscall6 :: "(reg \<times> operand) list" where
  "rsched_internal_syscall6 =
     [(RAX, Register RDI), (RDI, Register RSI), (RSI, Register RDX), (RDX, Register RCX),
      (R10, Register R8), (R8, Register R9), (R9, StackArg)]"

fun mov :: "c_long \<Rightarrow> reg \<times> operand \<Rightarrow> (reg \<Rightarrow> c_long) \<Rightarrow> reg \<Rightarrow> c_long" where
  "mov stk (dst, Register src) rs = rs(dst := rs src)"
| "mov stk (dst, StackArg) rs = rs(dst := stk)"

text \<open>
  A system call as the kernel sees it at the \<open>syscall\<close> instruction: number and six arguments.
  \<open>raw_syscall6\<close> passes its seven arguments by the C calling convention, the last one on the stack.
\<close>

type_synonym syscall = "c_long \<times> c_long list"

definition at_syscall :: "(reg \<Rightarrow> c_long) \<Rightarrow> syscall" where
  "at_syscall rs = (rs RAX, [rs RDI, rs RSI, rs RDX, rs R10, rs R8, rs R9])"

definition c_call7 :: "c_long \<Rightarrow> c_long \<Rightarrow> c_long \<Rightarrow> c_long \<Rightarrow> c_long \<Rightarrow> c_long \<Rightarrow> (reg \<Rightarrow> c_long) \<Rightarrow> reg \<Rightarrow> c_long" where
  "c_call7 a b c d e f rs = rs(RDI := a, RSI := b, RDX := c, RCX := d, R8 := e, R9 := f)"

definition raw_syscall6 ::
  "c_long \<Rightarrow> c_long \<Rightarrow> c_long \<Rightarrow> c_long \<Rightarrow> c_long \<Rightarrow> c_long \<Rightarrow> c_long \<Rightarrow> (reg \<Rightarrow> c_long) \<Rightarrow> syscall" where
  "raw_syscall6 nr a0 a1 a2 a3 a4 a5 rs =
     at_syscall (fold (mov a5) rsched_internal_syscall6 (c_call7 nr a0 a1 a2 a3 a4 rs))"

section \<open>The signal handler\<close>

definition SYS_write :: c_long where "SYS_write = 1"
definition SYS_getpid :: c_long where "SYS_getpid = 39"
definition SYS_exit_group :: c_long where "SYS_exit_group = 231"
definition STDERR_FILENO :: c_long where "STDERR_FILENO = 2"

definition MSG :: string where
  "MSG = ''rsched: intercepted raw futex/clone syscall outside rsched'' @ [CHR 0x0A]"

text \<open>
  The handler's system calls in order, and the register file it leaves in the signal frame; \<open>None\<close>
  after \<open>exit_group\<close>, from which the code relies on not returning. \<open>os\<close> answers a system call,
  \<open>cpu\<close> is the register file the handler itself happens to run with, \<open>msg_ptr\<close> the address of the
  message.
\<close>

definition seccomp_sigsys_handler ::
  "(syscall \<Rightarrow> c_long) \<Rightarrow> (reg \<Rightarrow> c_long) \<Rightarrow> c_long \<Rightarrow> bool \<Rightarrow> (reg \<Rightarrow> c_long)
     \<Rightarrow> syscall list \<times> (reg \<Rightarrow> c_long) option" where
  "seccomp_sigsys_handler os cpu msg_ptr is_in_rsched regs =
     (let nr = regs RAX
      in if is_in_rsched
         then let call = raw_syscall6 nr (regs RDI) (regs RSI) (regs RDX) (regs R10) (regs R8) (regs R9) cpu
              in ([call], Some (regs(RAX := os call)))
         else ([raw_syscall6 SYS_write STDERR_FILENO msg_ptr (of_nat (length MSG)) 0 0 0 cpu,
                raw_syscall6 SYS_getpid 0 0 0 0 0 0 cpu,
                raw_syscall6 SYS_exit_group 101 0 0 0 0 0 cpu], None))"

section \<open>The filter program\<close>

definition SECCOMP_RET_KILL_PROCESS :: u32 where "SECCOMP_RET_KILL_PROCESS = 0x80000000"
definition SECCOMP_RET_TRAP :: u32 where "SECCOMP_RET_TRAP = 0x00030000"
definition SECCOMP_RET_ALLOW :: u32 where "SECCOMP_RET_ALLOW = 0x7fff0000"
definition AUDIT_ARCH_X86_64 :: u32 where "AUDIT_ARCH_X86_64 = 0xc000003e"
definition SECCOMP_DATA_NR :: u32 where "SECCOMP_DATA_NR = 0"
definition SECCOMP_DATA_ARCH :: u32 where "SECCOMP_DATA_ARCH = 4"
definition SECCOMP_DATA_IP_LO :: u32 where "SECCOMP_DATA_IP_LO = 8"
definition SECCOMP_DATA_IP_HI :: u32 where "SECCOMP_DATA_IP_HI = 12"
definition SYS_CLONE3_X86_64 :: u32 where "SYS_CLONE3_X86_64 = 435"
definition SYS_futex :: u32 where "SYS_futex = 202"
definition SYS_clone :: u32 where "SYS_clone = 56"

definition BPF_LD_W_ABS :: u16 where "BPF_LD_W_ABS = 0x00 OR 0x00 OR 0x20"
definition BPF_JMP_JEQ_K :: u16 where "BPF_JMP_JEQ_K = 0x05 OR 0x10 OR 0x00"
definition BPF_RET_K :: u16 where "BPF_RET_K = 0x06 OR 0x00"

record sock_filter =
  insn_code :: u16
  jt :: u8
  jf :: u8
  imm_k :: u32

definition stmt :: "u16 \<Rightarrow> u32 \<Rightarrow> sock_filter" where
  "stmt c v = \<lparr>insn_code = c, jt = 0, jf = 0, imm_k = v\<rparr>"

definition jump :: "u16 \<Rightarrow> u32 \<Rightarrow> u8 \<Rightarrow> u8 \<Rightarrow> sock_filter" where
  "jump c v t f = \<lparr>insn_code = c, jt = t, jf = f, imm_k = v\<rparr>"

definition clone_syscall :: "bool \<Rightarrow> u32" where
  "clone_syscall trap_clone = (if trap_clone then SYS_clone else - 1)"

definition clone3_syscall :: "bool \<Rightarrow> u32" where
  "clone3_syscall trap_clone = (if trap_clone then SYS_CLONE3_X86_64 else - 1 - 1)"

definition seccomp_filter :: "u64 \<Rightarrow> bool \<Rightarrow> sock_filter list" where
  "seccomp_filter syscall_ip trap_clone =
     (let syscall_ip_lo = ucast syscall_ip :: u32;
          syscall_ip_hi = ucast (drop_bit 32 syscall_ip) :: u32
      in [stmt BPF_LD_W_ABS SECCOMP_DATA_ARCH,
          jump BPF_JMP_JEQ_K AUDIT_ARCH_X86_64 1 0,
          stmt BPF_RET_K SECCOMP_RET_KILL_PROCESS,
          stmt BPF_LD_W_ABS SECCOMP_DATA_NR,
          jump BPF_JMP_JEQ_K SYS_futex 3 0,
          jump BPF_JMP_JEQ_K (clone_syscall trap_clone) 2 0,
          jump BPF_JMP_JEQ_K (clone3_syscall trap_clone) 1 0,
          stmt BPF_RET_K SECCOMP_RET_ALLOW,
          stmt BPF_LD_W_ABS SECCOMP_DATA_IP_LO,
          jump BPF_JMP_JEQ_K syscall_ip_lo 0 2,
          stmt BPF_LD_W_ABS SECCOMP_DATA_IP_HI,
          jump BPF_JMP_JEQ_K syscall_ip_hi 1 0,
          stmt BPF_RET_K SECCOMP_RET_TRAP,
          stmt BPF_RET_K SECCOMP_RET_ALLOW])"

section \<open>Installation\<close>

text \<open>What the installation asks of the kernel, in order.\<close>

datatype request =
    Sigaction
  | PrSetNoNewPrivs
  | PrSetSeccomp "sock_filter list"

definition assert_eq_0 :: "string \<Rightarrow> c_int \<Rightarrow> fault + unit" where
  "assert_eq_0 msg r = (if r = 0 then Inr () else Inl (Panic msg))"

definition install_sigsys_handler :: "(request \<Rightarrow> c_int) \<Rightarrow> fault + request list" where
  "install_sigsys_handler answer =
     (case assert_eq_0 ''rsched: sigaction(SIGSYS) failed'' (answer Sigaction) of
        Inl e \<Rightarrow> Inl e | Inr _ \<Rightarrow> Inr [Sigaction])"

definition install_seccomp_filter ::
  "bool \<Rightarrow> (string \<Rightarrow> string option) \<Rightarrow> u64 \<Rightarrow> (request \<Rightarrow> c_int) \<Rightarrow> fault + request list" where
  "install_seccomp_filter oc env_var syscall_insn answer =
     (case chk_add oc syscall_insn 2 of
        Inl e \<Rightarrow> Inl e
      | Inr syscall_ip \<Rightarrow>
          let trap_clone = (env_var ''RSCHED_SECCOMP_TRAP_CLONE'' = Some ''1'');
              prog = PrSetSeccomp (seccomp_filter syscall_ip trap_clone)
          in (case assert_eq_0 ''rsched: prctl(PR_SET_NO_NEW_PRIVS) failed'' (answer PrSetNoNewPrivs) of
                Inl e \<Rightarrow> Inl e
              | Inr _ \<Rightarrow>
                  (case assert_eq_0 ''rsched: prctl(PR_SET_SECCOMP) failed'' (answer prog) of
                     Inl e \<Rightarrow> Inl e | Inr _ \<Rightarrow> Inr [PrSetNoNewPrivs, prog])))"

definition install_seccomp_tripwire_if_requested ::
  "bool \<Rightarrow> (string \<Rightarrow> string option) \<Rightarrow> u64 \<Rightarrow> (request \<Rightarrow> c_int) \<Rightarrow> fault + request list" where
  "install_seccomp_tripwire_if_requested oc env_var syscall_insn answer =
     (if env_var ''RSCHED_SECCOMP'' \<noteq> Some ''1'' then Inr []
      else (case install_sigsys_handler answer of
              Inl e \<Rightarrow> Inl e
            | Inr rs \<Rightarrow>
                (case install_seccomp_filter oc env_var syscall_insn answer of
                   Inl e \<Rightarrow> Inl e | Inr rs' \<Rightarrow> Inr (rs @ rs'))))"

section \<open>What the kernel documents\<close>

text \<open>\<open>struct seccomp_data\<close> on x86-64: \<open>nr\<close> at 0, \<open>arch\<close> at 4 and the little-endian
  \<open>instruction_pointer\<close> at 8; the instruction pointer is the address after the \<open>syscall\<close> instruction,
  which is two bytes long.\<close>

record seccomp_data =
  sd_nr :: u32
  sd_arch :: u32
  sd_ip :: u64

definition data_word :: "seccomp_data \<Rightarrow> u32 \<Rightarrow> u32" where
  "data_word d off =
     (if off = 0 then sd_nr d
      else if off = 4 then sd_arch d
      else if off = 8 then ucast (sd_ip d)
      else if off = 12 then ucast (drop_bit 32 (sd_ip d))
      else 0)"

definition bpf_semantics :: "(sock_filter list \<Rightarrow> seccomp_data \<Rightarrow> nat \<Rightarrow> u32 \<Rightarrow> u32) \<Rightarrow> bool" where
  "bpf_semantics run \<longleftrightarrow>
     (\<forall>prog d pc acc. pc < length prog \<longrightarrow>
        (insn_code (prog ! pc) = BPF_LD_W_ABS \<longrightarrow> run prog d pc acc = run prog d (pc + 1) (data_word d (imm_k (prog ! pc))))
      \<and> (insn_code (prog ! pc) = BPF_JMP_JEQ_K \<longrightarrow>
           run prog d pc acc
           = run prog d (pc + 1 + unat (if acc = imm_k (prog ! pc) then jt (prog ! pc) else jf (prog ! pc))) acc)
      \<and> (insn_code (prog ! pc) = BPF_RET_K \<longrightarrow> run prog d pc acc = imm_k (prog ! pc)))"

text \<open>An evaluator with this meaning: every jump goes forward.\<close>

function bpf_eval :: "sock_filter list \<Rightarrow> seccomp_data \<Rightarrow> nat \<Rightarrow> u32 \<Rightarrow> u32" where
  "bpf_eval prog d pc acc =
     (if length prog \<le> pc then 0
      else let i = prog ! pc
           in if insn_code i = BPF_LD_W_ABS then bpf_eval prog d (pc + 1) (data_word d (imm_k i))
              else if insn_code i = BPF_JMP_JEQ_K
              then bpf_eval prog d (pc + 1 + unat (if acc = imm_k i then jt i else jf i)) acc
              else if insn_code i = BPF_RET_K then imm_k i else 0)"
  by pat_completeness auto
termination by (relation "measure (\<lambda>(prog, d, pc, acc). length prog - pc)") auto

declare bpf_eval.simps [simp del]

lemma bpf_codes: "BPF_LD_W_ABS = 0x20" "BPF_JMP_JEQ_K = 0x15" "BPF_RET_K = 0x06"
  by (simp_all add: BPF_LD_W_ABS_def BPF_JMP_JEQ_K_def BPF_RET_K_def)

lemma bpf_eval_semantics: "bpf_semantics bpf_eval"
  unfolding bpf_semantics_def
  by (intro allI impI conjI; subst bpf_eval.simps) (simp_all add: bpf_codes Let_def)

section \<open>Evaluating the filter\<close>

lemma word_halves_eq:
  "(x :: u64) = y \<longleftrightarrow>
     (ucast x :: u32) = ucast y \<and> (ucast (drop_bit 32 x) :: u32) = ucast (drop_bit 32 y)"
proof
  assume halves: "(ucast x :: u32) = ucast y \<and> (ucast (drop_bit 32 x) :: u32) = ucast (drop_bit 32 y)"
  show "x = y"
  proof (rule bit_word_eqI)
    fix n assume n: "n < LENGTH(64)"
    have "bit (ucast x :: u32) n = bit (ucast y :: u32) n" using halves by simp
    moreover have "bit (ucast (drop_bit 32 x) :: u32) (n - 32) = bit (ucast (drop_bit 32 y) :: u32) (n - 32)"
      using halves by simp
    ultimately show "bit x n = bit y n"
      using n by (cases "n < 32") (auto simp: bit_ucast_iff bit_drop_bit_eq)
  qed
qed simp

lemma bpf_step:
  assumes "bpf_semantics run" and "pc < length prog"
  shows "prog ! pc = stmt BPF_LD_W_ABS v \<Longrightarrow> run prog d pc acc = run prog d (pc + 1) (data_word d v)"
    and "prog ! pc = jump BPF_JMP_JEQ_K v t f \<Longrightarrow>
           run prog d pc acc = run prog d (pc + 1 + unat (if acc = v then t else f)) acc"
    and "prog ! pc = stmt BPF_RET_K v \<Longrightarrow> run prog d pc acc = v"
  using assms unfolding bpf_semantics_def by (auto simp: stmt_def jump_def)

lemma seccomp_filter_nth:
  assumes "prog = seccomp_filter ip trap_clone"
  shows "length prog = 14"
    "prog ! 0 = stmt BPF_LD_W_ABS SECCOMP_DATA_ARCH"
    "prog ! 1 = jump BPF_JMP_JEQ_K AUDIT_ARCH_X86_64 1 0"
    "prog ! 2 = stmt BPF_RET_K SECCOMP_RET_KILL_PROCESS"
    "prog ! 3 = stmt BPF_LD_W_ABS SECCOMP_DATA_NR"
    "prog ! 4 = jump BPF_JMP_JEQ_K SYS_futex 3 0"
    "prog ! 5 = jump BPF_JMP_JEQ_K (clone_syscall trap_clone) 2 0"
    "prog ! 6 = jump BPF_JMP_JEQ_K (clone3_syscall trap_clone) 1 0"
    "prog ! 7 = stmt BPF_RET_K SECCOMP_RET_ALLOW"
    "prog ! 8 = stmt BPF_LD_W_ABS SECCOMP_DATA_IP_LO"
    "prog ! 9 = jump BPF_JMP_JEQ_K (ucast ip) 0 2"
    "prog ! 10 = stmt BPF_LD_W_ABS SECCOMP_DATA_IP_HI"
    "prog ! 11 = jump BPF_JMP_JEQ_K (ucast (drop_bit 32 ip)) 1 0"
    "prog ! 12 = stmt BPF_RET_K SECCOMP_RET_TRAP"
    "prog ! 13 = stmt BPF_RET_K SECCOMP_RET_ALLOW"
  using assms by (simp_all add: seccomp_filter_def Let_def)

text \<open>The two parts of the program: the address test from instruction 8, and the whole.\<close>

lemma seccomp_ip_test:
  assumes sem: "bpf_semantics run" and prog: "prog = seccomp_filter ip trap_clone"
  shows "run prog d 8 acc = (if sd_ip d = ip then SECCOMP_RET_ALLOW else SECCOMP_RET_TRAP)"
proof -
  note n = seccomp_filter_nth [OF prog] and s = bpf_step [OF sem]
  have "run prog d 12 a = SECCOMP_RET_TRAP" "run prog d 13 a = SECCOMP_RET_ALLOW" for a
    using s(3) [of 12 prog] s(3) [of 13 prog] n by simp_all
  then have "run prog d 11 a = (if a = ucast (drop_bit 32 ip) then SECCOMP_RET_ALLOW else SECCOMP_RET_TRAP)" for a
    using s(2) [of 11 prog] n by simp
  then have "run prog d 10 a = (if ucast (drop_bit 32 (sd_ip d)) = (ucast (drop_bit 32 ip) :: u32)
      then SECCOMP_RET_ALLOW else SECCOMP_RET_TRAP)" for a
    using s(1) [of 10 prog] n by (simp add: data_word_def SECCOMP_DATA_IP_HI_def)
  moreover have "run prog d 12 a = SECCOMP_RET_TRAP" for a using s(3) [of 12 prog] n by simp
  ultimately have "run prog d 9 a = (if a = ucast ip \<and> ucast (drop_bit 32 (sd_ip d)) = (ucast (drop_bit 32 ip) :: u32)
      then SECCOMP_RET_ALLOW else SECCOMP_RET_TRAP)" for a
    using s(2) [of 9 prog] n by simp
  then show ?thesis
    using s(1) [of 8 prog] n word_halves_eq [of "sd_ip d" ip]
    by (simp add: data_word_def SECCOMP_DATA_IP_LO_def)
qed

definition sensitive :: "bool \<Rightarrow> u32 set" where
  "sensitive trap_clone = {SYS_futex, clone_syscall trap_clone, clone3_syscall trap_clone}"

lemma seccomp_nr_test:
  assumes sem: "bpf_semantics run" and prog: "prog = seccomp_filter ip trap_clone"
  shows "run prog d 4 acc =
    (if acc \<in> sensitive trap_clone \<and> sd_ip d \<noteq> ip then SECCOMP_RET_TRAP else SECCOMP_RET_ALLOW)"
proof -
  note n = seccomp_filter_nth [OF prog] and s = bpf_step [OF sem]
  note ip = seccomp_ip_test [OF sem prog, of d]
  have "run prog d 7 a = SECCOMP_RET_ALLOW" for a using s(3) [of 7 prog] n by simp
  then have "run prog d 6 a = (if a = clone3_syscall trap_clone \<and> sd_ip d \<noteq> ip
      then SECCOMP_RET_TRAP else SECCOMP_RET_ALLOW)" for a
    using s(2) [of 6 prog] n ip by simp
  then have "run prog d 5 a = (if (a = clone_syscall trap_clone \<or> a = clone3_syscall trap_clone) \<and> sd_ip d \<noteq> ip
      then SECCOMP_RET_TRAP else SECCOMP_RET_ALLOW)" for a
    using s(2) [of 5 prog] n ip by simp
  then show ?thesis using s(2) [of 4 prog] n ip by (simp add: sensitive_def)
qed

lemma seccomp_filter_eq:
  assumes "bpf_semantics run"
  shows "run (seccomp_filter ip trap_clone) d 0 acc =
    (if sd_arch d \<noteq> AUDIT_ARCH_X86_64 then SECCOMP_RET_KILL_PROCESS
     else if sd_ip d \<noteq> ip
       \<and> (sd_nr d = SYS_futex
          \<or> (if trap_clone then sd_nr d = SYS_clone \<or> sd_nr d = SYS_CLONE3_X86_64
             else sd_nr d = - 1 \<or> sd_nr d = - 2))
     then SECCOMP_RET_TRAP else SECCOMP_RET_ALLOW)"
proof -
  let ?p = "seccomp_filter ip trap_clone"
  note n = seccomp_filter_nth [OF refl [of ?p]] and s = bpf_step [OF assms]
  have "run ?p d 3 a = run ?p d 4 (sd_nr d)" for a
    using s(1) [of 3 ?p] n by (simp add: data_word_def SECCOMP_DATA_NR_def)
  moreover have "run ?p d 2 a = SECCOMP_RET_KILL_PROCESS" for a using s(3) [of 2 ?p] n by simp
  ultimately have "run ?p d 1 a = (if a = AUDIT_ARCH_X86_64 then run ?p d 4 (sd_nr d)
      else SECCOMP_RET_KILL_PROCESS)" for a
    using s(2) [of 1 ?p] n by (simp add: numeral_2_eq_2 numeral_3_eq_3)
  then have "run ?p d 0 acc = (if sd_arch d = AUDIT_ARCH_X86_64 then run ?p d 4 (sd_nr d)
      else SECCOMP_RET_KILL_PROCESS)"
    using s(1) [of 0 ?p] n by (simp add: data_word_def SECCOMP_DATA_ARCH_def)
  then show ?thesis
    using seccomp_nr_test [OF assms refl, of ip trap_clone d "sd_nr d"]
    by (auto simp: sensitive_def clone_syscall_def clone3_syscall_def)
qed

section \<open>Properties\<close>

text \<open>C14: the filter decides as documented. On a foreign architecture the process is killed; a futex
  call, and with the clone switch a clone or clone3 call, is trapped unless it comes from the one
  whitelisted instruction; everything else is allowed. (Without the clone switch the two unused
  comparisons look for the numbers \<open>u32::MAX\<close> and \<open>u32::MAX - 1\<close>, which are no system calls.)\<close>

theorem seccomp_filter_decides:
  assumes "bpf_semantics run"
  shows "run (seccomp_filter ip trap_clone) d 0 acc =
    (if sd_arch d \<noteq> AUDIT_ARCH_X86_64 then SECCOMP_RET_KILL_PROCESS
     else if sd_ip d \<noteq> ip
       \<and> (sd_nr d = SYS_futex
          \<or> (if trap_clone then sd_nr d = SYS_clone \<or> sd_nr d = SYS_CLONE3_X86_64
             else sd_nr d = - 1 \<or> sd_nr d = - 2))
     then SECCOMP_RET_TRAP else SECCOMP_RET_ALLOW)"
  using assms by (rule seccomp_filter_eq)

theorem seccomp_filter_decides_witness:
  "bpf_eval (seccomp_filter 0x401002 False) \<lparr>sd_nr = 202, sd_arch = 0xc000003e, sd_ip = 0x7f0000001234\<rparr> 0 0
   = SECCOMP_RET_TRAP"
  using seccomp_filter_decides [OF bpf_eval_semantics, of "0x401002" False
      "\<lparr>sd_nr = 202, sd_arch = 0xc000003e, sd_ip = 0x7f0000001234\<rparr>" 0]
  by (simp add: AUDIT_ARCH_X86_64_def SYS_futex_def)

text \<open>The assembly hands its seven arguments to the kernel in order: no register is overwritten
  before it has been read.\<close>

theorem raw_syscall6_args:
  "raw_syscall6 nr a0 a1 a2 a3 a4 a5 rs = (nr, [a0, a1, a2, a3, a4, a5])"
  by (simp add: raw_syscall6_def rsched_internal_syscall6_def c_call7_def at_syscall_def)



end
