(* ===== verification/Rsched_Init.thy ===== *)
theory Rsched_Init
  imports Rsched_State Rsched_Seccomp
begin

unbundle bit_operations_syntax

text \<open>
  Initialisation and the fuzzing driver of \<^verbatim>\<open>src/rsched/src/lib.rs\<close> (lines 415-425 and 945-1045): the
  globals \<open>STATE\<close> and \<open>INITED\<close> and the thread-local \<open>MY_PT\<close> of the initialising thread, the seed
  from the environment, \<open>rsched_init\<close>, \<open>ensure_init\<close>, \<open>rsched_reinit\<close>, and
  \<open>rsched_fuzzer_test_one_input\<close>.
\<close>

section \<open>Numbers from the environment\<close>

text \<open>\<open>str::parse\<close> for an unsigned type with \<open>w\<close> bits: an optional \<open>+\<close>, then at least one decimal
  digit and nothing else, and a value that fits.\<close>

definition digit_val :: "char \<Rightarrow> nat option" where
  "digit_val ch = (let n = of_char ch :: nat in if 48 \<le> n \<and> n \<le> 57 then Some (n - 48) else None)"

fun parse_digits :: "nat \<Rightarrow> nat \<Rightarrow> string \<Rightarrow> nat option" where
  "parse_digits limit acc [] = Some acc"
| "parse_digits limit acc (ch # chs) =
     (case digit_val ch of
        None \<Rightarrow> None
      | Some d \<Rightarrow> (let acc' = acc * 10 + d
                   in if limit \<le> acc' then None else parse_digits limit acc' chs))"

definition parse_unsigned :: "nat \<Rightarrow> string \<Rightarrow> nat option" where
  "parse_unsigned limit str =
     (let digits = (if str \<noteq> [] \<and> hd str = CHR ''+'' then tl str else str)
      in if digits = [] then None else parse_digits limit 0 digits)"

definition random_seed :: "(string \<Rightarrow> string option) \<Rightarrow> u64" where
  "random_seed env_var =
     (case Option.bind (env_var ''RANDOM_SEED'') (parse_unsigned (2 ^ 64)) of
        Some n \<Rightarrow> of_nat n
      | None \<Rightarrow> 0x12345678abcd)"

section \<open>The globals\<close>

record Globals =
  STATE :: "State option"
  INITED :: bool
  MY_PT :: PthreadT

text \<open>What the initialising thread asks the system: its environment, its pthread id and its tid.\<close>

record Process =
  env_var :: "string \<Rightarrow> string option"
  pthread_self :: PthreadT
  self_tid :: pid_t

text \<open>The state with the calling thread registered; it needs no handshake.\<close>

definition main_state :: "Process \<Rightarrow> u64 \<Rightarrow> State" where
  "main_state pr seed =
     State_add ((Thread_new (pthread_self pr) (self_tid pr))\<lparr>startup_done := True\<rparr>)
       (State_new (env_var pr) seed)"

text \<open>
  \<open>rsched_init\<close> ends with the optional seccomp tripwire. Its result is the globals and what the
  installation asked of the kernel, or the panic it ended in; \<open>Kernel\<close> is what it depends on: overflow
  checks, the address of the whitelisted instruction, and the answers of the kernel.
\<close>

record Kernel =
  k_checks :: bool
  k_insn :: u64
  k_answer :: "request \<Rightarrow> c_int"

definition rsched_init :: "Kernel \<Rightarrow> Process \<Rightarrow> Globals \<Rightarrow> Globals \<times> (fault + request list)" where
  "rsched_init ks pr g =
     (if INITED g then (g, Inr [])
      else (g\<lparr>INITED := True, STATE := Some (main_state pr (random_seed (env_var pr))),
              MY_PT := pthread_self pr\<rparr>,
            install_seccomp_tripwire_if_requested (k_checks ks) (env_var pr) (k_insn ks) (k_answer ks)))"

definition ensure_init :: "Kernel \<Rightarrow> Process \<Rightarrow> Globals \<Rightarrow> Globals \<times> (fault + request list)" where
  "ensure_init ks pr g = (if \<not> INITED g then rsched_init ks pr g else (g, Inr []))"

text \<open>How the exported functions reach the globals once they have called \<open>ensure_init\<close>.\<close>

definition st_ref :: "Globals \<Rightarrow> fault + State" where
  "st_ref g = (case STATE g of Some s \<Rightarrow> Inr s | None \<Rightarrow> Inl (Expect ''rsched not initialised''))"

definition my_pt :: "Globals \<Rightarrow> PthreadT" where
  "my_pt g = MY_PT g"

text \<open>The first step of \<open>rsched_init\<close>: whoever changes the flag goes on to initialise.\<close>

definition rsched_init_claim :: "Globals \<Rightarrow> bool \<times> Globals" where
  "rsched_init_claim g = (if INITED g then (False, g) else (True, g\<lparr>INITED := True\<rparr>))"

definition rsched_reinit :: "Process \<Rightarrow> u64 \<Rightarrow> Globals \<Rightarrow> Globals" where
  "rsched_reinit pr seed g =
     g\<lparr>STATE := Some (main_state pr seed), INITED := True, MY_PT := pthread_self pr\<rparr>"

section \<open>The fuzzing driver\<close>

definition fuzzer_schedule_count :: "(string \<Rightarrow> string option) \<Rightarrow> nat" where
  "fuzzer_schedule_count vars =
     (case Option.bind (vars ''RSCHED_FUZZ_SCHEDULES'') (parse_unsigned (2 ^ 64)) of
        Some n \<Rightarrow> n
      | None \<Rightarrow> 5)"

definition FNV_OFFSET :: u64 where "FNV_OFFSET = 0xcbf29ce484222325"
definition FNV_PRIME :: u64 where "FNV_PRIME = 0x100000001b3"

definition fnv_step :: "u64 \<Rightarrow> u8 \<Rightarrow> u64" where
  "fnv_step hash byte = (hash XOR ucast byte) * FNV_PRIME"

text \<open>\<open>data\<close> is \<open>None\<close> for a null pointer, and otherwise the \<open>size\<close> bytes it points to.\<close>

definition fuzzer_input_hash :: "u8 list option \<Rightarrow> usize \<Rightarrow> u64" where
  "fuzzer_input_hash data sz =
     (let hash = (case data of None \<Rightarrow> FNV_OFFSET | Some bytes \<Rightarrow> foldl fnv_step FNV_OFFSET bytes)
      in hash XOR (sz * FNV_PRIME))"

text \<open>The loop over the schedules. The test function runs on the globals and may change them.\<close>

fun fuzz_loop ::
  "Process \<Rightarrow> u64 \<Rightarrow> (Globals \<Rightarrow> c_int \<times> Globals) \<Rightarrow> nat list \<Rightarrow> c_int \<Rightarrow> Globals \<Rightarrow> c_int \<times> Globals" where
  "fuzz_loop pr base_seed test [] result g = (result, g)"
| "fuzz_loop pr base_seed test (schedule # rest) result g =
     (let (r, g') = test (rsched_reinit pr (base_seed + of_nat schedule) g)
      in fuzz_loop pr base_seed test rest r g')"

definition rsched_fuzzer_test_one_input ::
  "Process \<Rightarrow> u8 list option \<Rightarrow> usize \<Rightarrow> (Globals \<Rightarrow> c_int \<times> Globals) \<Rightarrow> Globals \<Rightarrow> c_int \<times> Globals" where
  "rsched_fuzzer_test_one_input pr data sz test g =
     fuzz_loop pr (fuzzer_input_hash data sz) test
       [0..<fuzzer_schedule_count (env_var pr)] 0 g"

section \<open>Parsing\<close>

lemma parse_digits_bound:
  "parse_digits limit acc s = Some n \<Longrightarrow> acc < limit \<Longrightarrow> n < limit"
  by (induction s arbitrary: acc) (auto simp: Let_def split: option.splits if_splits)

lemma digit_val_digit_char: "d < 10 \<Longrightarrow> digit_val (digit_char d) = Some d"
  by (simp add: digit_val_def digit_char_def of_char_of take_bit_eq_mod Let_def)

lemma parse_digits_append:
  "parse_digits limit acc (xs @ ys) = Option.bind (parse_digits limit acc xs) (\<lambda>a. parse_digits limit a ys)"
  by (induction xs arbitrary: acc) (auto simp: Let_def split: option.splits)

lemma parse_show_dec:
  "n < limit \<Longrightarrow> parse_digits limit 0 (show_base 10 n) = Some n"
proof (induction n rule: less_induct)
  case (less n)
  show ?case
  proof (cases "n < 10")
    case True
    then show ?thesis using less.prems by (simp add: show_base.simps [of 10 n] digit_val_digit_char)
  next
    case False
    then have "parse_digits limit 0 (show_base 10 (n div 10)) = Some (n div 10)"
      using less by simp
    then show ?thesis using False less.prems
      by (simp add: show_base.simps [of 10 n] parse_digits_append digit_val_digit_char)
  qed
qed

lemma show_base_no_plus: "n < limit \<Longrightarrow> show_base 10 n \<noteq> CHR ''+'' # rest"
proof
  assume "n < limit" and eq: "show_base 10 n = CHR ''+'' # rest"
  then have "parse_digits limit 0 (CHR ''+'' # rest) = Some n" using parse_show_dec by metis
  then show False by (simp add: digit_val_def)
qed

section \<open>The hash keeps single-byte differences apart\<close>

lemma FNV_PRIME_odd_mult_inj: "x * FNV_PRIME = y * FNV_PRIME \<Longrightarrow> x = y"
proof -
  assume eq: "x * FNV_PRIME = y * FNV_PRIME"
  define i :: u64 where "i = 0xce965057aff6957b"
  have inv: "FNV_PRIME * i = 1" by (simp add: FNV_PRIME_def i_def)
  have "(x * FNV_PRIME) * i = (y * FNV_PRIME) * i" using eq by (rule arg_cong)
  then show "x = y" by (simp only: mult.assoc inv mult_1_right)
qed

lemma xor_right_cancel: "(a :: 'a::len word) XOR c = b XOR c \<Longrightarrow> a = b"
  and xor_left_cancel: "(c :: 'a::len word) XOR a = c XOR b \<Longrightarrow> a = b"
  by (rule bit_word_eqI, drule arg_cong [of _ _ "\<lambda>w. bit w n" for n], auto simp: bit_simps)+

lemma fnv_step_inj: "fnv_step h b = fnv_step h' b \<Longrightarrow> h = h'"
  unfolding fnv_step_def by (drule FNV_PRIME_odd_mult_inj) (rule xor_right_cancel)

lemma ucast_u8_inj: "(ucast (b :: u8) :: u64) = ucast b' \<Longrightarrow> b = b'"
proof (rule bit_word_eqI)
  fix n assume eq: "(ucast b :: u64) = ucast b'" and n: "n < LENGTH(8)"
  then have "bit (ucast b :: u64) n = bit (ucast b' :: u64) n" by simp
  with n show "bit b n = bit b' n" by (simp add: bit_simps)
qed

lemma fnv_step_byte_inj: "fnv_step h b = fnv_step h b' \<Longrightarrow> b = b'"
  unfolding fnv_step_def by (drule FNV_PRIME_odd_mult_inj, drule xor_left_cancel, rule ucast_u8_inj)

lemma foldl_fnv_inj: "foldl fnv_step h bs = foldl fnv_step h' bs \<Longrightarrow> h = h'"
  by (induction bs arbitrary: h h') (auto dest: fnv_step_inj)

section \<open>Runs of the fuzzing driver\<close>

lemma rsched_reinit_forgets:
  "rsched_reinit pr seed g = rsched_reinit pr seed g'"
  by (cases g; cases g') (simp add: rsched_reinit_def)

text \<open>The result and the final globals are those of the last schedule, run on a fresh state.\<close>

lemma fuzz_loop_last:
  "fuzz_loop pr base test xs r g =
     (if xs = [] then (r, g) else test (rsched_reinit pr (base + of_nat (last xs)) g0))"
proof (induction xs arbitrary: r g)
  case (Cons x xs)
  obtain r' g' where t: "test (rsched_reinit pr (base + of_nat x) g) = (r', g')"
    by (cases "test (rsched_reinit pr (base + of_nat x) g)")
  then show ?case
    using Cons.IH [of r' g'] rsched_reinit_forgets [of pr "base + of_nat x" g g0] by auto
qed simp

lemma wf_main_state: "wf_threads (main_state pr seed)"
  unfolding main_state_def
  by (rule wf_threads_add [OF wf_threads_new]) (simp add: State_new_def Let_def)


section \<open>Properties\<close>

text \<open>A seed survives the environment. If \<open>RANDOM_SEED\<close> holds the decimal digits of \<open>n\<close>, the seed is
  \<open>n\<close>; with the variable unset it is \<open>0x12345678abcd\<close>.\<close>

theorem random_seed_roundtrip:
  "random_seed (\<lambda>v. if v = ''RANDOM_SEED'' then Some (show_dec n) else other v) = n
   \<and> random_seed (\<lambda>v. None) = 0x12345678abcd"
proof -
  have lt: "unat n < 2 ^ 64" by (rule order_less_le_trans [OF unsigned_less]) simp
  have "parse_unsigned (2 ^ 64) (show_dec n) = parse_digits (2 ^ 64) 0 (show_dec n)"
    using show_base_no_plus [OF lt, of "tl (show_base 10 (unat n))"]
    by (cases "show_base 10 (unat n)") (simp_all add: parse_unsigned_def show_dec_def)
  also have "\<dots> = Some (unat n)" using parse_show_dec [OF lt] by (simp add: show_dec_def)
  finally show ?thesis by (simp add: random_seed_def)
qed

text \<open>The input hash is sensitive to every byte. Changing one byte of the input, and nothing else,
  changes the seed that the fuzzing driver derives from it.\<close>

theorem hash_sees_every_byte:
  assumes "i < length bytes" and "bytes ! i \<noteq> b"
  shows "fuzzer_input_hash (Some (bytes[i := b])) sz \<noteq> fuzzer_input_hash (Some bytes) sz"
proof
  assume "fuzzer_input_hash (Some (bytes[i := b])) sz = fuzzer_input_hash (Some bytes) sz"
  then have eq: "foldl fnv_step FNV_OFFSET (bytes[i := b]) = foldl fnv_step FNV_OFFSET bytes"
    by (auto simp: fuzzer_input_hash_def Let_def dest: xor_right_cancel)
  let ?h = "foldl fnv_step FNV_OFFSET (take i bytes)"
  have "bytes[i := b] = take i bytes @ b # drop (Suc i) bytes" using assms(1) by (rule upd_conv_take_nth_drop)
  moreover have "bytes = take i bytes @ bytes ! i # drop (Suc i) bytes" using assms(1) by (rule id_take_nth_drop)
  ultimately have "foldl fnv_step (fnv_step ?h b) (drop (Suc i) bytes)
      = foldl fnv_step (fnv_step ?h (bytes ! i)) (drop (Suc i) bytes)"
    using eq by (metis foldl_Cons foldl_append)
  then have "fnv_step ?h b = fnv_step ?h (bytes ! i)" by (rule foldl_fnv_inj)
  then show False using assms(2) fnv_step_byte_inj by metis
qed

theorem hash_sees_every_byte_witness:
  "fuzzer_input_hash (Some [1, 9, 3]) 3 \<noteq> fuzzer_input_hash (Some [1, 2, 3]) 3"
  using hash_sees_every_byte [of 1 "[1, 2, 3]" 9 3] by simp



text \<open>Initialisation happens once and registers the calling thread, ready to run: a second
  \<open>rsched_init\<close> or \<open>ensure_init\<close>, from any thread, changes nothing and asks nothing of the kernel. The
  first one asks the kernel only if \<open>RSCHED_SECCOMP\<close> is \<open>1\<close>, and then installs the signal handler before
  the filter, for the instruction after the whitelisted one.\<close>

theorem init_once:
  "rsched_init ks' pr' (fst (rsched_init ks pr g)) = (fst (rsched_init ks pr g), Inr [])
   \<and> ensure_init ks' pr' (fst (rsched_init ks pr g)) = (fst (rsched_init ks pr g), Inr [])
   \<and> threads (main_state pr seed) = [pthread_self pr]
   \<and> info (main_state pr seed) (pthread_self pr)
       = Some ((Thread_new (pthread_self pr) (self_tid pr))\<lparr>startup_done := True\<rparr>)
   \<and> (case snd (rsched_init ks pr g) of
        Inr rs \<Rightarrow> rs = [] \<or> (env_var pr ''RSCHED_SECCOMP'' = Some ''1''
          \<and> rs = [Sigaction, PrSetNoNewPrivs,
                  PrSetSeccomp (seccomp_filter (k_insn ks + 2) (env_var pr ''RSCHED_SECCOMP_TRAP_CLONE'' = Some ''1''))])
      | Inl e \<Rightarrow> env_var pr ''RSCHED_SECCOMP'' = Some ''1'')"
proof -
  have "case install_seccomp_tripwire_if_requested oc env insn answer of
      Inr rs \<Rightarrow> rs = [] \<or> (env ''RSCHED_SECCOMP'' = Some ''1''
          \<and> rs = [Sigaction, PrSetNoNewPrivs,
                  PrSetSeccomp (seccomp_filter (insn + 2) (env ''RSCHED_SECCOMP_TRAP_CLONE'' = Some ''1''))])
    | Inl e \<Rightarrow> env ''RSCHED_SECCOMP'' = Some ''1''" for oc env insn answer
    by (auto simp: install_seccomp_tripwire_if_requested_def install_sigsys_handler_def assert_eq_0_def
        install_seccomp_filter_def chk_add_def Let_def)
  then show ?thesis
    by (auto simp: rsched_init_def ensure_init_def main_state_def State_add_def State_new_def Let_def
        Thread_new_def Thread_new_with_tid_def)
qed

text \<open>Once \<open>ensure_init\<close> has returned, \<open>st()\<close> does not panic, and a thread that initialised knows its id.\<close>

lemma st_ref_after_ensure_init:
  assumes "INITED g \<Longrightarrow> STATE g \<noteq> None"
  shows "\<exists>s. st_ref (fst (ensure_init ks pr g)) = Inr s"
    and "\<not> INITED g \<Longrightarrow> my_pt (fst (ensure_init ks pr g)) = pthread_self pr"
  using assms by (auto simp: st_ref_def my_pt_def ensure_init_def rsched_init_def)

text \<open>The flag is set before there is a state. A thread that enters an exported function in between skips
  the initialisation, and its first use of the state panics.\<close>

lemma init_flag_before_state:
  assumes "\<not> INITED g" and "STATE g = None"
  shows "fst (rsched_init_claim g)
    \<and> ensure_init ks pr (snd (rsched_init_claim g)) = (snd (rsched_init_claim g), Inr [])
    \<and> st_ref (snd (rsched_init_claim g)) = Inl (Expect ''rsched not initialised'')"
  using assms by (simp add: rsched_init_claim_def ensure_init_def st_ref_def)

lemma rsched_init_claims:
  "rsched_init ks pr g = (case rsched_init_claim g of
     (False, g1) \<Rightarrow> (g1, Inr [])
   | (True, g1) \<Rightarrow> (g1\<lparr>STATE := Some (main_state pr (random_seed (env_var pr))), MY_PT := pthread_self pr\<rparr>,
       install_seccomp_tripwire_if_requested (k_checks ks) (env_var pr) (k_insn ks) (k_answer ks)))"
  by (simp add: rsched_init_def rsched_init_claim_def)

end
