(* ===== verification/Rsched_Machine.thy ===== *)
theory Rsched_Machine
  imports Rsched_Threads Rsched_Init
begin

text \<open>
  The whole program: all threads together, each at a point of its execution (\<open>ctl\<close>), over the shared
  scheduler state. A step is one segment: a call from user code up to its return or its first wait,
  the start of a new thread, or the resumption of a woken one. Segments exclude each other because
  they run under GMTX, and steps interleave freely otherwise. Signals wake the thread that is parked
  on the signalled condition variable and are lost if there is none.
\<close>

section \<open>Calls\<close>

datatype api_call =
    CallCreate usize usize u64
  | CallJoin PthreadT
  | CallExit
  | CallLock usize u64
  | CallTrylock usize u64
  | CallUnlock usize u64
  | CallCondWait usize usize
  | CallCondSignal usize
  | CallCondBroadcast usize
  | CallBarrierInit usize u32
  | CallBarrierWait usize
  | CallYield u64
  | CallMemop u64 usize usize AccessKind
  | NoteAttrInit usize
  | NoteAttrSettype usize c_int
  | NoteAttrDestroy usize
  | NoteMutexInit usize usize
  | NoteMutexDestroy usize

definition note_call :: "(State \<Rightarrow> State) \<Rightarrow> world \<Rightarrow> api" where
  "note_call f w = Done (Ret 0) (w\<lparr>st := f (st w)\<rparr>)"

fun run_call :: "Env \<Rightarrow> PthreadT \<Rightarrow> api_call \<Rightarrow> world \<Rightarrow> api" where
  "run_call env p (CallCreate start arg ra) w = rsched_pthread_create env p start arg ra w"
| "run_call env p (CallJoin target) w = rsched_pthread_join p target w"
| "run_call env p CallExit w = do_thread_exit p w"
| "run_call env p (CallLock lock ra) w = rsched_pthread_mutex_lock env p lock ra w"
| "run_call env p (CallTrylock lock ra) w = rsched_pthread_mutex_trylock env p lock ra w"
| "run_call env p (CallUnlock lock ra) w = rsched_pthread_mutex_unlock env p lock ra w"
| "run_call env p (CallCondWait cond lock) w = rsched_pthread_cond_wait env p cond lock w"
| "run_call env p (CallCondSignal cond) w = rsched_pthread_cond_signal p cond w"
| "run_call env p (CallCondBroadcast cond) w = rsched_pthread_cond_broadcast p cond w"
| "run_call env p (CallBarrierInit barrier cnt) w = rsched_pthread_barrier_init env p barrier cnt w"
| "run_call env p (CallBarrierWait barrier) w = rsched_pthread_barrier_wait p barrier w"
| "run_call env p (CallYield ra) w = rsched_sched_yield p ra w"
| "run_call env p (CallMemop addr mem sz access) w = schedule_memop False p addr mem sz access w"
| "run_call env p (NoteAttrInit attr) w = note_call (rsched_note_pthread_mutexattr_init attr) w"
| "run_call env p (NoteAttrSettype attr knd) w = note_call (rsched_note_pthread_mutexattr_settype attr knd) w"
| "run_call env p (NoteAttrDestroy attr) w = note_call (rsched_note_pthread_mutexattr_destroy attr) w"
| "run_call env p (NoteMutexInit lock attr) w = note_call (rsched_note_pthread_mutex_init lock attr) w"
| "run_call env p (NoteMutexDestroy lock) w = note_call (rsched_note_pthread_mutex_destroy lock) w"

text \<open>The return value that \<open>pthread_exit\<close> is given makes no difference to anything: a thread that joins
  cannot get it.\<close>

lemma exit_drops_retval: "rsched_pthread_exit retval p w = run_call env p CallExit w"
  by (simp add: rsched_pthread_exit_def)

section \<open>The machine\<close>

record machine =
  mw :: world
  mc :: "PthreadT \<Rightarrow> ctl"
  crash :: "fault option"

fun deliver :: "effect \<Rightarrow> (PthreadT \<Rightarrow> ctl) \<Rightarrow> PthreadT \<Rightarrow> ctl" where
  "deliver (Signal q) c = (\<lambda>r. case c r of
     Parked q' k \<Rightarrow> if q' = q then Woken q' k else Parked q' k
   | x \<Rightarrow> x)"
| "deliver (Spawn ch sa) c = c(ch := Fresh sa)"

fun after_reply :: "reply \<Rightarrow> ctl" where
  "after_reply (Ret r) = InUser"
| "after_reply (RealJoin t) = Joining t"
| "after_reply EnterRoutine = InUser"
| "after_reply ThreadGone = Gone"

text \<open>The end of a segment of thread \<open>p\<close>: the calls it made reach the other threads, and \<open>p\<close> goes on
  to where the segment left it. A fault stops the program.\<close>

fun settle :: "PthreadT \<Rightarrow> api \<Rightarrow> machine \<Rightarrow> machine" where
  "settle p (Done r w) m =
     m\<lparr>mw := w\<lparr>effects := []\<rparr>, mc := (fold deliver (effects w) (mc m))(p := after_reply r)\<rparr>"
| "settle p (Park q k w) m =
     m\<lparr>mw := w\<lparr>effects := []\<rparr>, mc := (fold deliver (effects w) (mc m))(p := Parked q k)\<rparr>"
| "settle p (Fault e) m = m\<lparr>crash := Some e\<rparr>"

datatype action =
    Call PthreadT api_call
  | Begin PthreadT
  | Resume PthreadT
  | JoinDone PthreadT
  | Spurious PthreadT

text \<open>The thread that takes a step.\<close>

fun actor :: "action \<Rightarrow> PthreadT" where
  "actor (Call p call) = p"
| "actor (Begin p) = p"
| "actor (Resume p) = p"
| "actor (JoinDone p) = p"
| "actor (Spurious p) = p"

text \<open>\<open>JoinDone\<close> is the return of the real \<open>pthread_join\<close>; \<open>Spurious\<close> is a wake-up without a signal.\<close>

definition mstep :: "Env \<Rightarrow> action \<Rightarrow> machine \<Rightarrow> machine option" where
  "mstep env act m =
     (if crash m \<noteq> None then None
      else case act of
        Call p call \<Rightarrow> (case mc m p of InUser \<Rightarrow> Some (settle p (run_call env p call (mw m)) m) | _ \<Rightarrow> None)
      | Begin p \<Rightarrow> (case mc m p of Fresh sa \<Rightarrow> Some (settle p (trampoline env p sa (mw m)) m) | _ \<Rightarrow> None)
      | Resume p \<Rightarrow> (case mc m p of Woken q k \<Rightarrow> Some (settle p (resume env p k (mw m)) m) | _ \<Rightarrow> None)
      | JoinDone p \<Rightarrow> (case mc m p of
            Joining t \<Rightarrow> if mc m t = Gone \<or> mc m t = NoThread then Some (m\<lparr>mc := (mc m)(p := InUser)\<rparr>) else None
          | _ \<Rightarrow> None)
      | Spurious p \<Rightarrow> (case mc m p of Parked q k \<Rightarrow> Some (m\<lparr>mc := (mc m)(p := Woken q k)\<rparr>) | _ \<Rightarrow> None))"

text \<open>
  What the program relies on outside itself, per step: \<open>malloc\<close> returns an address that is not in
  use, \<open>pthread_create\<close> an id no live thread has, and condition variables other than \<open>ready_cond\<close>
  have no spurious wake-ups (only the wait for a child sits in a loop).
\<close>

definition os_ok :: "Env \<Rightarrow> action \<Rightarrow> machine \<Rightarrow> bool" where
  "os_ok env act m = (case act of
     Call p (CallCreate start arg ra) \<Rightarrow> fresh_box env (mw m) \<and> fresh_thread env p (mc m)
   | Resume p \<Rightarrow> (case mc m p of Woken q k \<Rightarrow> is_create (snd k) \<longrightarrow> fresh_thread env p (mc m) | _ \<Rightarrow> True)
   | Spurious p \<Rightarrow> (case mc m p of Parked (ReadyCond sa) k \<Rightarrow> True | _ \<Rightarrow> False)
   | _ \<Rightarrow> True)"

definition init_machine :: "Process \<Rightarrow> u64 \<Rightarrow> machine" where
  "init_machine pr seed =
     \<lparr>mw = \<lparr>st = main_state pr seed, boxes = Map.empty, effects = []\<rparr>,
      mc = (\<lambda>_. NoThread)(pthread_self pr := InUser), crash = None\<rparr>"

text \<open>The states that runs reach when every step satisfies \<open>ok\<close>.\<close>

inductive reachable_by :: "(Env \<Rightarrow> action \<Rightarrow> machine \<Rightarrow> bool) \<Rightarrow> Process \<Rightarrow> u64 \<Rightarrow> machine \<Rightarrow> bool"
  for ok pr seed where
  reach_init: "reachable_by ok pr seed (init_machine pr seed)"
| reach_step: "reachable_by ok pr seed m \<Longrightarrow> ok env act m \<Longrightarrow> mstep env act m = Some m'
    \<Longrightarrow> reachable_by ok pr seed m'"

abbreviation reachable :: "Process \<Rightarrow> u64 \<Rightarrow> machine \<Rightarrow> bool" where
  "reachable \<equiv> reachable_by os_ok"

text \<open>Concrete runs.\<close>

fun run_steps :: "(Env \<Rightarrow> action \<Rightarrow> machine \<Rightarrow> bool) \<Rightarrow> (Env \<times> action) list \<Rightarrow> machine \<Rightarrow> machine option" where
  "run_steps ok [] m = Some m"
| "run_steps ok ((env, act) # rest) m =
     (if ok env act m
      then (case mstep env act m of None \<Rightarrow> None | Some m' \<Rightarrow> run_steps ok rest m')
      else None)"

section \<open>The invariant\<close>

text \<open>A thread that holds the right to run, or waits for the new thread it has created.\<close>

fun active :: "ctl \<Rightarrow> bool" where
  "active InUser = True"
| "active (Joining t) = True"
| "active (Woken q k) = True"
| "active (Parked (ReadyCond sa) k) = True"
| "active _ = False"

definition draining :: "PthreadT \<Rightarrow> (PthreadT \<Rightarrow> ctl) \<Rightarrow> world \<Rightarrow> usize \<Rightarrow> PthreadT \<Rightarrow> ifr list \<times> ofr \<Rightarrow> bool" where
  "draining p c w sa ch k \<longleftrightarrow> running False p c w \<and> pending_child (st w) = None \<and> pend_ok c (boxes w) sa ch
     \<and> drain_stack p sa ch (fst k) (needs_settled (snd k)) \<and> frame_box c w k"

fun holder_at :: "world \<Rightarrow> (PthreadT \<Rightarrow> ctl) \<Rightarrow> PthreadT \<Rightarrow> ctl \<Rightarrow> bool" where
  "holder_at w c p InUser = running False p c w"
| "holder_at w c p (Joining t) = running False p c w"
| "holder_at w c p (Woken (SuspendCond r) k) \<longleftrightarrow>
     r = p \<and> susp_stack p k \<and> running True p c w \<and> eligible (st w) p"
| "holder_at w c p (Woken (ReadyCond sa) k) \<longleftrightarrow> (\<exists>ch. draining p c w sa ch k)"
| "holder_at w c p (Parked (ReadyCond sa) k) \<longleftrightarrow> (\<exists>ch. draining p c w sa ch k \<and> c ch = Fresh sa)"
| "holder_at w c p _ = False"

definition stuck :: "(PthreadT \<Rightarrow> ctl) \<Rightarrow> world \<Rightarrow> bool" where
  "stuck c w \<longleftrightarrow> base (\<lambda>_. False) c w \<and> no_eligible (st w)"

definition minv :: "machine \<Rightarrow> bool" where
  "minv m \<longleftrightarrow> effects (mw m) = []
     \<and> ((\<exists>p. holder_at (mw m) (mc m) p (mc m p)) \<or> stuck (mc m) (mw m))
     \<and> (\<forall>e. crash m = Some e \<longrightarrow> e \<in> counter_faults)"

section \<open>Moving the right to run\<close>

lemma running_ctl:
  assumes run: "running b p c w" and x: "\<And>sa. x \<noteq> Fresh sa"
  shows "running b p (c(p := x)) w"
proof -
  note D = runningD [OF run]
  have nf: "(c(p := x)) q = Fresh sa \<longleftrightarrow> c q = Fresh sa" for q sa using D(7) x by simp
  have "box_ok (c(p := x)) (boxes w)" using D(4) unfolding box_ok_def nf .
  moreover have "pend_ok (c(p := x)) (boxes w) sa ch" if "pending_child (st w) = Some (sa, ch)" for sa ch
    using D(6) [OF that] unfolding pend_ok_def nf .
  moreover have "thread_ok (c(p := x)) (st w) q" if "q \<noteq> p" for q
    using D(5) [OF that] that by (simp add: thread_ok.simps)
  ultimately show ?thesis using run x by (simp add: running_def base_def)
qed

lemma running_park:
  assumes run: "running True p c w" and k: "susp_stack p k"
  shows "base (\<lambda>_. False) (c(p := Parked (SuspendCond p) k)) w"
proof -
  have run': "running True p (c(p := Parked (SuspendCond p) k)) w" using run by (rule running_ctl) simp
  have "thread_ok (c(p := Parked (SuspendCond p) k)) (st w) p"
    using run k by (auto simp: thread_ok.simps running_def)
  then have "thread_ok (c(p := Parked (SuspendCond p) k)) (st w) q" for q
    using runningD(5) [OF run', of q] by (cases "q = p") auto
  then show ?thesis using run' by (simp add: running_def base_def)
qed

lemma base_no_ready_wait:
  assumes "base P c w" and "\<not> P q"
  shows "c q \<noteq> Parked (ReadyCond sa) k" and "\<not> active (c q)"
proof -
  have t: "thread_ok c (st w) q" using assms by (simp add: base_def)
  then show "c q \<noteq> Parked (ReadyCond sa) k" by (auto simp: thread_ok.simps)
  from t show "\<not> active (c q)" by (cases "c q") (auto simp: thread_ok.simps)
qed

lemma base_parked:
  assumes "base P c w" and "\<not> P q" and "c q = Parked x k"
  shows "x = SuspendCond q" and "susp_stack q k"
  using assms by (auto simp: base_def thread_ok.simps)

lemma eligible_parked:
  assumes b: "base P c w" and el: "eligible (st w) n" and "\<not> P n"
  obtains k where "c n = Parked (SuspendCond n) k" "susp_stack n k"
proof -
  have t: "thread_ok c (st w) n" using assms by (simp add: base_def)
  show thesis using t el that
    by (cases "c n") (auto simp: thread_ok.simps eligible_def ineligible_def)
qed

lemma deliver_suspend:
  assumes b: "base (\<lambda>_. False) c w" and n: "c n = Parked (SuspendCond n) k"
  shows "deliver (Signal (SuspendCond n)) c = c(n := Woken (SuspendCond n) k)"
proof (rule ext)
  fix r
  show "deliver (Signal (SuspendCond n)) c r = (c(n := Woken (SuspendCond n) k)) r"
    using n base_parked(1) [OF b, of r] by (cases "c r") auto
qed

lemma running_wake:
  assumes b: "base (\<lambda>_. False) c w" and n: "c n = Parked (SuspendCond n) k"
  shows "running True n (c(n := Woken (SuspendCond n) k)) w"
proof -
  have t: "thread_ok c (st w) n" using b by (simp add: base_def)
  then have "running True n c w" using b n by (auto simp: running_def base_def thread_ok.simps)
  then show ?thesis by (rule running_ctl) simp
qed

text \<open>Control handed over with a signal, or dropped because nobody is eligible.\<close>

definition handed_over :: "(PthreadT \<Rightarrow> ctl) \<Rightarrow> world \<Rightarrow> bool" where
  "handed_over c w \<longleftrightarrow> base (\<lambda>_. False) c w \<and>
     ((\<exists>n. effects w = [Signal (SuspendCond n)] \<and> eligible (st w) n) \<or> (effects w = [] \<and> no_eligible (st w)))"

lemma handed_over_inv:
  assumes "handed_over c w" and c': "c' = fold deliver (effects w) c"
  shows "(\<exists>p. holder_at (w\<lparr>effects := []\<rparr>) c' p (c' p)) \<or> stuck c' (w\<lparr>effects := []\<rparr>)"
proof -
  have b: "base (\<lambda>_. False) c w" using assms by (simp add: handed_over_def)
  consider n where "effects w = [Signal (SuspendCond n)]" "eligible (st w) n"
    | "effects w = []" "no_eligible (st w)" using assms by (auto simp: handed_over_def)
  then show ?thesis
  proof cases
    case 1
    then obtain k where k: "c n = Parked (SuspendCond n) k" "susp_stack n k" using eligible_parked [OF b] by blast
    have "c' = c(n := Woken (SuspendCond n) k)" using c' 1(1) deliver_suspend [OF b k(1)] by simp
    then have "holder_at (w\<lparr>effects := []\<rparr>) c' n (c' n)"
      using running_wake [OF b k(1)] k(2) 1(2) by simp
    then show ?thesis by blast
  next
    case 2
    then show ?thesis using b c' by (simp add: stuck_def)
  qed
qed


section \<open>Every segment keeps the invariant\<close>

lemma frame_box_effects [simp]: "frame_box c (w\<lparr>effects := e\<rparr>) k = frame_box c w k"
  by (cases "snd k") (simp_all add: frame_box_def own_box_def)

lemma settle_handed:
  assumes "handed_over (c(p := x)) w" and "x = Gone \<or> x = Parked (SuspendCond p) k"
    and "effects w = [Signal (SuspendCond p)] \<Longrightarrow> False" and "c' = (fold deliver (effects w) c)(p := x)"
  shows "(\<exists>r. holder_at (w\<lparr>effects := []\<rparr>) c' r (c' r)) \<or> stuck c' (w\<lparr>effects := []\<rparr>)"
proof -
  obtain n where n: "effects w = [] \<or> (effects w = [Signal (SuspendCond n)] \<and> n \<noteq> p)"
    using assms(1,3) by (auto simp: handed_over_def)
  then have "c' = fold deliver (effects w) (c(p := x))"
    using assms(2,4) by (auto simp: fun_eq_iff)
  then show ?thesis by (rule handed_over_inv [OF assms(1)])
qed

lemma settle_ret:
  assumes "ret_post p c w" and x: "x = InUser \<or> x = Joining t"
  shows "\<exists>r. holder_at (w\<lparr>effects := []\<rparr>) ((fold deliver (effects w) c)(p := x)) r
           (((fold deliver (effects w) c)(p := x)) r)"
proof -
  let ?c = "(fold deliver (effects w) c)(p := x)"
  have nx: "x \<noteq> Fresh sa" for sa using x by auto
  have "running False p ?c w"
    using assms(1) unfolding ret_post_def by (auto intro!: running_ctl nx)
  then have "holder_at (w\<lparr>effects := []\<rparr>) ?c p (?c p)" using x by auto
  then show ?thesis by blast
qed

lemma settle_ok:
  assumes ok: "api_ok p (mc m) out" and m: "minv m" and nc: "crash m = None"
  shows "minv (settle p out m)"
proof (cases out)
  case (Fault e)
  then show ?thesis using ok m by (simp add: minv_def)
next
  case (Done r w)
  then have rp: "reply_post p (mc m) r w" using ok by simp
  show ?thesis
  proof (cases "r = ThreadGone")
    case True
    then have "handed_over ((mc m)(p := Gone)) w" and "effects w \<noteq> [Signal (SuspendCond p)]"
      using rp by (auto simp: gone_post_def handed_over_def)
    from settle_handed [OF this(1) _ _ refl] this(2) show ?thesis using Done True nc by (simp add: minv_def)
  next
    case False
    then have "ret_post p (mc m) w" using rp by (cases r) simp_all
    moreover have "after_reply r = InUser \<or> after_reply r = Joining t" if "\<forall>t'. r = RealJoin t' \<longrightarrow> t' = t" for t
      using False that by (cases r) auto
    then obtain t where "after_reply r = InUser \<or> after_reply r = Joining t" by (cases r) auto
    ultimately show ?thesis using settle_ret [of p "mc m" w "after_reply r" t] Done nc by (simp add: minv_def)
  qed
next
  case (Park q k w)
  then have op: "opark p (mc m) q k w" using ok by simp
  show ?thesis
  proof (cases q)
    case (SuspendCond r)
    then have k: "r = p" "susp_stack p k" and sp: "susp_post p (mc m) w" using op by (simp_all add: opark_def)
    have "base (\<lambda>_. False) ((mc m)(p := Parked (SuspendCond p) k)) w"
      using sp k by (intro running_park) (auto simp: susp_post_def)
    then have "handed_over ((mc m)(p := Parked (SuspendCond p) k)) w" and "effects w \<noteq> [Signal (SuspendCond p)]"
      using sp by (auto simp: handed_over_def susp_post_def)
    from settle_handed [OF this(1) _ _ refl] this(2) show ?thesis using Park SuspendCond k nc by (simp add: minv_def)
  next
    case (ReadyCond sa)
    let ?c = "(mc m)(p := Parked (ReadyCond sa) k)"
    obtain ch where fb: "frame_box (mc m) w k" and ds: "drain_stack p sa ch (fst k) (needs_settled (snd k))"
      and dp: "drain_post p (mc m) sa ch w" using op ReadyCond by (auto simp: opark_def)
    have run: "running False p ?c w" using dp by (intro running_ctl) (auto simp: drain_post_def)
    have "ch \<noteq> p" using dp by (auto simp: drain_post_def dest: runningD)
    moreover have "frame_box ?c w k"
      using fb unfolding frame_box_def own_box_def by (auto split: ofr.splits)
    ultimately have "draining p ?c (w\<lparr>effects := []\<rparr>) sa ch k" and "?c ch = Fresh sa"
      using run ds dp by (auto simp: draining_def drain_post_def pend_ok_def)
    then have "holder_at (w\<lparr>effects := []\<rparr>) ?c p (?c p)"
      using \<open>ch \<noteq> p\<close> by (simp only: fun_upd_same holder_at.simps) blast
    then show ?thesis using Park ReadyCond nc dp by (auto simp: minv_def drain_post_def)
  qed
qed


section \<open>The start of a new thread\<close>

lemma holder_running: "holder_at w c p x \<Longrightarrow> \<exists>b. running b p c w"
  by (cases "(w, c, p, x)" rule: holder_at.cases) (auto simp: draining_def)

lemma holder_at_effects: "holder_at (w\<lparr>effects := e\<rparr>) c p x = holder_at w c p x"
  by (cases "(w, c, p, x)" rule: holder_at.cases) (auto simp: draining_def)

lemma deliver_ready:
  assumes "base P c w" and "\<not> P r"
  shows "deliver (Signal (ReadyCond sa)) c r = c r"
  using base_no_ready_wait(1) [OF assms] by (cases "c r") auto

lemma deliver_ready_running:
  assumes "running b p c w"
  shows "deliver (Signal (ReadyCond sa)) c = c(p := deliver (Signal (ReadyCond sa)) c p)"
  using deliver_ready [of "\<lambda>q. q = p" c w] assms by (auto simp: running_def fun_eq_iff simp del: deliver.simps)

lemma draining_trampolined:
  assumes dr: "draining p c w sa' ch k" and q: "c q = Fresh sa" and t: "info (st w) q = Some t"
    and x: "\<And>s. x \<noteq> Fresh s"
  shows "draining p (c(q := at_start q, p := x)) (trampolined env q sa t a w) sa' ch k"
proof -
  let ?c = "c(q := at_start q)"
  have run: "running False p c w" using dr by (simp add: draining_def)
  have run': "running False p ?c (trampolined env q sa t a w)" using run q t by (rule running_trampolined)
  have "pend_ok ?c ((boxes w)(sa \<mapsto> a\<lparr>ready := True\<rparr>)) sa' ch"
    using dr by (intro pend_ok_trampolined [OF runningD(4) [OF run] q]) (simp_all add: draining_def)
  moreover have "?c p \<noteq> Fresh y" for y using run' by (rule runningD(7))
  ultimately have "pend_ok (?c(p := x)) ((boxes w)(sa \<mapsto> a\<lparr>ready := True\<rparr>)) sa' ch"
    using x unfolding pend_ok_def by (metis fun_upd_apply)
  moreover have "frame_box (?c(p := x)) (trampolined env q sa t a w) k"
  proof (cases "snd k")
    case (CreateDrained y ra)
    then have "own_box ?c (trampolined env q sa t a w) y" and "tl (fst k) = []"
      using dr q by (simp_all add: draining_def frame_box_def own_box_trampolined)
    then show ?thesis using CreateDrained x by (simp add: frame_box_def own_box_def)
  qed (simp_all add: frame_box_def)
  ultimately show ?thesis using dr running_ctl [OF run' x] by (simp add: draining_def)
qed

lemma holder_trampolined:
  assumes h: "holder_at w c p (c p)" and q: "c q = Fresh sa" and t: "info (st w) q = Some t"
    and ns: "\<not> startup_done t"
    and c': "c' = (deliver (Signal (ReadyCond sa)) c)(q := at_start q)"
  shows "holder_at (trampolined env q sa t a w) c' p (c' p)"
proof -
  obtain b where run: "running b p c w" using h holder_running by blast
  have ne: "q \<noteq> p" using runningD(7) [OF run] q by auto
  let ?x = "deliver (Signal (ReadyCond sa)) c p" and ?w = "trampolined env q sa t a w"
  have "c' = (c(p := ?x))(q := at_start q)"
    unfolding c' by (rule arg_cong [where f = "\<lambda>d. d(q := at_start q)"], rule deliver_ready_running [OF run])
  also have "\<dots> = c(q := at_start q, p := ?x)" using ne by (intro fun_upd_twist) simp
  finally have c'_eq: "c' = c(q := at_start q, p := ?x)" .
  have nf: "\<And>s. ?x \<noteq> Fresh s" using runningD(7) [OF run] by (cases "c p") auto
  have run': "running b' p c' ?w" if "running b' p c w" for b'
    unfolding c'_eq using running_trampolined [OF that q t] nf by (intro running_ctl)
  have dr: "draining p c' ?w sa' ch k" if "draining p c w sa' ch k" for sa' ch k
    unfolding c'_eq by (rule draining_trampolined [where x = ?x, OF that q t nf])
  have el: "eligible (st ?w) p = eligible (st w) p" using t ns by (rule eligible_trampolined)
  have x: "c' p = ?x" unfolding c'_eq by (rule fun_upd_same)
  show ?thesis
  proof (cases "c p")
    case (Parked y k)
    then obtain sa' ch where y: "y = ReadyCond sa'" and d: "draining p c w sa' ch k" and ch: "c ch = Fresh sa'"
      using h by (cases y) auto
    have "draining p c' ?w sa' ch k" using d by (rule dr)
    moreover have "c' ch = Fresh sa'" if "sa' \<noteq> sa"
    proof -
      have "ch \<noteq> q" and "ch \<noteq> p" using that ch q runningD(7) [OF run] by auto
      then show ?thesis unfolding c'_eq using ch by (simp del: deliver.simps)
    qed
    ultimately show ?thesis unfolding x using Parked y by auto
  next
    case (Woken y k)
    then show ?thesis unfolding x using h run' el by (cases y) (auto intro: dr)
  qed (use h run' in \<open>auto simp: x simp del: fun_upd_apply\<close>)
qed

lemma begin_ok:
  assumes m: "minv m" and nc: "crash m = None" and q: "mc m q = Fresh sa"
  shows "minv (settle q (trampoline env q sa (mw m)) m)"
proof -
  let ?w = "mw m" and ?c = "mc m"
  have eff: "effects ?w = []" using m by (simp add: minv_def)
  consider p where "holder_at ?w ?c p (?c p)" | "stuck ?c ?w" using m by (auto simp: minv_def)
  then show ?thesis
  proof cases
    case 1
    then obtain b where run: "running b p ?c ?w" using holder_running by blast
    then have ne: "q \<noteq> p" using runningD(7) [OF run] q by auto
    obtain t a where t: "info (st ?w) q = Some t" "boxes ?w sa = Some a" "\<not> startup_done t"
      by (rule fresh_info [of "\<lambda>r. r = p" ?c ?w q sa]) (use run q ne in \<open>simp_all add: running_def\<close>)
    let ?c' = "(deliver (Signal (ReadyCond sa)) ?c)(q := at_start q)"
    have "holder_at (trampolined env q sa t a ?w) ?c' p (?c' p)"
      using 1 q t(1,3) by (rule holder_trampolined) simp
    then have "\<exists>p. holder_at ((trampolined env q sa t a ?w)\<lparr>effects := []\<rparr>) ?c' p (?c' p)"
      unfolding holder_at_effects by blast
    then show ?thesis using trampoline_eq [OF t(1,2)] eff nc
      by (simp add: minv_def del: deliver.simps fun_upd_apply)
  next
    case 2
    then have b: "base (\<lambda>_. False) ?c ?w" and none: "no_eligible (st ?w)" by (simp_all add: stuck_def)
    obtain t a where t: "info (st ?w) q = Some t" "boxes ?w sa = Some a" "\<not> startup_done t"
      by (rule fresh_info [OF b q]) simp
    have d: "deliver (Signal (ReadyCond sa)) ?c = ?c"
      using deliver_ready [OF b] by (auto simp del: deliver.simps)
    have "base (\<lambda>_. False) (?c(q := at_start q)) (trampolined env q sa t a ?w)"
      by (rule base_trampolined [OF b q _ t(1)]) simp
    moreover have "no_eligible (st (trampolined env q sa t a ?w))"
      using none eligible_trampolined [OF t(1,3)] by (simp add: no_eligible_def)
    ultimately have "stuck (?c(q := at_start q)) ((trampolined env q sa t a ?w)\<lparr>effects := []\<rparr>)"
      by (simp add: stuck_def)
    then show ?thesis using trampoline_eq [OF t(1,2)] eff nc d by (simp add: minv_def del: deliver.simps)
  qed
qed


section \<open>Every step keeps the invariant\<close>

lemma active_holder:
  assumes m: "minv m" and act: "active (mc m p)"
  shows "holder_at (mw m) (mc m) p (mc m p)"
proof -
  have "\<not> stuck (mc m) (mw m)"
    using act base_no_ready_wait(2) [of "\<lambda>_. False" "mc m" "mw m" p] by (auto simp: stuck_def)
  then obtain r where h: "holder_at (mw m) (mc m) r (mc m r)" using m by (auto simp: minv_def)
  then obtain b where "running b r (mc m) (mw m)" using holder_running by blast
  then have "r = p"
    using act base_no_ready_wait(2) [of "\<lambda>q. q = r" "mc m" "mw m" p] by (auto simp: running_def)
  with h show ?thesis by simp
qed

lemma note_refs_ok [simp]:
  "refs_ok (s\<lparr>recursive_mutex_attrs := x\<rparr>) = refs_ok s"
  "refs_ok (s\<lparr>recursive_mutexes := x\<rparr>) = refs_ok s"
  by (simp_all add: refs_ok_def)

lemma note_skel [simp]:
  "skel (s\<lparr>recursive_mutex_attrs := x\<rparr>) = skel s"
  "skel (s\<lparr>recursive_mutexes := x\<rparr>) = skel s"
  by (simp_all add: skel_def)

lemma api_ok_note:
  assumes idle: "idle_run p c x w" and "skel (f (st w)) = skel (st w)" and "refs_ok (f (st w))"
  shows "api_ok p c (note_call f w)"
  unfolding note_call_def by (rule api_ok_return(1) [OF idle_run_keeps [OF idle assms(2,3)]])

lemma refs_ok_destroy:
  "refs_ok s \<Longrightarrow> refs_ok (rsched_note_pthread_mutex_destroy lock s)"
  by (simp add: rsched_note_pthread_mutex_destroy_def refs_ok_def)

lemma api_ok_run_call:
  assumes idle: "idle_run p c x w"
    and new: "\<And>start arg ra. call = CallCreate start arg ra \<Longrightarrow> fresh_box env w \<and> fresh_thread env p c"
  shows "api_ok p c (run_call env p call w)"
proof (cases call)
  case (CallCreate start arg ra)
  then show ?thesis using new idle by (simp add: api_ok_create del: api_ok_simps)
next
  case (NoteMutexDestroy lock)
  then show ?thesis using idle refs_ok_destroy [OF idle_runD(3) [OF idle]]
    by (auto simp: rsched_note_pthread_mutex_destroy_def simp del: api_ok_simps intro!: api_ok_note)
qed (use idle idle_runD(3) [OF idle] in \<open>simp_all del: api_ok_simps add: api_ok_join api_ok_thread_exit
       api_ok_mutex_lock api_ok_mutex_trylock api_ok_mutex_unlock api_ok_cond_wait
       api_ok_cond_signal api_ok_cond_broadcast api_ok_barrier_init api_ok_barrier_wait
       api_ok_sched_yield api_ok_memop api_ok_note rsched_note_pthread_mutexattr_init_def
       rsched_note_pthread_mutexattr_settype_def rsched_note_pthread_mutexattr_destroy_def
       rsched_note_pthread_mutex_init_def\<close>)

lemma draining_ctl:
  assumes dr: "draining p c w sa ch k" and x: "\<And>s. x \<noteq> Fresh s"
  shows "draining p (c(p := x)) w sa ch k"
proof -
  have run: "running False p c w" using dr by (simp add: draining_def)
  have nf: "(c(p := x)) q = Fresh s \<longleftrightarrow> c q = Fresh s" for q s using runningD(7) [OF run] x by simp
  have "frame_box (c(p := x)) w k = frame_box c w k"
    by (cases "snd k") (simp_all add: frame_box_def own_box_def nf del: fun_upd_apply)
  then show ?thesis using dr running_ctl [OF run x] unfolding draining_def pend_ok_def nf by simp
qed

lemma call_api_ok:
  assumes "minv m" and "mc m p = InUser" and "os_ok env (Call p call) m"
  shows "api_ok p (mc m) (run_call env p call (mw m))"
proof -
  have "running False p (mc m) (mw m)" using active_holder [OF assms(1), of p] assms(2) by simp
  then have "idle_run p (mc m) False (mw m)" using assms(1) by (simp add: idle_run_def minv_def)
  then show ?thesis by (rule api_ok_run_call) (use assms(3) in \<open>simp add: os_ok_def\<close>)
qed

lemma resume_api_ok:
  assumes m: "minv m" and p: "mc m p = Woken q k" and os: "os_ok env (Resume p) m"
  shows "api_ok p (mc m) (resume env p k (mw m))"
proof -
  have eff: "effects (mw m) = []" using m by (simp add: minv_def)
  have h: "holder_at (mw m) (mc m) p (Woken q k)" using active_holder [OF m, of p] p by simp
  show ?thesis
  proof (cases q)
    case (SuspendCond r)
    then show ?thesis using h eff by (auto simp del: api_ok_simps intro: api_ok_resume_susp)
  next
    case (ReadyCond sa)
    then obtain ch where d: "draining p (mc m) (mw m) sa ch k" using h by auto
    show ?thesis
      by (rule api_ok_resume_drain [where sa = sa and ch = ch])
         (use d eff os p in \<open>auto simp: draining_def os_ok_def\<close>)
  qed
qed

lemma mstep_call_ok:
  assumes "minv m" and "crash m = None" and "mc m p = InUser" and "os_ok env (Call p call) m"
  shows "minv (settle p (run_call env p call (mw m)) m)"
  using assms by (intro settle_ok call_api_ok)

lemma mstep_resume_ok:
  assumes "minv m" and "crash m = None" and "mc m p = Woken q k" and "os_ok env (Resume p) m"
  shows "minv (settle p (resume env p k (mw m)) m)"
  using assms by (intro settle_ok resume_api_ok)

lemma mstep_join_ok:
  assumes m: "minv m" and nc: "crash m = None" and p: "mc m p = Joining t"
  shows "minv (m\<lparr>mc := (mc m)(p := InUser)\<rparr>)"
proof -
  have "running False p (mc m) (mw m)" using active_holder [OF m, of p] p by simp
  then have "running False p ((mc m)(p := InUser)) (mw m)" by (rule running_ctl) simp
  then have "holder_at (mw m) ((mc m)(p := InUser)) p (((mc m)(p := InUser)) p)" by simp
  then show ?thesis using m nc unfolding minv_def by auto
qed

lemma mstep_spurious_ok:
  assumes m: "minv m" and nc: "crash m = None" and p: "mc m p = Parked (ReadyCond sa) k"
  shows "minv (m\<lparr>mc := (mc m)(p := Woken (ReadyCond sa) k)\<rparr>)"
proof -
  obtain ch where "draining p (mc m) (mw m) sa ch k" using active_holder [OF m, of p] p by auto
  then have "draining p ((mc m)(p := Woken (ReadyCond sa) k)) (mw m) sa ch k" by (rule draining_ctl) simp
  then have "holder_at (mw m) ((mc m)(p := Woken (ReadyCond sa) k)) p (((mc m)(p := Woken (ReadyCond sa) k)) p)"
    by auto
  then show ?thesis using m nc unfolding minv_def by auto
qed

lemma minv_step:
  assumes m: "minv m" and os: "os_ok env act m" and st: "mstep env act m = Some m'"
  shows "minv m'"
proof -
  have nc: "crash m = None" using st by (auto simp: mstep_def split: if_splits)
  show ?thesis
  proof (cases act)
    case (Call p call)
    then show ?thesis using st os nc mstep_call_ok [OF m nc] by (auto simp: mstep_def split: ctl.splits)
  next
    case (Begin p)
    then show ?thesis using st nc begin_ok [OF m nc] by (auto simp: mstep_def split: ctl.splits)
  next
    case (Resume p)
    then show ?thesis using st os nc mstep_resume_ok [OF m nc] by (auto simp: mstep_def split: ctl.splits)
  next
    case (JoinDone p)
    then show ?thesis using st nc mstep_join_ok [OF m nc] by (auto simp: mstep_def split: ctl.splits if_splits)
  next
    case (Spurious p)
    then show ?thesis using st os nc mstep_spurious_ok [OF m nc]
      by (auto simp: mstep_def os_ok_def split: ctl.splits waitq.splits)
  qed
qed

lemma minv_init: "minv (init_machine pr seed)"
proof -
  let ?p = "pthread_self pr" and ?c = "(\<lambda>_. NoThread)(pthread_self pr := InUser)"
  let ?w = "\<lparr>st = main_state pr seed, boxes = Map.empty, effects = []\<rparr>"
  have "running False ?p ?c ?w"
    using wf_main_state [of pr seed]
    by (auto simp: running_def base_def refs_ok_def box_ok_def main_state_def State_add_def State_new_def
        Thread_new_def Thread_new_with_tid_def Let_def thread_ok.simps split: if_splits)
  then have "holder_at ?w ?c ?p (?c ?p)" by simp
  then show ?thesis unfolding minv_def init_machine_def by auto
qed

lemma reachable_minv: "reachable pr seed m \<Longrightarrow> minv m"
  by (induction rule: reachable_by.induct) (auto intro: minv_init minv_step)

lemma reachable_mono:
  assumes "reachable_by ok pr seed m" and "\<And>env act m. ok env act m \<Longrightarrow> ok' env act m"
  shows "reachable_by ok' pr seed m"
  using assms(1) by (induction rule: reachable_by.induct) (auto intro: reachable_by.intros assms(2))

lemma reachable_run_steps:
  "run_steps ok acts m = Some m' \<Longrightarrow> reachable_by ok pr seed m \<Longrightarrow> reachable_by ok pr seed m'"
  by (induction ok acts m rule: run_steps.induct)
     (auto split: if_splits option.splits intro: reach_step)

end
