(* ===== verification/Rsched_Owner.thy ===== *)
theory Rsched_Owner
  imports Rsched_Machine
begin

text \<open>
  Who owns a mutex. Every segment of a thread keeps the entries of \<open>mutexes\<close> that other threads
  own, and keeps them well-formed: a thread queues only for the mutex it is locking, never for one
  it owns, and a count of zero means that the mutex has just been handed to a waiter that has not
  resumed yet. So unlocking never counts below zero. The lemmas are for a build with overflow
  checks; without them a count wraps around after \<open>2 ^ 32\<close> nested locks.
\<close>

section \<open>Well-formed entries\<close>

definition tid_of :: "State \<Rightarrow> PthreadT \<Rightarrow> pid_t option" where
  "tid_of s q = map_option tid (info s q)"

text \<open>The mutex a suspended thread is inside \<open>State::mutex_lock\<close> for.\<close>

fun lock_key :: "ifr list \<Rightarrow> usize option" where
  "lock_key [] = None"
| "lock_key (MlSwitched key i q # fs) = Some key"
| "lock_key (MlWaited key i q # fs) = Some key"
| "lock_key (_ # fs) = lock_key fs"

fun ml_frame :: "PthreadT \<Rightarrow> pid_t \<Rightarrow> ifr \<Rightarrow> bool" where
  "ml_frame p i (MlSwitched key j q) \<longleftrightarrow> j = i \<and> q = p"
| "ml_frame p i (MlWaited key j q) \<longleftrightarrow> j = i \<and> q = p"
| "ml_frame p i _ \<longleftrightarrow> True"

text \<open>\<open>lk\<close> says which mutex each thread is locking.\<close>

definition mx_entry :: "(PthreadT \<Rightarrow> usize option) \<Rightarrow> State \<Rightarrow> usize \<Rightarrow> SMutex \<Rightarrow> bool" where
  "mx_entry lk s key mu \<longleftrightarrow> distinct (m_waiters mu)
     \<and> (\<forall>q\<in>set (m_waiters mu). lk q = Some key \<and> tid_of s q \<noteq> Some (owner_tid mu))
     \<and> (recursive_count mu = 0 \<longrightarrow> (\<exists>q. tid_of s q = Some (owner_tid mu) \<and> lk q = Some key))"

definition mx_inv :: "PthreadT set \<Rightarrow> (PthreadT \<Rightarrow> usize option) \<Rightarrow> State \<Rightarrow> bool" where
  "mx_inv T lk s \<longleftrightarrow> inj_on (tid_of s) T \<and> (\<forall>q\<in>T. tid_of s q \<noteq> None) \<and> (\<forall>q. lk q \<noteq> None \<longrightarrow> q \<in> T)
     \<and> (\<forall>key mu. mutexes s key = Some mu \<longrightarrow> mx_entry lk s key mu)"

text \<open>The mutexes that \<open>i\<close> does not own keep owner and count.\<close>

definition foreign :: "pid_t \<Rightarrow> State \<Rightarrow> State \<Rightarrow> bool" where
  "foreign i s s' \<longleftrightarrow> (\<forall>key mu. mutexes s key = Some mu \<longrightarrow> owner_tid mu \<noteq> i \<longrightarrow>
     (\<exists>mu'. mutexes s' key = Some mu' \<and> owner_tid mu' = owner_tid mu
            \<and> recursive_count mu' = recursive_count mu))"

definition same_tids :: "PthreadT set \<Rightarrow> State \<Rightarrow> State \<Rightarrow> bool" where
  "same_tids T s s' \<longleftrightarrow> (\<forall>q\<in>T. tid_of s' q = tid_of s q)"

text \<open>The point of view of one running thread: itself, its tid, the started threads, what the others
  are locking, and the state at the start of its segment.\<close>

record view =
  vp :: PthreadT
  vi :: pid_t
  vT :: "PthreadT set"
  vlk :: "PthreadT \<Rightarrow> usize option"
  vs :: State

definition mx_ok :: "view \<Rightarrow> ifr list \<Rightarrow> State \<Rightarrow> bool" where
  "mx_ok v fs s \<longleftrightarrow> vp v \<in> vT v \<and> tid_of s (vp v) = Some (vi v)
     \<and> mx_inv (vT v) ((vlk v)(vp v := lock_key fs)) s \<and> foreign (vi v) (vs v) s
     \<and> same_tids (vT v) (vs v) s \<and> list_all (ml_frame (vp v) (vi v)) fs"

definition seg2 :: "view \<Rightarrow> unit seg \<Rightarrow> bool" where
  "seg2 v m \<longleftrightarrow> outcome_sat (- {SubOverflow}) (\<lambda>_ w. mx_ok v [] (st w)) (\<lambda>_ fs w. mx_ok v fs (st w)) m"

definition api2 :: "view \<Rightarrow> api \<Rightarrow> bool" where
  "api2 v m \<longleftrightarrow> outcome_sat (- {SubOverflow}) (\<lambda>_ w. mx_ok v [] (st w)) (\<lambda>_ k w. mx_ok v (fst k) (st w)) m"

lemma seg2_simps [simp]:
  "seg2 v (Done u w) = mx_ok v [] (st w)"
  "seg2 v (Park q fs w) = mx_ok v fs (st w)"
  "seg2 v (Fault e) = (e \<noteq> SubOverflow)"
  by (simp_all add: seg2_def)

lemma api2_simps [simp]:
  "api2 v (Done r w) = mx_ok v [] (st w)"
  "api2 v (Park q k w) = mx_ok v (fst k) (st w)"
  "api2 v (Fault e) = (e \<noteq> SubOverflow)"
  by (simp_all add: api2_def)

section \<open>Steps that leave the mutexes alone\<close>

definition mfix :: "PthreadT set \<Rightarrow> State \<Rightarrow> State \<Rightarrow> bool" where
  "mfix T s s' \<longleftrightarrow> mutexes s' = mutexes s \<and> (\<forall>q\<in>T. tid_of s' q = tid_of s q)"

lemma mx_inv_mfix:
  assumes inv: "mx_inv T lk s" and mf: "mfix T s s'"
  shows "mx_inv T lk s'"
proof -
  have tids: "tid_of s' q = tid_of s q" if "q \<in> T" for q using mf that by (simp add: mfix_def)
  have lkT: "q \<in> T" if "lk q = Some key" for q key using inv that by (auto simp: mx_inv_def)
  have "mx_entry lk s' key mu" if mu: "mutexes s' key = Some mu" for key mu
  proof -
    have "mx_entry lk s key mu" using inv mf mu by (simp add: mx_inv_def mfix_def)
    then show ?thesis unfolding mx_entry_def using tids lkT by metis
  qed
  moreover have "inj_on (tid_of s') T" using inv tids by (simp add: mx_inv_def inj_on_def)
  ultimately show ?thesis using inv tids by (simp add: mx_inv_def)
qed

lemma mx_ok_mfix: "mx_ok v fs s \<Longrightarrow> mfix (vT v) s s' \<Longrightarrow> mx_ok v fs s'"
  unfolding mx_ok_def by (auto intro: mx_inv_mfix simp: mfix_def foreign_def same_tids_def)

lemma mfix_info:
  "info s q = Some t \<Longrightarrow> tid t' = tid t \<Longrightarrow> mfix T s (s\<lparr>info := (info s)(q \<mapsto> t')\<rparr>)"
  by (simp add: mfix_def tid_of_def)

lemma mfix_other [simp]:
  "mfix T s (s\<lparr>sched := d\<rparr>)" "mfix T s (s\<lparr>conds := x\<rparr>)" "mfix T s (s\<lparr>barriers := b\<rparr>)"
  "mfix T s (s\<lparr>pending_child := pc\<rparr>)" "mfix T s (s\<lparr>recursive_mutexes := r\<rparr>)"
  "mfix T s (s\<lparr>recursive_mutex_attrs := r\<rparr>)" "mfix T s s"
  by (simp_all add: mfix_def tid_of_def)

lemma mfix_trans: "mfix T s s' \<Longrightarrow> mfix T s' s'' \<Longrightarrow> mfix T s s''"
  by (simp add: mfix_def)

lemma mx_ok_info:
  "mx_ok v fs (st w) \<Longrightarrow> info (st w) q = Some t \<Longrightarrow> tid t' = tid t \<Longrightarrow>
   mx_ok v fs ((st w)\<lparr>info := (info (st w))(q \<mapsto> t')\<rparr>)"
  by (rule mx_ok_mfix [OF _ mfix_info])

text \<open>Frames that hold no lock in progress.\<close>

fun plain_frame :: "ifr \<Rightarrow> bool" where
  "plain_frame (MlSwitched key i q) = False"
| "plain_frame (MlWaited key i q) = False"
| "plain_frame _ = True"

lemma lock_key_plain: "list_all plain_frame fs \<Longrightarrow> lock_key (fs @ gs) = lock_key gs"
  by (induction fs rule: lock_key.induct) auto

lemma ml_frame_plain: "plain_frame f \<Longrightarrow> ml_frame p i f"
  by (cases f) auto

lemma mx_ok_plain:
  "list_all plain_frame fs \<Longrightarrow> mx_ok v (fs @ gs) s = mx_ok v gs s"
  by (auto simp: mx_ok_def lock_key_plain list_all_iff ml_frame_plain)

text \<open>A segment that leaves the mutexes and the tids alone and parks at plain frames.\<close>

definition fixseg :: "PthreadT set \<Rightarrow> State \<Rightarrow> unit seg \<Rightarrow> bool" where
  "fixseg T s m \<longleftrightarrow> outcome_sat (- {SubOverflow}) (\<lambda>_ w. mfix T s (st w))
     (\<lambda>_ fs w. mfix T s (st w) \<and> list_all plain_frame fs) m"

lemma fixseg_simps [simp]:
  "fixseg T s (Done u w) = mfix T s (st w)"
  "fixseg T s (Park q fs w) = (mfix T s (st w) \<and> list_all plain_frame fs)"
  "fixseg T s (Fault e) = (e \<noteq> SubOverflow)"
  by (simp_all add: fixseg_def)

lemma fixseg_icall:
  assumes "fixseg T s m" and "plain_frame f" and "\<And>w. mfix T s (st w) \<Longrightarrow> fixseg T s (k w)"
  shows "fixseg T s (icall m f k)"
  using assms by (cases m) auto

lemma fixseg_info_upd:
  assumes "mfix T s (st w)" and "\<And>t. tid (f t) = tid t" and "e \<noteq> SubOverflow"
    and "\<And>w'. mfix T s (st w') \<Longrightarrow> fixseg T s (k w')"
  shows "fixseg T s (info_upd e q f w k)"
proof (cases "info (st w) q")
  case (Some t)
  then have "mfix T s ((st w)\<lparr>info := (info (st w))(q \<mapsto> f t)\<rparr>)"
    using mfix_trans [OF assms(1) mfix_info [OF Some, of "f t"]] assms(2) by simp
  then show ?thesis using Some assms(4) by simp
qed (use assms in simp)

lemma mfix_stepI:
  "mfix T s s' \<Longrightarrow> mfix T s (s'\<lparr>sched := d\<rparr>)" "mfix T s s' \<Longrightarrow> mfix T s (s'\<lparr>pending_child := pc\<rparr>)"
  "mfix T s s' \<Longrightarrow> mfix T s (s'\<lparr>conds := x\<rparr>)" "mfix T s s' \<Longrightarrow> mfix T s (s'\<lparr>barriers := b\<rparr>)"
  by (auto intro: mfix_trans)

lemma mfix_infoI:
  "mfix T s s' \<Longrightarrow> info s' q = Some t \<Longrightarrow> tid t' = tid t \<Longrightarrow> mfix T s (s'\<lparr>info := (info s')(q \<mapsto> t')\<rparr>)"
  by (rule mfix_trans [OF _ mfix_info])

lemma fixseg_drain_loop: "mfix T s (st w) \<Longrightarrow> fixseg T s (drain_loop sa ch w)"
  by (auto simp: drain_loop_def Let_def split: option.split intro!: fixseg_info_upd)

lemma fixseg_drain: "mfix T s (st w) \<Longrightarrow> fixseg T s (drain_pending_child w)"
  by (auto simp: drain_pending_child_def split: option.split intro!: fixseg_drain_loop mfix_stepI)

lemma fixseg_wake: "mfix T s (st w) \<Longrightarrow> fixseg T s (wake nxt b caller w)"
  by (auto simp: wake_def Let_def split: option.split intro!: fixseg_info_upd)

lemma fixseg_wake_resume: "mfix T s (st w) \<Longrightarrow> fixseg T s (wake_resume caller w)"
  by (auto simp: wake_resume_def intro!: fixseg_info_upd)

lemma fixseg_after_wake: "mfix T s (st w) \<Longrightarrow> fixseg T s (cs_after_wake caller w)"
  by (auto simp: cs_after_wake_def Let_def intro!: mfix_stepI)

lemma State_choose_faults: "State_choose s = Inl e \<Longrightarrow> e \<noteq> SubOverflow"
proof -
  have "blocking_vec f pts = Inl e \<Longrightarrow> e \<noteq> SubOverflow" for f pts
    by (induction pts) (auto split: option.splits sum.splits)
  moreover have "dyn_choose d bs \<noteq> Inl e" for d bs
    using dyn.pick_total [of d bs] by (metis sum.distinct(1))
  ultimately show "State_choose s = Inl e \<Longrightarrow> e \<noteq> SubOverflow"
    by (auto simp: State_choose_def split: sum.splits)
qed

lemma fixseg_choose:
  assumes "mfix T s (st w)"
  shows "fixseg T s (cs_choose caller w)"
proof (cases "State_choose (st w)")
  case (Inl e)
  then show ?thesis using State_choose_faults by (simp add: cs_choose_def)
next
  case (Inr x)
  obtain r s' where x: "x = (r, s')" by (cases x)
  then obtain d where "s' = (st w)\<lparr>sched := d\<rparr>" using Inr State_choose_frame by blast
  then have "mfix T s s'" using assms by (auto intro: mfix_stepI)
  then show ?thesis using Inr x
    by (auto simp: cs_choose_def index_def split: option.split
        intro!: fixseg_icall fixseg_wake fixseg_after_wake)
qed

lemma fixseg_after_drain: "mfix T s (st w) \<Longrightarrow> fixseg T s (cs_after_drain caller w)"
  by (auto simp: cs_after_drain_def split: option.split intro!: mfix_infoI fixseg_choose)

lemma fixseg_context_switch: "mfix T s (st w) \<Longrightarrow> fixseg T s (context_switch caller w)"
  unfolding context_switch_def by (auto intro!: fixseg_icall fixseg_drain fixseg_after_drain)


lemma seg2_fix:
  assumes "fixseg (vT v) (st w) m" and "mx_ok v [] (st w)"
  shows "seg2 v m"
proof (cases m)
  case (Park q fs w')
  then have "mx_ok v [] (st w')" and "list_all plain_frame fs" using assms by (auto intro: mx_ok_mfix)
  then show ?thesis using Park mx_ok_plain [of fs v "[]"] by simp
qed (use assms in \<open>auto intro: mx_ok_mfix\<close>)

section \<open>Locking\<close>

lemma mx_inv_locking:
  assumes "mx_inv T (lk(p := None)) s" and "p \<in> T"
  shows "mx_inv T (lk(p := x)) s"
proof -
  have "mx_entry (lk(p := x)) s key mu" if "mutexes s key = Some mu" for key mu
  proof -
    have "mx_entry (lk(p := None)) s key mu" using assms that by (simp add: mx_inv_def)
    moreover have "(lk(p := None)) q = Some key \<Longrightarrow> (lk(p := x)) q = Some key" for q
      by (auto split: if_splits)
    ultimately show ?thesis unfolding mx_entry_def by metis
  qed
  then show ?thesis using assms unfolding mx_inv_def by auto
qed

lemma mx_ok_enter: "mx_ok v [] s \<Longrightarrow> mx_inv (vT v) ((vlk v)(vp v := Some key)) s"
  unfolding mx_ok_def by (auto intro: mx_inv_locking)

text \<open>The view of a thread inside \<open>mutex_lock\<close> for \<open>key\<close>, before it has decided anything.\<close>

definition mx_locking :: "view \<Rightarrow> usize \<Rightarrow> State \<Rightarrow> bool" where
  "mx_locking v key s \<longleftrightarrow> vp v \<in> vT v \<and> tid_of s (vp v) = Some (vi v)
     \<and> mx_inv (vT v) ((vlk v)(vp v := Some key)) s \<and> foreign (vi v) (vs v) s
     \<and> same_tids (vT v) (vs v) s"

lemma mx_locking_enter: "mx_ok v [] s \<Longrightarrow> mx_locking v key s"
  using mx_ok_enter [of v s key] by (simp add: mx_ok_def mx_locking_def)

lemma mx_locking_frames:
  "lock_key fs = Some key \<Longrightarrow> list_all (ml_frame (vp v) (vi v)) fs \<Longrightarrow> mx_ok v fs s = mx_locking v key s"
  by (simp add: mx_ok_def mx_locking_def)

lemma mx_locking_mfix: "mx_locking v key s \<Longrightarrow> mfix (vT v) s s' \<Longrightarrow> mx_locking v key s'"
  unfolding mx_locking_def by (auto intro: mx_inv_mfix simp: mfix_def foreign_def same_tids_def)

lemma mutex_entry_ok:
  assumes lck: "mx_locking v key s" and e: "e = mutex_entry key (vi v) s"
  shows "distinct (m_waiters e)"
    and "q \<in> set (m_waiters e) \<Longrightarrow> ((vlk v)(vp v := Some key)) q = Some key \<and> tid_of s q \<noteq> Some (owner_tid e)"
    and "owner_tid e \<noteq> vi v \<Longrightarrow> mx_entry ((vlk v)(vp v := Some key)) s key e"
proof -
  have "m_waiters e = [] \<and> owner_tid e = vi v \<or> mx_entry ((vlk v)(vp v := Some key)) s key e"
  proof (cases "mutexes s key")
    case None
    then show ?thesis using e by (simp add: mutex_entry_def)
  next
    case (Some mu)
    then have "mx_entry ((vlk v)(vp v := Some key)) s key mu"
      using lck unfolding mx_locking_def mx_inv_def by blast
    then show ?thesis using e Some by (simp add: mutex_entry_def)
  qed
  then show "distinct (m_waiters e)"
    and "q \<in> set (m_waiters e) \<Longrightarrow> ((vlk v)(vp v := Some key)) q = Some key \<and> tid_of s q \<noteq> Some (owner_tid e)"
    and "owner_tid e \<noteq> vi v \<Longrightarrow> mx_entry ((vlk v)(vp v := Some key)) s key e"
    unfolding mx_entry_def by auto
qed

lemma tid_of_mutexes [simp]: "tid_of (s\<lparr>mutexes := m\<rparr>) = tid_of s"
  by (rule ext) (simp add: tid_of_def)

lemma same_tids_mutexes [simp]: "same_tids T s (s'\<lparr>mutexes := m\<rparr>) = same_tids T s s'"
  by (simp add: same_tids_def)

lemma mx_entry_mutexes [simp]: "mx_entry lk (s\<lparr>mutexes := m\<rparr>) key mu = mx_entry lk s key mu"
  by (simp add: mx_entry_def)

lemma mx_inv_put:
  assumes inv: "mx_inv T lk0 s" and T: "\<And>q. lk q \<noteq> None \<Longrightarrow> q \<in> T" and e: "mx_entry lk s key e"
    and old: "\<And>key' mu. mutexes s key' = Some mu \<Longrightarrow> key' \<noteq> key \<Longrightarrow> mx_entry lk s key' mu"
  shows "mx_inv T lk (s\<lparr>mutexes := (mutexes s)(key \<mapsto> e)\<rparr>)"
proof -
  have "mx_entry lk s key' mu" if "((mutexes s)(key \<mapsto> e)) key' = Some mu" for key' mu
    using that e old by (cases "key' = key") simp_all
  then show ?thesis using inv T by (simp add: mx_inv_def del: fun_upd_apply)
qed

lemma foreign_trans: "foreign i s s' \<Longrightarrow> foreign i s' s'' \<Longrightarrow> foreign i s s''"
  unfolding foreign_def by metis

lemma foreign_put:
  assumes "\<And>mu. mutexes s key = Some mu \<Longrightarrow> owner_tid mu \<noteq> i \<Longrightarrow>
      owner_tid e = owner_tid mu \<and> recursive_count e = recursive_count mu"
  shows "foreign i s (s\<lparr>mutexes := (mutexes s)(key \<mapsto> e)\<rparr>)"
  using assms by (simp add: foreign_def)

lemma lock_taken:
  assumes lck: "mx_locking v key s" and e: "e = mutex_entry key (vi v) s" and own: "owner_tid e = vi v"
    and n: "n \<noteq> 0"
  shows "mx_ok v [] (s\<lparr>mutexes := (mutexes s)(key \<mapsto> e\<lparr>recursive_count := n\<rparr>)\<rparr>)"
proof -
  let ?lk = "(vlk v)(vp v := None)" and ?e = "e\<lparr>recursive_count := n\<rparr>"
  have tid: "tid_of s (vp v) = Some (vi v)" and inv: "mx_inv (vT v) ((vlk v)(vp v := Some key)) s"
    using lck by (simp_all add: mx_locking_def)
  have lk: "?lk q = Some k'" if "((vlk v)(vp v := Some key)) q = Some k'" and "q \<noteq> vp v" for q k'
    using that by simp
  have new: "mx_entry ?lk s key ?e"
    unfolding mx_entry_def using mutex_entry_ok(1,2) [OF lck e] own tid n lk by fastforce
  have old: "mx_entry ?lk s key' mu" if mu: "mutexes s key' = Some mu" and ne: "key' \<noteq> key" for key' mu
  proof -
    have "mx_entry ((vlk v)(vp v := Some key)) s key' mu" using inv mu by (simp add: mx_inv_def)
    moreover have "((vlk v)(vp v := Some key)) q = Some key' \<Longrightarrow> ?lk q = Some key'" for q
      using ne by (auto split: if_splits)
    ultimately show ?thesis unfolding mx_entry_def by metis
  qed
  have "q \<in> vT v" if "?lk q \<noteq> None" for q
    using inv that unfolding mx_inv_def by (auto split: if_splits)
  then have "mx_inv (vT v) ?lk (s\<lparr>mutexes := (mutexes s)(key \<mapsto> ?e)\<rparr>)"
    using new old by (rule mx_inv_put [OF inv])
  moreover have "foreign (vi v) s (s\<lparr>mutexes := (mutexes s)(key \<mapsto> ?e)\<rparr>)"
    by (rule foreign_put) (use own e in \<open>auto simp: mutex_entry_def\<close>)
  ultimately show ?thesis using lck foreign_trans by (simp add: mx_ok_def mx_locking_def) blast
qed

lemma lock_queued:
  assumes lck: "mx_locking v key s" and e: "e = mutex_entry key (vi v) s" and own: "owner_tid e \<noteq> vi v"
  shows "mx_locking v key (s\<lparr>mutexes := (mutexes s)(key \<mapsto> e\<lparr>m_waiters := push_absent (vp v) (m_waiters e)\<rparr>)\<rparr>)"
proof -
  let ?lk = "(vlk v)(vp v := Some key)" and ?e = "e\<lparr>m_waiters := push_absent (vp v) (m_waiters e)\<rparr>"
  have tid: "tid_of s (vp v) = Some (vi v)" and inv: "mx_inv (vT v) ?lk s"
    using lck by (simp_all add: mx_locking_def)
  have "mx_entry ?lk s key ?e"
    using mutex_entry_ok [OF lck e] own tid unfolding mx_entry_def by auto
  then have "mx_inv (vT v) ?lk (s\<lparr>mutexes := (mutexes s)(key \<mapsto> ?e)\<rparr>)"
    by (rule mx_inv_put [OF inv, rotated]) (use inv in \<open>simp_all only: mx_inv_def, blast+\<close>)
  moreover have "foreign (vi v) s (s\<lparr>mutexes := (mutexes s)(key \<mapsto> ?e)\<rparr>)"
    by (rule foreign_put) (use own e in \<open>auto simp: mutex_entry_def\<close>)
  ultimately show ?thesis using lck foreign_trans by (simp add: mx_locking_def) blast
qed

lemma chk_add_nonzero: "chk_add True (a :: 'a::len word) 1 = Inr c \<Longrightarrow> c \<noteq> 0"
proof
  assume "chk_add True a 1 = Inr c" and "c = 0"
  then have "unat (0 :: 'a word) = unat a + unat (1 :: 'a word)" using chk_add_exact by blast
  then show False by simp
qed

lemma chk_add_fault: "chk_add oc a b = Inl e \<Longrightarrow> e = AddOverflow"
  by (auto simp: chk_add_def split: if_splits)

lemma seg2_ml_self:
  assumes "mx_locking v key (st w)" and "is_blocking t" and "info (st w) (vp v) = Some t"
  shows "seg2 v (ml_switched True key (vi v) (vp v) w)"
proof -
  have "mx_locking v key ((st w)\<lparr>info := (info (st w))(vp v \<mapsto> t\<lparr>is_in_rsched_wait := True\<rparr>)\<rparr>)"
    by (rule mx_locking_mfix [OF assms(1) mfix_info]) (use assms in simp_all)
  then show ?thesis using assms by (simp add: ml_switched_def mx_locking_frames [of _ key])
qed

lemma seg2_lock_loop:
  assumes lck: "mx_locking v key (st w)"
  shows "seg2 v (mutex_lock_loop True key (vi v) (vp v) w)"
proof -
  let ?e = "mutex_entry key (vi v) (st w)"
  obtain t where t: "info (st w) (vp v) = Some t" using lck by (auto simp: mx_locking_def tid_of_def)
  show ?thesis
  proof (cases "owner_tid ?e = vi v")
    case True
    have "mx_ok v [] ((st w)\<lparr>mutexes := (mutexes (st w))(key \<mapsto> ?e\<lparr>recursive_count := n\<rparr>)\<rparr>)"
      if "n \<noteq> 0" for n using lock_taken [OF lck refl True that] .
    then show ?thesis using True chk_add_nonzero [of "recursive_count ?e"] chk_add_fault
      by (cases "chk_add True (recursive_count ?e) 1")
         (fastforce simp: mutex_lock_loop_unfold Let_def)+
  next
    case False
    let ?w = "put_mutex key (?e\<lparr>m_waiters := push_absent (vp v) (m_waiters ?e)\<rparr>) w"
    let ?v = "?w\<lparr>st := (st ?w)\<lparr>info := (info (st ?w))(vp v \<mapsto> t\<lparr>is_blocking := True\<rparr>)\<rparr>\<rparr>"
    have "mx_locking v key (st ?w)" using lock_queued [OF lck refl False] by simp
    then have lv: "mx_locking v key (st ?v)"
      using mx_locking_mfix [OF _ mfix_info [of "st ?w" "vp v" t]] t by simp
    have cs: "fixseg (vT v) (st ?v) (context_switch (vp v) ?v)" by (rule fixseg_context_switch) simp
    have flag: "blocking_flags (st ?v) (vp v) = Some True" by (simp add: blocking_flags_def)
    have "seg2 v (icall (context_switch (vp v) ?v) (MlSwitched key (vi v) (vp v)) (ml_switched True key (vi v) (vp v)))"
    proof (cases "context_switch (vp v) ?v")
      case (Done u w2)
      then have l2: "mx_locking v key (st w2)" using cs lv by (auto intro: mx_locking_mfix)
      have "blocking_flags (st w2) (vp v) = Some True"
        using flag context_switch_Done_blocking [of "vp v" ?v w2] Done by simp
      then show ?thesis using Done l2 by (auto simp: blocking_flags_def intro: seg2_ml_self)
    next
      case (Park q fs w2)
      then have "mx_locking v key (st w2)" and "list_all plain_frame fs" using cs lv by (auto intro: mx_locking_mfix)
      then show ?thesis using Park
        by (simp add: mx_ok_plain mx_locking_frames [of _ key])
    next
      case (Fault e)
      then show ?thesis using cs by simp
    qed
    then show ?thesis using False t by (simp add: mutex_lock_loop_unfold Let_def)
  qed
qed

lemma seg2_mutex_lock:
  assumes ok: "mx_ok v [] (st w)"
  shows "seg2 v (mutex_lock True key (vp v) w)"
proof -
  obtain t where "info (st w) (vp v) = Some t" "tid t = vi v" using ok by (auto simp: mx_ok_def tid_of_def)
  then show ?thesis using seg2_lock_loop [OF mx_locking_enter [OF ok]] by (simp add: mutex_lock_def)
qed


section \<open>Unlocking\<close>

text \<open>A thread outside \<open>mutex_lock\<close> owns its mutexes with a positive count.\<close>

lemma own_count_positive:
  assumes ok: "mx_ok v [] s" and mu: "mutexes s key = Some mu" and own: "owner_tid mu = vi v"
  shows "recursive_count mu \<noteq> 0"
proof
  assume "recursive_count mu = 0"
  let ?lk = "(vlk v)(vp v := None)"
  have inv: "mx_inv (vT v) ?lk s" and p: "vp v \<in> vT v" "tid_of s (vp v) = Some (vi v)"
    using ok by (simp_all add: mx_ok_def)
  then have "mx_entry ?lk s key mu" using mu unfolding mx_inv_def by blast
  then obtain q where q: "tid_of s q = Some (vi v)" "?lk q = Some key"
    using \<open>recursive_count mu = 0\<close> unfolding mx_entry_def own by blast
  then have "q \<in> vT v" using inv unfolding mx_inv_def by blast
  then have "q = vp v" using inv p q(1) unfolding mx_inv_def inj_on_def by metis
  then show False using q(2) by simp
qed

lemma mx_ok_put:
  assumes ok: "mx_ok v [] s" and e: "mx_entry ((vlk v)(vp v := None)) s key e"
    and own: "\<And>mu. mutexes s key = Some mu \<Longrightarrow> owner_tid mu = vi v"
  shows "mx_ok v [] (s\<lparr>mutexes := (mutexes s)(key \<mapsto> e)\<rparr>)"
proof -
  let ?lk = "(vlk v)(vp v := None)"
  have inv: "mx_inv (vT v) ?lk s" using ok by (simp add: mx_ok_def)
  have "mx_inv (vT v) ?lk (s\<lparr>mutexes := (mutexes s)(key \<mapsto> e)\<rparr>)"
    by (rule mx_inv_put [OF inv _ e]) (use inv in \<open>simp_all only: mx_inv_def, blast+\<close>)
  moreover have "foreign (vi v) s (s\<lparr>mutexes := (mutexes s)(key \<mapsto> e)\<rparr>)"
    by (rule foreign_put) (use own in auto)
  ultimately show ?thesis using ok foreign_trans by (simp add: mx_ok_def) blast
qed

lemma mx_ok_remove:
  assumes ok: "mx_ok v [] s" and own: "\<And>mu. mutexes s key = Some mu \<Longrightarrow> owner_tid mu = vi v"
  shows "mx_ok v [] (s\<lparr>mutexes := (mutexes s)(key := None)\<rparr>)"
proof -
  have "foreign (vi v) s (s\<lparr>mutexes := (mutexes s)(key := None)\<rparr>)" using own by (auto simp: foreign_def)
  moreover have "mx_inv (vT v) ((vlk v)(vp v := None)) (s\<lparr>mutexes := (mutexes s)(key := None)\<rparr>)"
    using ok by (simp add: mx_ok_def mx_inv_def)
  ultimately show ?thesis using ok foreign_trans by (simp add: mx_ok_def) blast
qed

lemma mx_entryD:
  assumes "mx_ok v [] s" and "mutexes s key = Some mu"
  shows "mx_entry ((vlk v)(vp v := None)) s key mu"
  using assms unfolding mx_ok_def mx_inv_def lock_key.simps by blast

text \<open>The count of zero during the hand-over is never stored without its new owner.\<close>

lemma hand_over2:
  assumes ok: "mx_ok v [] s" and mu: "mutexes s key = Some mu" and own: "owner_tid mu = vi v"
    and ne: "m_waiters mu \<noteq> []"
    and ho: "hand_over key (mu\<lparr>recursive_count := 0\<rparr>) (s\<lparr>mutexes := (mutexes s)(key \<mapsto> mu\<lparr>recursive_count := 0\<rparr>)\<rparr>) = Inr s'"
  shows "mx_ok v [] s'"
proof -
  let ?lk = "(vlk v)(vp v := None)"
  have inv: "mx_inv (vT v) ?lk s" using ok by (simp add: mx_ok_def)
  note e = mx_entryD [OF ok mu]
  have "0 < length (m_waiters mu)" using ne by simp
  then obtain idx d where ch: "dyn_choose (sched s) (replicate (length (m_waiters mu)) False) = Inr (Some idx, d)"
    and i: "idx < length (m_waiters mu)" by (rule dyn.pick_waiter)
  let ?q = "m_waiters mu ! idx"
  have q: "?lk ?q = Some key" using e i unfolding mx_entry_def by simp
  then have qT: "?q \<in> vT v" using inv unfolding mx_inv_def by blast
  then obtain t where t: "info s ?q = Some t" using inv by (auto simp: mx_inv_def tid_of_def)
  let ?mu = "mu\<lparr>recursive_count := 0, m_waiters := remove_at idx (m_waiters mu), owner_tid := tid t\<rparr>"
  have "tid_of s r \<noteq> Some (tid t)" if "r \<in> set (remove_at idx (m_waiters mu))" for r
  proof -
    have "r \<in> set (m_waiters mu)" and "r \<noteq> ?q"
      using that set_remove_at_distinct [of "m_waiters mu" idx] e i unfolding mx_entry_def by auto
    then have "r \<in> vT v" using e inv unfolding mx_entry_def mx_inv_def by blast
    moreover have "inj_on (tid_of s) (vT v)" using inv by (simp add: mx_inv_def)
    ultimately have "tid_of s r \<noteq> tid_of s ?q" using qT \<open>r \<noteq> ?q\<close> by (auto dest: inj_onD)
    then show ?thesis using t by (simp add: tid_of_def)
  qed
  then have "mx_entry ?lk s key ?mu"
    using e q t set_remove_at_subset [of idx "m_waiters mu"] unfolding mx_entry_def
    by (auto simp: tid_of_def simp del: fun_upd_apply)
  then have "mx_ok v [] (s\<lparr>mutexes := (mutexes s)(key \<mapsto> ?mu)\<rparr>)"
    using mu own by (intro mx_ok_put [OF ok]) auto
  then have "mx_ok v [] ((s\<lparr>mutexes := (mutexes s)(key \<mapsto> ?mu)\<rparr>)\<lparr>sched := d\<rparr>)" by (rule mx_ok_mfix) simp
  moreover have "mfix (vT v) ((s\<lparr>mutexes := (mutexes s)(key \<mapsto> ?mu)\<rparr>)\<lparr>sched := d\<rparr>) s'"
    using ho ch i t by (auto simp: hand_over_def State_t_upd_def mfix_def tid_of_def)
  ultimately show ?thesis by (rule mx_ok_mfix)
qed

lemma hand_over_fault: "hand_over key mu s = Inl e \<Longrightarrow> e \<noteq> SubOverflow"
  using dyn.pick_total [of "sched s" "replicate (length (m_waiters mu)) False"]
  by (auto simp: hand_over_def State_t_upd_def index_def split: sum.splits option.splits if_splits)

lemma mutex_unlock2:
  assumes ok: "mx_ok v [] s"
  shows "case mutex_unlock True key (vp v) s of Inl e \<Rightarrow> e \<noteq> SubOverflow | Inr (r, s') \<Rightarrow> mx_ok v [] s'"
proof -
  obtain t where t: "info s (vp v) = Some t" "tid t = vi v" using ok by (auto simp: mx_ok_def tid_of_def)
  show ?thesis
  proof (cases "mutexes s key")
    case None
    then show ?thesis using t ok by (simp add: mutex_unlock_def)
  next
    case (Some mu)
    show ?thesis
    proof (cases "owner_tid mu = vi v")
      case False
      then show ?thesis using t Some ok by (simp add: mutex_unlock_def)
    next
      case True
      have pos: "recursive_count mu \<noteq> 0" using own_count_positive [OF ok Some True] .
      then have "1 \<le> recursive_count mu" by (simp add: word_le_nat_alt unat_gt_0 Suc_le_eq)
      then have sub: "chk_sub True (recursive_count mu) 1 = Inr (recursive_count mu - 1)" by simp
      let ?c = "recursive_count mu - 1"
      let ?s = "s\<lparr>mutexes := (mutexes s)(key \<mapsto> mu\<lparr>recursive_count := ?c\<rparr>)\<rparr>"
      have put: "mx_ok v [] ?s" if "?c \<noteq> 0"
        using mx_entryD [OF ok Some] that Some True by (intro mx_ok_put [OF ok]) (auto simp: mx_entry_def)
      have del: "mx_ok v [] (s\<lparr>mutexes := (mutexes s)(key := None)\<rparr>)"
        using Some True by (intro mx_ok_remove [OF ok]) auto
      have ho: "mx_ok v [] s'" if "?c = 0" "m_waiters mu \<noteq> []"
          "hand_over key (mu\<lparr>recursive_count := 0\<rparr>) (s\<lparr>mutexes := (mutexes s)(key \<mapsto> mu\<lparr>recursive_count := 0\<rparr>)\<rparr>) = Inr s'" for s'
        using hand_over2 [OF ok Some True that(2,3)] .
      show ?thesis
      proof (cases "?c = 0")
        case c0: True
        then show ?thesis using t Some True sub del ho hand_over_fault
          by (auto simp: mutex_unlock_def Let_def split: sum.splits)
      next
        case False
        then show ?thesis using t Some True sub put
          by (simp add: mutex_unlock_def Let_def word_gt_0)
      qed
    qed
  qed
qed

end
