(* ===== verification/Rsched_Ownership.thy ===== *)
theory Rsched_Ownership
  imports Rsched_Owner
begin

text \<open>
  Every exported operation, and every resumption, respects the ownership of mutexes (\<open>api2\<close>); hence
  the invariant \<open>own_inv\<close> of whole runs in a build with overflow checks.
\<close>

section \<open>Rules\<close>

lemma api2_ocall:
  assumes "seg2 v m" and "\<And>w. mx_ok v [] (st w) \<Longrightarrow> api2 v (k w)"
  shows "api2 v (ocall m f k)"
  using assms by (cases m) auto

lemma api2_fix:
  assumes "mx_ok v [] (st w)" and "fixseg (vT v) (st w) m" and "\<And>w. mx_ok v [] (st w) \<Longrightarrow> api2 v (k w)"
  shows "api2 v (ocall m f k)"
  using assms by (intro api2_ocall seg2_fix)

lemma api2_switch:
  "mx_ok v [] (st w) \<Longrightarrow> (\<And>w. mx_ok v [] (st w) \<Longrightarrow> api2 v (k w)) \<Longrightarrow>
   api2 v (ocall (context_switch p w) f k)"
  by (rule api2_fix) (auto intro: fixseg_context_switch)

text \<open>A step on the state that leaves mutexes and tids alone.\<close>

definition mstep_fix :: "PthreadT set \<Rightarrow> State \<Rightarrow> fault + State \<Rightarrow> bool" where
  "mstep_fix T s r \<longleftrightarrow> (case r of Inl e \<Rightarrow> e \<noteq> SubOverflow | Inr s' \<Rightarrow> mfix T s s')"

lemma mstep_fix_simps [simp]:
  "mstep_fix T s (Inl e) = (e \<noteq> SubOverflow)" "mstep_fix T s (Inr s') = mfix T s s'"
  by (simp_all add: mstep_fix_def)

lemma mstep_fix_upd:
  "mfix T s s1 \<Longrightarrow> (\<And>t. tid (f t) = tid t) \<Longrightarrow> mstep_fix T s (State_t_upd q f s1)"
  by (cases "info s1 q") (auto simp: State_t_upd_def intro: mfix_infoI)

lemma api2_on_st:
  assumes "mx_ok v [] (st w)" and "mstep_fix (vT v) (st w) (f (st w))"
    and "\<And>w. mx_ok v [] (st w) \<Longrightarrow> api2 v (k w)"
  shows "api2 v (on_st f w k)"
proof (cases "f (st w)")
  case (Inr s')
  then have "mx_ok v [] s'" using assms(1,2) by (auto intro: mx_ok_mfix)
  then show ?thesis using Inr assms(3) by (simp add: on_st_def)
qed (use assms in \<open>simp add: on_st_def\<close>)

lemma api2_set_event:
  "mx_ok v [] (st w) \<Longrightarrow> (\<And>w. mx_ok v [] (st w) \<Longrightarrow> api2 v (k w)) \<Longrightarrow> api2 v (on_st (set_event q ev) w k)"
  by (rule api2_on_st) (auto simp: set_event_def intro: mstep_fix_upd)

lemma api2_clear_event: "mx_ok v [] (st w) \<Longrightarrow> api2 v (on_st (clear_event q) w (Done r))"
  by (rule api2_on_st) (auto simp: clear_event_def intro: mstep_fix_upd)

lemma api2_info_upd:
  assumes "mx_ok v [] (st w)" and "\<And>t. tid (f t) = tid t" and "e \<noteq> SubOverflow"
    and "\<And>w. mx_ok v [] (st w) \<Longrightarrow> api2 v (k w)"
  shows "api2 v (info_upd e q f w k)"
proof (cases "info (st w) q")
  case (Some t)
  have "mx_ok v [] ((st w)\<lparr>info := (info (st w))(q \<mapsto> f t)\<rparr>)"
    by (rule mx_ok_info [OF assms(1) Some assms(2)])
  then show ?thesis using Some assms(4) by simp
qed (use assms(3) in simp)

lemma mx_ok_info_self:
  assumes "mx_ok v fs s"
  obtains t where "info s (vp v) = Some t" "tid t = vi v"
  using assms by (auto simp: mx_ok_def tid_of_def)

section \<open>Operations\<close>

lemma api2_lock_switched:
  assumes "overflow_checks env" and "mx_ok v [] (st w)"
  shows "api2 v (lock_switched env (vp v) lock w)"
proof -
  have "api2 v (lock_finish env (vp v) lock w)" if "mx_ok v [] (st w)" for w
    using that by (simp add: lock_finish_def Let_def api2_clear_event)
  then show ?thesis using assms by (auto simp: lock_switched_def intro!: api2_ocall seg2_mutex_lock)
qed

lemma api2_mutex_lock:
  assumes oc: "overflow_checks env" and "mx_ok v [] (st w)"
  shows "api2 v (rsched_pthread_mutex_lock env (vp v) lock ra w)"
  unfolding rsched_pthread_mutex_lock_def
proof (rule api2_set_event [OF assms(2)])
  fix w1 :: world assume ok: "mx_ok v [] (st w1)"
  obtain t where "info (st w1) (vp v) = Some t" using ok by (rule mx_ok_info_self)
  then show "api2 v (case info (st w1) (vp v) of None \<Rightarrow> Fault no_entry | Some t \<Rightarrow>
      if \<not> will_block (st w1) lock (tid t)
      then ocall (context_switch (vp v) w1) (LockSwitched lock) (lock_switched env (vp v) lock)
      else lock_switched env (vp v) lock w1)"
    using ok oc by (auto intro!: api2_switch api2_lock_switched)
qed

lemma api2_trylock_switched:
  assumes "overflow_checks env" and ok: "mx_ok v [] (st w)"
  shows "api2 v (trylock_switched env (vp v) lock w)"
proof -
  obtain t where "info (st w) (vp v) = Some t" using ok by (rule mx_ok_info_self)
  then show ?thesis using api2_lock_switched [OF assms] api2_clear_event [OF ok]
    by (simp add: trylock_switched_def)
qed

lemma api2_mutex_trylock:
  "overflow_checks env \<Longrightarrow> mx_ok v [] (st w) \<Longrightarrow> api2 v (rsched_pthread_mutex_trylock env (vp v) lock ra w)"
  unfolding rsched_pthread_mutex_trylock_def
  by (rule api2_set_event) (auto intro!: api2_switch api2_trylock_switched)

lemma api2_unlock:
  assumes "overflow_checks env" and ok: "mx_ok v [] (st w)"
    and "\<And>r s. mx_ok v [] s \<Longrightarrow> api2 v (k (r, s))"
  shows "api2 v (attempt (mutex_unlock (overflow_checks env) lock (vp v) (st w)) k)"
  using mutex_unlock2 [OF ok, of lock] assms
  by (cases "mutex_unlock True lock (vp v) (st w)") auto

lemma api2_mutex_unlock:
  assumes "overflow_checks env" and "mx_ok v [] (st w)"
  shows "api2 v (rsched_pthread_mutex_unlock env (vp v) lock ra w)"
  unfolding rsched_pthread_mutex_unlock_def
  by (rule api2_set_event [OF assms(2)], rule api2_unlock [OF assms(1)])
     (auto simp: Let_def unlock_switched_def simp del: api2_simps intro!: api2_clear_event api2_switch)

lemma api2_cw_relock:
  assumes "overflow_checks env" and "mx_ok v [] (st w)"
  shows "api2 v (cw_relock env (vp v) lock w)"
  using assms unfolding cw_relock_def
  by (auto intro!: api2_ocall seg2_mutex_lock simp: cw_finish_def Let_def)

text \<open>The wait of a caller that is still blocking.\<close>

lemma api2_self_wait:
  "mx_ok v [] (st w) \<Longrightarrow> api2 v (info_upd unknown_thread q (\<lambda>t. t\<lparr>is_in_rsched_wait := b\<rparr>) w
     (Park (SuspendCond r) ([], f)))"
  by (rule api2_info_upd) auto

lemma api2_cw_switched2:
  assumes "overflow_checks env" and ok: "mx_ok v [] (st w)"
  shows "api2 v (cw_switched2 env (vp v) lock w)"
proof -
  obtain t where "info (st w) (vp v) = Some t" using ok by (rule mx_ok_info_self)
  then show ?thesis unfolding cw_switched2_def
    using api2_cw_relock [OF assms] api2_self_wait [OF ok, of "vp v" True "vp v" "CwWaited lock"]
    by (simp del: api2_simps)
qed

lemma mx_ok_cond_push: "mx_ok v [] (st w) \<Longrightarrow> mx_ok v [] (st (cond_push cond q w))"
  by (simp add: cond_push_def Let_def) (erule mx_ok_mfix, simp)

lemma api2_cw_switched1:
  assumes "overflow_checks env" and ok: "mx_ok v [] (st w)"
  shows "api2 v (cw_switched1 env (vp v) cond lock w)"
  unfolding cw_switched1_def
proof (rule api2_unlock [OF assms])
  fix r s assume "mx_ok v [] s"
  then show "api2 v (case (r, s) of (r, s) \<Rightarrow> let w1 = w\<lparr>st := s\<rparr>; real_unlock = rp_mutex_unlock env lock
       in if r \<noteq> 0 then Done (Ret r) w1
          else if real_unlock \<noteq> 0 then Done (Ret real_unlock) w1
          else info_upd unknown_thread (vp v) (\<lambda>t. t\<lparr>is_blocking := True\<rparr>) (cond_push cond (vp v) w1)
                 (\<lambda>w2. ocall (context_switch (vp v) w2) (CwSwitched2 lock) (cw_switched2 env (vp v) lock)))"
    using assms(1) by (auto simp: Let_def intro!: api2_info_upd mx_ok_cond_push api2_switch api2_cw_switched2)
qed

lemma api2_cond_wait:
  assumes "overflow_checks env" and ok: "mx_ok v [] (st w)"
  shows "api2 v (rsched_pthread_cond_wait env (vp v) cond lock w)"
proof -
  obtain t where "info (st w) (vp v) = Some t" using ok by (rule mx_ok_info_self)
  then show ?thesis unfolding rsched_pthread_cond_wait_def
    using assms by (auto simp del: api2_simps intro!: api2_switch api2_cw_switched1)
qed

lemma mstep_fix_unblock_all: "mfix T s s1 \<Longrightarrow> mstep_fix T s (unblock_all ws s1)"
proof (induction ws arbitrary: s1)
  case (Cons w ws)
  have "mstep_fix T s (State_t_upd w (\<lambda>t. t\<lparr>is_blocking := False\<rparr>) s1)"
    using Cons.prems by (rule mstep_fix_upd) simp
  then show ?case using Cons.IH by (auto split: sum.split)
qed simp

lemma dyn_choose_no_fault: "dyn_choose d bs \<noteq> Inl e"
  using dyn.pick_total [of d bs] by (metis sum.distinct(1))

lemma mstep_fix_signal: "mstep_fix T s (signal_waiter cond s)"
  by (auto simp: signal_waiter_def index_def dyn_choose_no_fault
      split: option.split sum.split intro!: mstep_fix_upd mfix_stepI)

lemma mstep_fix_broadcast: "mstep_fix T s (broadcast_waiters cond s)"
  by (auto simp: broadcast_waiters_def split: option.split intro!: mstep_fix_unblock_all)

lemma api2_cond_signal: "mx_ok v [] (st w) \<Longrightarrow> api2 v (rsched_pthread_cond_signal p cond w)"
  unfolding rsched_pthread_cond_signal_def
  by (rule api2_on_st [where f = "signal_waiter cond"])
     (auto intro!: api2_switch simp: signal_switched_def mstep_fix_signal)

lemma api2_cond_broadcast: "mx_ok v [] (st w) \<Longrightarrow> api2 v (rsched_pthread_cond_broadcast p cond w)"
  unfolding rsched_pthread_cond_broadcast_def
  by (rule api2_on_st [where f = "broadcast_waiters cond"])
     (auto intro!: api2_switch simp: signal_switched_def mstep_fix_broadcast)

lemma api2_barrier_init_switched: "mx_ok v [] (st w) \<Longrightarrow> api2 v (barrier_init_switched env b n w)"
  by (auto simp: barrier_init_switched_def Let_def elim: mx_ok_mfix)

lemma api2_barrier_switched:
  assumes ok: "mx_ok v [] (st w)"
  shows "api2 v (barrier_switched (vp v) released w)"
proof -
  obtain t where "info (st w) (vp v) = Some t" using ok by (rule mx_ok_info_self)
  then show ?thesis unfolding barrier_switched_def
    using api2_self_wait [OF ok, of "vp v" True "vp v" "BarrierWaited released"] ok by simp
qed

lemma mstep_fix_arrive: "mstep_fix T s (map_sum id snd (barrier_arrive barrier p b s))"
proof -
  let ?b = "b\<lparr>b_waiters := push_absent p (b_waiters b)\<rparr>"
  let ?s = "s\<lparr>barriers := (barriers s)(barrier \<mapsto> ?b)\<rparr>"
  let ?s2 = "?s\<lparr>barriers := (barriers ?s)(barrier \<mapsto> ?b\<lparr>b_waiters := []\<rparr>)\<rparr>"
  have mark: "mstep_fix T s (State_t_upd p (\<lambda>t. t\<lparr>is_blocking := True\<rparr>) ?s)"
    by (rule mstep_fix_upd) simp_all
  have release: "mstep_fix T s (unblock_all (b_waiters ?b) ?s2)"
    by (intro mstep_fix_unblock_all mfix_stepI mfix_other)
  show ?thesis
  proof (cases "length (b_waiters ?b) < unat (b_count b)")
    case True
    then show ?thesis using mark
      by (cases "State_t_upd p (\<lambda>t. t\<lparr>is_blocking := True\<rparr>) ?s") (simp_all add: barrier_arrive_def Let_def)
  next
    case False
    then show ?thesis using release
      by (cases "unblock_all (b_waiters ?b) ?s2") (simp_all add: barrier_arrive_def Let_def)
  qed
qed

lemma api2_barrier_drained:
  assumes ok: "mx_ok v [] (st w)"
  shows "api2 v (barrier_drained (vp v) barrier w)"
proof (cases "barriers (st w) barrier")
  case (Some b)
  have "mstep_fix (vT v) (st w) (map_sum id snd (barrier_arrive barrier (vp v) b (st w)))"
    by (rule mstep_fix_arrive)
  then show ?thesis using Some ok
    by (cases "barrier_arrive barrier (vp v) b (st w)")
       (auto simp: barrier_drained_def intro!: api2_switch api2_barrier_switched elim: mx_ok_mfix)
qed (use ok in \<open>simp add: barrier_drained_def\<close>)

lemma api2_barrier_wait: "mx_ok v [] (st w) \<Longrightarrow> api2 v (rsched_pthread_barrier_wait (vp v) barrier w)"
  unfolding rsched_pthread_barrier_wait_def
  by (rule api2_fix) (auto intro: fixseg_drain api2_barrier_drained)

lemma api2_yield: "mx_ok v [] (st w) \<Longrightarrow> api2 v (rsched_sched_yield p ra w)"
  unfolding rsched_sched_yield_def
  by (rule api2_set_event) (auto simp: yield_switched_def simp del: api2_simps intro!: api2_switch api2_clear_event)

lemma api2_memop: "mx_ok v [] (st w) \<Longrightarrow> api2 v (schedule_memop b p addr mem sz a w)"
  unfolding schedule_memop_def
  by (auto simp: yield_switched_def simp del: api2_simps intro!: api2_set_event api2_switch api2_clear_event) simp

lemma api2_join_switched1: "mx_ok v [] (st w) \<Longrightarrow> api2 v (join_switched1 p target w)"
  unfolding join_switched1_def
  by (auto simp: join_switched2_def intro!: api2_info_upd api2_switch)

lemma api2_join: "mx_ok v [] (st w) \<Longrightarrow> api2 v (rsched_pthread_join p target w)"
  unfolding rsched_pthread_join_def by (auto intro!: api2_switch api2_join_switched1)

lemma mfix_State_remove: "mfix T s (State_remove p s)"
  by (auto simp: mfix_def tid_of_def split: option.split)

lemma api2_exit_choose:
  assumes "mx_ok v [] (st w)"
  shows "api2 v (exit_choose p w)"
proof -
  let ?s = "State_remove p (st w)"
  have ok: "mx_ok v [] ?s" using assms mfix_State_remove by (rule mx_ok_mfix)
  have "mx_ok v [] s'" if "State_choose ?s = Inr (r, s')" for r s'
    using State_choose_frame [OF that] ok by (auto elim: mx_ok_mfix)
  then show ?thesis using ok State_choose_faults [of ?s]
    by (cases "State_choose ?s")
       (auto simp: exit_choose_def Let_def index_def State_t_def split: option.split)
qed

lemma api2_thread_exit: "mx_ok v [] (st w) \<Longrightarrow> api2 v (do_thread_exit p w)"
  unfolding do_thread_exit_def
  by (auto split: option.split intro!: api2_info_upd api2_exit_choose)

text \<open>Creation: the new thread has not started.\<close>

definition unstarted :: "Env \<Rightarrow> PthreadT set \<Rightarrow> bool" where
  "unstarted env T \<longleftrightarrow> (fst (rp_create env) = 0 \<longrightarrow> snd (rp_create env) \<notin> T)"

lemma api2_create_drained:
  assumes ok: "mx_ok v [] (st w)" and un: "unstarted env (vT v)"
  shows "api2 v (create_drained env p sa ra w)"
proof -
  obtain r ch where rp: "rp_create env = (r, ch)" by (cases "rp_create env")
  have "mfix (vT v) (st w) (State_add (Thread_new_with_tid ch 0) (st w))" if "ch \<notin> vT v"
    using that by (auto simp: mfix_def tid_of_def State_add_def Thread_new_with_tid_def Let_def)
  then have "mx_ok v [] (State_add (Thread_new_with_tid ch 0) (st w))" if "r = 0"
    using un rp that ok by (auto simp: unstarted_def elim: mx_ok_mfix)
  then show ?thesis using rp ok
    by (auto simp: create_drained_def intro!: api2_set_event elim: mx_ok_mfix [OF _ mfix_other(4)] mx_ok_mfix)
qed

lemma api2_create:
  assumes "mx_ok v [] (st w)" and "unstarted env (vT v)"
  shows "api2 v (rsched_pthread_create env p start arg ra w)"
  unfolding rsched_pthread_create_def Let_def
  by (rule api2_fix) (use assms in \<open>auto intro: fixseg_drain api2_create_drained\<close>)


section \<open>Resuming\<close>

lemma lock_key_append:
  "lock_key (gs @ fs) = (case lock_key gs of None \<Rightarrow> lock_key fs | Some key \<Rightarrow> Some key)"
  by (induction gs rule: lock_key.induct) auto

lemma mx_ok_append:
  assumes ok: "mx_ok v gs s" and fs: "list_all (ml_frame (vp v) (vi v)) fs"
  shows "mx_ok v (gs @ fs) s"
proof (cases "lock_key gs")
  case None
  have "vp v \<in> vT v" and "mx_inv (vT v) ((vlk v)(vp v := None)) s" using ok None by (simp_all add: mx_ok_def)
  then have inv: "mx_inv (vT v) ((vlk v)(vp v := lock_key fs)) s" using mx_inv_locking by blast
  have "lock_key (gs @ fs) = lock_key fs" using None by (simp add: lock_key_append)
  then show ?thesis using ok fs inv unfolding mx_ok_def list_all_append by simp
next
  case (Some key)
  then show ?thesis using ok fs by (simp add: mx_ok_def lock_key_append)
qed

lemma seg2_ml_switched:
  assumes lck: "mx_locking v key (st w)"
  shows "seg2 v (ml_switched True key (vi v) (vp v) w)"
proof -
  obtain t where t: "info (st w) (vp v) = Some t" using lck by (auto simp: mx_locking_def tid_of_def)
  show ?thesis
  proof (cases "is_blocking t")
    case True
    then show ?thesis using lck t by (intro seg2_ml_self)
  next
    case False
    then show ?thesis using t seg2_lock_loop [OF lck] by (simp add: ml_switched_def)
  qed
qed

lemma seg2_ml_waited:
  assumes lck: "mx_locking v key (st w)"
  shows "seg2 v (ml_waited True key (vi v) (vp v) w)"
proof -
  obtain t where t: "info (st w) (vp v) = Some t" using lck by (auto simp: mx_locking_def tid_of_def)
  have "mx_locking v key ((st w)\<lparr>info := (info (st w))(vp v \<mapsto> t\<lparr>is_in_rsched_wait := False\<rparr>)\<rparr>)"
    by (rule mx_locking_mfix [OF lck mfix_info]) (use t in simp_all)
  then show ?thesis using t by (simp add: ml_waited_def seg2_lock_loop)
qed

lemma fixseg_resume_frame: "plain_frame f \<Longrightarrow> fixseg T (st w) (resume_frame oc f w)"
  by (cases f) (auto intro: fixseg_drain_loop fixseg_wake_resume fixseg_after_drain fixseg_after_wake)

lemma seg2_run_frames: "mx_ok v fs (st w) \<Longrightarrow> seg2 v (run_frames True fs w)"
proof (induction fs arbitrary: w)
  case (Cons f fs)
  have rest: "list_all (ml_frame (vp v) (vi v)) fs" using Cons.prems by (simp add: mx_ok_def)
  show ?case
  proof (cases "plain_frame f")
    case True
    then have fx: "fixseg (vT v) (st w) (resume_frame True f w)" by (rule fixseg_resume_frame)
    have ok: "mx_ok v fs (st w)" using Cons.prems mx_ok_plain [of "[f]" v fs] True by simp
    show ?thesis using fx ok Cons.IH mx_ok_mfix [OF ok]
      by (cases "resume_frame True f w") (auto simp: mx_ok_plain)
  next
    case False
    then obtain key where "f = MlSwitched key (vi v) (vp v) \<or> f = MlWaited key (vi v) (vp v)"
      using Cons.prems by (cases f) (auto simp: mx_ok_def)
    moreover from this have "mx_locking v key (st w)"
      using Cons.prems rest mx_locking_frames [of "f # fs" key v] by auto
    ultimately have "seg2 v (resume_frame True f w)"
      by (auto intro: seg2_ml_switched seg2_ml_waited)
    then show ?thesis using Cons.IH rest mx_ok_append [of v "[]" _ fs]
      by (cases "resume_frame True f w") (auto intro: mx_ok_append)
  qed
qed simp

lemma api2_resume_wait:
  assumes "overflow_checks env" and ok: "mx_ok v [] (st w)" and "api_wait_frame f"
  shows "api2 v (resume_api env (vp v) f w)"
  using assms(3)
proof (cases f)
  case (CwWaited lock)
  then show ?thesis using ok api2_cw_relock [OF assms(1)] by (auto simp: cw_waited_def intro!: api2_info_upd)
qed (use ok in \<open>auto simp: barrier_waited_def trampoline_waited_def intro!: api2_info_upd\<close>)

lemma api2_resume_api:
  assumes "overflow_checks env" and ok: "mx_ok v [] (st w)" and un: "is_create f \<Longrightarrow> unstarted env (vT v)"
  shows "api2 v (resume_api env (vp v) f w)"
proof (cases "api_wait_frame f")
  case True
  then show ?thesis using assms by (intro api2_resume_wait)
next
  case False
  then show ?thesis using assms
    by (cases f)
       (simp_all add: join_switched2_def lock_finish_def unlock_switched_def cw_finish_def
          signal_switched_def yield_switched_def Let_def api2_create_drained api2_join_switched1
          api2_lock_switched api2_trylock_switched api2_clear_event api2_cw_switched1
          api2_cw_switched2 api2_barrier_init_switched api2_barrier_drained api2_barrier_switched)
qed

lemma api2_resume:
  assumes "overflow_checks env" and ok: "mx_ok v (fst k) (st w)"
    and un: "is_create (snd k) \<Longrightarrow> unstarted env (vT v)"
  shows "api2 v (resume env (vp v) k w)"
  unfolding resume_def
  by (rule api2_ocall) (use assms in \<open>auto intro: seg2_run_frames api2_resume_api\<close>)

end
