(* ===== verification/Rsched_Demo.thy ===== *)
theory Rsched_Demo
  imports Rsched_Machine
begin

text \<open>
  Concrete runs of the machine, evaluated by the simplifier: the definitions to unfold, a process,
  the answers of the system, and the short runs that the other theories use as witnesses.
\<close>

section \<open>Evaluating a run\<close>

lemmas run_state_defs = State_new_def State_add_def State_remove_def Thread_new_def Thread_new_with_tid_def
  State_t_def State_t_upd_def ineligible_def State_choose_def set_event_def clear_event_def will_block_def
  is_recursive_mutex_def event_at_def

lemmas run_seg_defs = drain_pending_child_def drain_loop_def cond_signal_def wake_def wake_resume_def
  cs_after_wake_def cs_choose_def cs_after_drain_def context_switch_def mutex_entry_def put_mutex_def
  push_absent_def ml_switched_def ml_waited_def mutex_lock_def hand_over_def mutex_unlock_def
  mutex_lock_loop_unfold remove_at_def chk_add_def chk_sub_def on_st_def

lemmas run_api_defs = create_drained_def rsched_pthread_create_def trampoline_def trampoline_waited_def exit_choose_def
  do_thread_exit_def join_switched1_def join_switched2_def rsched_pthread_join_def lock_finish_def
  lock_switched_def rsched_pthread_mutex_lock_def trylock_switched_def rsched_pthread_mutex_trylock_def
  unlock_switched_def rsched_pthread_mutex_unlock_def cw_finish_def cw_relock_def cw_waited_def
  cw_switched1_def cw_switched2_def cond_push_def rsched_pthread_cond_wait_def signal_switched_def
  signal_waiter_def rsched_pthread_cond_signal_def broadcast_waiters_def rsched_pthread_cond_broadcast_def
  barrier_init_switched_def rsched_pthread_barrier_init_def barrier_waited_def barrier_switched_def
  barrier_arrive_def barrier_drained_def rsched_pthread_barrier_wait_def yield_switched_def
  rsched_sched_yield_def schedule_memop_def resume_def

lemmas run_machine_defs = init_machine_def main_state_def mstep_def os_ok_def fresh_box_def
  fresh_thread_def note_call_def

lemmas run_draw_defs = RandomWalk_choose_def usize_less_than_def Rng_next_def RandomWalk_new_def Rng_new_def
  index_def upt_conv_Cons numeral_2_eq_2 [symmetric] numeral_3_eq_3 [symmetric]

lemmas run_defs = run_state_defs run_seg_defs run_api_defs run_machine_defs index_def
  RandomWalk_on_event_def Let_def

section \<open>A process with two threads\<close>

text \<open>The main thread has id 1 and tid 101; the thread it creates gets id 2 and tid 102.\<close>

definition demo_env :: Env where
  "demo_env = \<lparr>overflow_checks = True, rp_mutex_lock = (\<lambda>_. 0), rp_mutex_unlock = (\<lambda>_. 0),
     rp_create = (0, 2), rp_barrier_init = (\<lambda>_ _. 0), new_box = 64, gettid = 102\<rparr>"

definition demo_process :: Process where
  "demo_process = \<lparr>env_var = (\<lambda>_. None), pthread_self = 1, self_tid = 101\<rparr>"

definition demo_run :: "action list \<Rightarrow> machine option" where
  "demo_run acts = run_steps os_ok (map (\<lambda>a. (demo_env, a)) acts) (init_machine demo_process 7)"

lemmas demo_defs = demo_run_def demo_env_def demo_process_def run_defs

lemma demo_reachable: "demo_run acts = Some m \<Longrightarrow> reachable demo_process 7 m"
  unfolding demo_run_def by (erule reachable_run_steps) (rule reach_init)

lemma demo_draw [simp]:
  "RandomWalk_choose (RandomWalk_new 7) [True, False] = Inr (Some 1, \<lparr>rng = Rng 7575888327\<rparr>)"
  by (simp add: run_draw_defs)

text \<open>The main thread creates a thread, which registers; the main thread yields, and the new thread
  runs.\<close>

definition demo_switch :: "action list" where
  "demo_switch = [Call 1 (CallCreate 0 0 0), Begin 2, Call 1 (CallYield 0), Resume 2]"

lemma demo_switch_ok:
  "map_option (\<lambda>m. (mc m 1, mc m 2, crash m)) (demo_run demo_switch)
    = Some (Parked (SuspendCond 1) ([InWake 1, CsWoken 1], YieldSwitched), InUser, None)"
  by (simp add: demo_defs demo_switch_def)


text \<open>The same run just before the new thread resumes.\<close>

definition demo_woken :: "action list" where
  "demo_woken = [Call 1 (CallCreate 0 0 0), Begin 2, Call 1 (CallYield 0)]"

lemma demo_woken_ok:
  "map_option (\<lambda>m. (mc m 2, eligible (st (mw m)) 2)) (demo_run demo_woken)
    = Some (Woken (SuspendCond 2) ([], TrampolineWaited), True)"
  by (simp add: demo_defs demo_woken_def eligible_def)

text \<open>A single thread that exits.\<close>

lemma demo_exit_ok:
  "map_option (\<lambda>m. (mc m, crash m)) (demo_run [Call 1 CallExit]) = Some ((\<lambda>_. NoThread)(1 := Gone), None)"
  by (simp add: demo_defs)

lemma demo_runE:
  assumes "map_option f (demo_run acts) = Some y"
  obtains m where "demo_run acts = Some m" "f m = y" "reachable demo_process 7 m"
  using assms demo_reachable by (cases "demo_run acts") auto

end
