(* ===== verification/Rsched_Exclusion.thy ===== *)
theory Rsched_Exclusion
  imports Rsched_Ownership Rsched_Demo
begin

text \<open>
  Mutual exclusion over whole runs of a build with overflow checks: tids identify the started
  threads, no step of one thread takes a mutex from another, and no unlock counts below zero.
\<close>

section \<open>Started threads\<close>

fun started :: "ctl \<Rightarrow> bool" where
  "started InUser = True"
| "started (Parked q k) = True"
| "started (Woken q k) = True"
| "started (Joining t) = True"
| "started _ = False"

fun frames_of :: "ctl \<Rightarrow> ifr list" where
  "frames_of (Parked q k) = fst k"
| "frames_of (Woken q k) = fst k"
| "frames_of _ = []"

abbreviation started_set :: "(PthreadT \<Rightarrow> ctl) \<Rightarrow> PthreadT set" where
  "started_set c \<equiv> {q. started (c q)}"

abbreviation locking :: "(PthreadT \<Rightarrow> ctl) \<Rightarrow> PthreadT \<Rightarrow> usize option" where
  "locking c \<equiv> \<lambda>q. lock_key (frames_of (c q))"

definition own_inv :: "machine \<Rightarrow> bool" where
  "own_inv m \<longleftrightarrow> mx_inv (started_set (mc m)) (locking (mc m)) (st (mw m))
     \<and> (\<forall>q i. started (mc m q) \<longrightarrow> tid_of (st (mw m)) q = Some i \<longrightarrow>
           list_all (ml_frame q i) (frames_of (mc m q)))"

text \<open>The strict assumptions: those of \<open>os_ok\<close>, overflow checks, and a kernel that gives a new thread
  a tid no started thread has.\<close>

definition os_checked :: "Env \<Rightarrow> action \<Rightarrow> machine \<Rightarrow> bool" where
  "os_checked env act m \<longleftrightarrow> os_ok env act m \<and> overflow_checks env
     \<and> (case act of Begin p \<Rightarrow> (\<forall>q. started (mc m q) \<longrightarrow> tid_of (st (mw m)) q \<noteq> Some (gettid env)) | _ \<Rightarrow> True)"

text \<open>Thread \<open>q\<close> holds mutex \<open>key\<close>, locked \<open>n\<close> times.\<close>

definition holds :: "machine \<Rightarrow> PthreadT \<Rightarrow> usize \<Rightarrow> u32 \<Rightarrow> bool" where
  "holds m q key n \<longleftrightarrow> started (mc m q) \<and> 0 < n
     \<and> (case mutexes (st (mw m)) key of
          Some mu \<Rightarrow> tid_of (st (mw m)) q = Some (owner_tid mu) \<and> recursive_count mu = n
        | None \<Rightarrow> False)"

section \<open>One segment\<close>

lemma inj_on_insertI: "inj_on f A \<Longrightarrow> (\<And>x. x \<in> A \<Longrightarrow> f x \<noteq> f a) \<Longrightarrow> inj_on f (insert a A)"
  unfolding inj_on_def by (metis insert_iff)

lemma unstarted_lock: "\<not> started x \<Longrightarrow> frames_of x = []"
  by (cases x) auto

definition view_of :: "machine \<Rightarrow> PthreadT \<Rightarrow> pid_t \<Rightarrow> view" where
  "view_of m p i = \<lparr>vp = p, vi = i, vT = started_set (mc m), vlk = locking (mc m), vs = st (mw m)\<rparr>"

lemma view_of_simps [simp]:
  "vp (view_of m p i) = p" "vi (view_of m p i) = i" "vT (view_of m p i) = started_set (mc m)"
  "vlk (view_of m p i) = locking (mc m)" "vs (view_of m p i) = st (mw m)"
  by (simp_all add: view_of_def)

lemma own_inv_view:
  assumes inv: "own_inv m" and p: "started (mc m p)"
  obtains i where "tid_of (st (mw m)) p = Some i" "mx_ok (view_of m p i) (frames_of (mc m p)) (st (mw m))"
proof -
  obtain i where i: "tid_of (st (mw m)) p = Some i" using inv p by (auto simp: own_inv_def mx_inv_def)
  have "(locking (mc m))(p := lock_key (frames_of (mc m p))) = locking (mc m)" by (rule fun_upd_triv)
  then have "mx_ok (view_of m p i) (frames_of (mc m p)) (st (mw m))"
    using inv p i by (simp add: mx_ok_def own_inv_def foreign_def same_tids_def)
  then show thesis using that i by blast
qed

lemma mx_inv_subset:
  assumes "mx_inv T lk s" and "T' \<subseteq> T" and "\<And>q. lk q \<noteq> None \<Longrightarrow> q \<in> T'"
  shows "mx_inv T' lk s"
  using assms unfolding mx_inv_def by (auto intro: inj_on_subset)

lemma own_inv_upd:
  assumes ok: "mx_ok (view_of m p i) (frames_of x) (st w)" and p: "started (mc m p)"
    and c1: "\<And>q. started (c1 q) = started (mc m q)" "\<And>q. frames_of (c1 q) = frames_of (mc m q)"
    and inv: "own_inv m" and x: "started x \<or> frames_of x = []" and m': "mw m' = w\<lparr>effects := []\<rparr>" "mc m' = c1(p := x)"
  shows "own_inv m'"
proof -
  have T: "started_set (mc m') = (if started x then started_set (mc m) else started_set (mc m) - {p})"
    using c1(1) p m' by auto
  have lk: "locking (mc m') = (locking (mc m))(p := lock_key (frames_of x))" using c1(2) m' by auto
  have "mx_inv (started_set (mc m)) ((locking (mc m))(p := lock_key (frames_of x))) (st w)"
    using ok by (simp add: mx_ok_def)
  then have "mx_inv (started_set (mc m')) (locking (mc m')) (st w)"
    unfolding T lk
  proof (rule mx_inv_subset)
    fix q assume lq: "((locking (mc m))(p := lock_key (frames_of x))) q \<noteq> None"
    show "q \<in> (if started x then started_set (mc m) else started_set (mc m) - {p})"
    proof (cases "q = p")
      case True
      then show ?thesis using lq x p by auto
    next
      case False
      then show ?thesis using lq unstarted_lock [of "mc m q"] by (cases "started (mc m q)") auto
    qed
  qed auto
  moreover have "list_all (ml_frame q j) (frames_of (mc m' q))"
    if q: "started (mc m' q)" and j: "tid_of (st w) q = Some j" for q j
  proof (cases "q = p")
    case True
    then show ?thesis using ok j m' by (simp add: mx_ok_def)
  next
    case False
    then have "started (mc m q)" using q c1(1) m' by simp
    then have "tid_of (st (mw m)) q = Some j" using ok j by (simp add: mx_ok_def same_tids_def)
    then show ?thesis using inv \<open>started (mc m q)\<close> False c1(2) m' by (simp add: own_inv_def)
  qed
  ultimately show ?thesis using m' by (simp add: own_inv_def)
qed

lemma deliver_keeps:
  assumes "es = [] \<or> es = [Signal y] \<or> (\<exists>ch sa. es = [Spawn ch sa] \<and> \<not> started (c ch))"
  shows "started (fold deliver es c q) = started (c q)" and "frames_of (fold deliver es c q) = frames_of (c q)"
proof -
  have "started (deliver (Signal y) c q) = started (c q)" "frames_of (deliver (Signal y) c q) = frames_of (c q)"
    by (cases "c q"; simp)+
  then show "started (fold deliver es c q) = started (c q)" and "frames_of (fold deliver es c q) = frames_of (c q)"
    using assms by (auto simp: unstarted_lock simp del: deliver.simps(1) split: if_splits)
qed

text \<open>The calls a segment makes to other threads.\<close>

lemma api_ok_effects:
  assumes "api_ok p c out"
  shows "(\<forall>r w. out = Done r w \<longrightarrow> (\<exists>y. effects w = [] \<or> effects w = [Signal y]
            \<or> (\<exists>ch sa. effects w = [Spawn ch sa] \<and> \<not> started (c ch))))
       \<and> (\<forall>q k w. out = Park q k w \<longrightarrow> (\<exists>y. effects w = [] \<or> effects w = [Signal y]))"
proof (cases out)
  case (Done r w)
  then show ?thesis using assms by (cases r) (auto simp: ret_post_def gone_post_def)
next
  case (Park q k w)
  then show ?thesis using assms
    by (auto simp: opark_def susp_post_def drain_post_def split: waitq.splits)
qed simp

lemma own_inv_settle:
  assumes ok: "api_ok p (mc m) out" and ok2: "api2 (view_of m p i) out" and p: "started (mc m p)"
    and inv: "own_inv m"
  shows "own_inv (settle p out m)"
proof (cases out)
  case (Done r w)
  obtain y where "effects w = [] \<or> effects w = [Signal y] \<or> (\<exists>ch sa. effects w = [Spawn ch sa] \<and> \<not> started (mc m ch))"
    using api_ok_effects [OF ok] Done by blast
  note keep = deliver_keeps [OF this]
  have "frames_of (after_reply r) = []" by (cases r) auto
  then show ?thesis using own_inv_upd [OF _ p keep inv, of i "after_reply r" w "settle p out m"] ok2 Done by simp
next
  case (Park q k w)
  obtain y where "effects w = [] \<or> effects w = [Signal y] \<or> (\<exists>ch sa. effects w = [Spawn ch sa] \<and> \<not> started (mc m ch))"
    using api_ok_effects [OF ok] Park by blast
  note keep = deliver_keeps [OF this]
  show ?thesis using own_inv_upd [OF _ p keep inv, of i "Parked q k" w "settle p out m"] ok2 Park by simp
next
  case (Fault e)
  then show ?thesis using inv by (simp add: own_inv_def)
qed


section \<open>One step\<close>

lemma api2_run_call:
  assumes oc: "overflow_checks env" and ok: "mx_ok v [] (st w)"
    and un: "\<And>start arg ra. call = CallCreate start arg ra \<Longrightarrow> unstarted env (vT v)"
    and nd: "\<And>lock. call \<noteq> NoteMutexDestroy lock"
  shows "api2 v (run_call env (vp v) call w)"
proof -
  have note_ok: "api2 v (note_call f w)" if "mfix (vT v) (st w) (f (st w))" for f
    using mx_ok_mfix [OF ok that] by (simp add: note_call_def)
  have init_ok: "api2 v (ocall (context_switch (vp v) w) f (barrier_init_switched env b n))" for f b n
    using ok by (intro api2_switch api2_barrier_init_switched)
  show ?thesis
  proof (cases call)
    case (NoteMutexDestroy lock)
    then show ?thesis using nd by blast
  qed (simp_all add: oc ok un note_ok init_ok api2_create api2_join api2_thread_exit api2_mutex_lock
          api2_mutex_trylock api2_mutex_unlock api2_cond_wait api2_cond_signal api2_cond_broadcast
          api2_barrier_wait api2_yield api2_memop rsched_pthread_barrier_init_def
          rsched_note_pthread_mutexattr_init_def rsched_note_pthread_mutexattr_settype_def
          rsched_note_pthread_mutexattr_destroy_def rsched_note_pthread_mutex_init_def)
qed

lemma fresh_unstarted: "fresh_thread env p c \<Longrightarrow> unstarted env (started_set c)"
  by (auto simp: fresh_thread_def unstarted_def)

text \<open>The segment of a step, seen by its actor.\<close>

lemma call_view:
  assumes m: "minv m" and own: "own_inv m" and os: "os_checked env (Call p call) m" and p: "mc m p = InUser"
    and nd: "\<And>lock. call \<noteq> NoteMutexDestroy lock"
  obtains i where "tid_of (st (mw m)) p = Some i" "api2 (view_of m p i) (run_call env p call (mw m))"
proof -
  obtain i where i: "tid_of (st (mw m)) p = Some i" "mx_ok (view_of m p i) [] (st (mw m))"
    using own_inv_view [OF own, of p] p by auto
  have "api2 (view_of m p i) (run_call env (vp (view_of m p i)) call (mw m))"
    by (rule api2_run_call) (use i os nd in \<open>auto simp: os_checked_def os_ok_def intro: fresh_unstarted\<close>)
  then show thesis using that i by simp
qed

lemma resume_view:
  assumes own: "own_inv m" and os: "os_checked env (Resume p) m" and p: "mc m p = Woken q k"
  obtains i where "tid_of (st (mw m)) p = Some i" "api2 (view_of m p i) (resume env p k (mw m))"
proof -
  obtain i where i: "tid_of (st (mw m)) p = Some i" "mx_ok (view_of m p i) (fst k) (st (mw m))"
    using own_inv_view [OF own, of p] p by auto
  have "api2 (view_of m p i) (resume env (vp (view_of m p i)) k (mw m))"
    by (rule api2_resume) (use i os p in \<open>auto simp: os_checked_def os_ok_def intro: fresh_unstarted\<close>)
  then show thesis using that i by simp
qed

lemma own_inv_destroy:
  assumes own: "own_inv m" and p: "mc m p = InUser" and eff: "effects (mw m) = []"
  shows "own_inv (settle p (run_call env p (NoteMutexDestroy lock) (mw m)) m)"
proof -
  have c: "(mc m)(p := InUser) = mc m" using p by (metis fun_upd_triv)
  have "mx_inv (started_set (mc m)) (locking (mc m)) (rsched_note_pthread_mutex_destroy lock (st (mw m)))"
    using own unfolding own_inv_def mx_inv_def mx_entry_def
    by (simp add: rsched_note_pthread_mutex_destroy_def tid_of_def inj_on_def)
  then show ?thesis using own c eff
    by (simp add: own_inv_def note_call_def tid_of_def rsched_note_pthread_mutex_destroy_def)
qed

lemma trampoline_segment:
  assumes m: "minv m" and p: "mc m p = Fresh sa"
  obtains t a where "info (st (mw m)) p = Some t" "boxes (mw m) sa = Some a"
proof -
  have "\<exists>P. base P (mc m) (mw m) \<and> \<not> P p"
  proof -
    consider r where "holder_at (mw m) (mc m) r (mc m r)" | "stuck (mc m) (mw m)" using m by (auto simp: minv_def)
    then show ?thesis
    proof cases
      case 1
      then obtain b where run: "running b r (mc m) (mw m)" using holder_running by blast
      then have "p \<noteq> r" using runningD(7) [OF run] p by auto
      then show ?thesis using run by (auto simp: running_def)
    qed (auto simp: stuck_def)
  qed
  then obtain P where P: "base P (mc m) (mw m)" "\<not> P p" by blast
  show thesis by (rule fresh_info [OF P(1) p P(2)]) (rule that)
qed

lemma own_inv_begin:
  assumes m: "minv m" and own: "own_inv m" and p: "mc m p = Fresh sa" and os: "os_checked env (Begin p) m"
  shows "own_inv (settle p (trampoline env p sa (mw m)) m)"
proof -
  let ?T = "started_set (mc m)" and ?s = "st (mw m)"
  obtain t a where t: "info ?s p = Some t" "boxes (mw m) sa = Some a" using m p by (rule trampoline_segment)
  let ?w = "trampolined env p sa t a (mw m)"
  have tid: "tid_of (st ?w) = (tid_of ?s)(p \<mapsto> gettid env)"
    by (rule ext) (simp add: tid_of_def trampolined_def)
  have mu: "mutexes (st ?w) = mutexes ?s" by (simp add: trampolined_def)
  have pT: "p \<notin> ?T" using p by simp
  have lkp: "locking (mc m) p = None" using p by simp
  have eff: "effects (mw m) = []" using m by (simp add: minv_def)
  define d where "d = deliver (Signal (ReadyCond sa)) (mc m)"
  have keep: "started (d q) = started (mc m q)" "frames_of (d q) = frames_of (mc m q)" for q
    using deliver_keeps [of "[Signal (ReadyCond sa)]" "ReadyCond sa" "mc m" q] by (simp_all add: d_def)
  let ?c = "d(p := at_start p)"
  have T': "started_set ?c = insert p ?T" by (auto simp: keep(1))
  have fr': "frames_of (?c q) = frames_of (mc m q)" for q using p by (simp add: keep(2))
  have lk': "locking ?c = locking (mc m)" by (rule ext) (simp only: fr')
  have inv: "mx_inv ?T (locking (mc m)) ?s" using own by (simp add: own_inv_def)
  have "mx_entry (locking (mc m)) (st ?w) key e" if "mutexes ?s key = Some e" for key e
  proof -
    have "mx_entry (locking (mc m)) ?s key e" using inv that unfolding mx_inv_def by blast
    moreover have "q \<noteq> p" if "locking (mc m) q = Some key" for q using that lkp by auto
    ultimately show ?thesis unfolding mx_entry_def tid by (metis fun_upd_other)
  qed
  moreover have "inj_on (tid_of (st ?w)) (insert p ?T)"
  proof -
    have "inj_on (tid_of ?s) ?T" using inv by (simp add: mx_inv_def)
    moreover have "tid_of (st ?w) q = tid_of ?s q" if "q \<in> ?T" for q using that pT unfolding tid by auto
    ultimately have "inj_on (tid_of (st ?w)) ?T" by (simp add: inj_on_def)
    moreover have "tid_of (st ?w) q \<noteq> tid_of (st ?w) p" if "q \<in> ?T" for q
    proof -
      have "tid_of ?s q \<noteq> Some (gettid env)" using os that by (simp add: os_checked_def)
      moreover have "q \<noteq> p" using that pT by auto
      ultimately show ?thesis unfolding tid by simp
    qed
    ultimately show ?thesis by (rule inj_on_insertI)
  qed
  ultimately have "mx_inv (started_set ?c) (locking ?c) (st ?w)"
    using inv lkp unfolding T' lk' mx_inv_def mu tid by auto
  moreover have "list_all (ml_frame q i) (frames_of (?c q))" if "started (?c q)" "tid_of (st ?w) q = Some i" for q i
  proof (cases "q = p")
    case True
    then show ?thesis using fr' p by simp
  next
    case False
    then have "started (mc m q)" "tid_of ?s q = Some i" using that keep(1) by (simp_all add: tid)
    then show ?thesis using own fr' unfolding own_inv_def by metis
  qed
  ultimately show ?thesis using trampoline_eq [OF t, of env] eff
    by (simp add: own_inv_def d_def del: deliver.simps fun_upd_apply)
qed

lemma own_inv_ctl:
  assumes own: "own_inv m" and "started x = started (mc m p)" and "frames_of x = frames_of (mc m p)"
  shows "own_inv (m\<lparr>mc := (mc m)(p := x)\<rparr>)"
proof -
  have "started_set ((mc m)(p := x)) = started_set (mc m)" and "locking ((mc m)(p := x)) = locking (mc m)"
    using assms(2,3) by (auto simp: fun_eq_iff)
  then show ?thesis using own assms by (simp add: own_inv_def)
qed

lemma own_inv_step:
  assumes m: "minv m" and own: "own_inv m" and os: "os_checked env act m" and st: "mstep env act m = Some m'"
  shows "own_inv m'"
proof -
  have os': "os_ok env act m" using os by (simp add: os_checked_def)
  have nc: "crash m = None" using st by (auto simp: mstep_def split: if_splits)
  show ?thesis
  proof (cases act)
    case (Call p call)
    then have p: "mc m p = InUser" and m': "m' = settle p (run_call env p call (mw m)) m"
      using st nc by (auto simp: mstep_def split: ctl.splits)
    show ?thesis
    proof (cases "\<exists>lock. call = NoteMutexDestroy lock")
      case True
      then show ?thesis using own_inv_destroy [OF own p] m m' by (auto simp: minv_def)
    next
      case False
      then obtain i where "api2 (view_of m p i) (run_call env p call (mw m))"
        using call_view [OF m own _ p, of env call] os Call by blast
      moreover have "api_ok p (mc m) (run_call env p call (mw m))" using call_api_ok [OF m p] os' Call by simp
      ultimately show ?thesis using own_inv_settle own p m' by auto
    qed
  next
    case (Begin p)
    then show ?thesis using st os nc own_inv_begin [OF m own] by (auto simp: mstep_def split: ctl.splits)
  next
    case (Resume p)
    then obtain q k where p: "mc m p = Woken q k" and m': "m' = settle p (resume env p k (mw m)) m"
      using st nc by (auto simp: mstep_def split: ctl.splits)
    obtain i where "api2 (view_of m p i) (resume env p k (mw m))"
      using resume_view [OF own _ p, of env] os Resume by blast
    moreover have "api_ok p (mc m) (resume env p k (mw m))" using resume_api_ok [OF m p] os' Resume by simp
    ultimately show ?thesis using own_inv_settle own p m' by auto
  next
    case (JoinDone p)
    then show ?thesis using st nc own by (auto simp: mstep_def split: ctl.splits if_splits intro!: own_inv_ctl)
  next
    case (Spurious p)
    then show ?thesis using st nc own by (auto simp: mstep_def split: ctl.splits intro!: own_inv_ctl)
  qed
qed

lemma own_inv_init: "own_inv (init_machine pr seed)"
  by (auto simp: own_inv_def init_machine_def mx_inv_def main_state_def State_add_def State_new_def
      Thread_new_def Thread_new_with_tid_def tid_of_def Let_def inj_on_def split: if_splits)

lemma reachable_own:
  assumes "reachable_by os_checked pr seed m"
  shows "own_inv m" and "minv m"
proof -
  have "own_inv m \<and> minv m" using assms
    by (induction rule: reachable_by.induct)
       (auto intro: own_inv_init minv_init own_inv_step minv_step simp: os_checked_def)
  then show "own_inv m" and "minv m" by simp_all
qed


section \<open>What a step of another thread leaves alone\<close>

text \<open>The outcome of the segment of a step, for the steps that run one; the start of a new thread is not
  among them.\<close>

lemma step_segment:
  assumes m: "minv m" and own: "own_inv m" and os: "os_checked env act m" and st: "mstep env act m = Some m'"
    and act: "\<And>lock. act \<noteq> Call (actor act) (NoteMutexDestroy lock)" "\<And>p. act \<noteq> Begin p"
  obtains i out where "tid_of (st (mw m)) (actor act) = Some i" "started (mc m (actor act))"
      "api_ok (actor act) (mc m) out" "api2 (view_of m (actor act) i) out" "m' = settle (actor act) out m"
  | x where "m' = m\<lparr>mc := (mc m)(actor act := x)\<rparr>" "started x" "started (mc m (actor act))"
proof (cases act)
  case (Call p call)
  then have p: "mc m p = InUser" and m': "m' = settle p (run_call env p call (mw m)) m"
    using st by (auto simp: mstep_def split: ctl.splits if_splits)
  have nd: "call \<noteq> NoteMutexDestroy lock" for lock using act(1) [of lock] Call by simp
  obtain i where "tid_of (st (mw m)) p = Some i" "api2 (view_of m p i) (run_call env p call (mw m))"
    using call_view [OF m own _ p nd] os Call by blast
  moreover have "api_ok p (mc m) (run_call env p call (mw m))"
    using call_api_ok [OF m p] os Call by (simp add: os_checked_def)
  ultimately show ?thesis using that(1) m' p Call by auto
next
  case (Begin p)
  then show ?thesis using act(2) by simp
next
  case (Resume p)
  then obtain q k where p: "mc m p = Woken q k" and m': "m' = settle p (resume env p k (mw m)) m"
    using st by (auto simp: mstep_def split: ctl.splits if_splits)
  obtain i where "tid_of (st (mw m)) p = Some i" "api2 (view_of m p i) (resume env p k (mw m))"
    using resume_view [OF own _ p] os Resume by blast
  moreover have "api_ok p (mc m) (resume env p k (mw m))"
    using resume_api_ok [OF m p] os Resume by (simp add: os_checked_def)
  ultimately show ?thesis using that(1) m' p Resume by auto
next
  case (JoinDone p)
  then have "\<exists>x. m' = m\<lparr>mc := (mc m)(p := x)\<rparr> \<and> started x \<and> started (mc m p)"
    using st by (auto simp: mstep_def split: ctl.splits if_splits)
  then show ?thesis using that(2) JoinDone by auto
next
  case (Spurious p)
  then have "\<exists>x. m' = m\<lparr>mc := (mc m)(p := x)\<rparr> \<and> started x \<and> started (mc m p)"
    using st by (auto simp: mstep_def split: ctl.splits if_splits)
  then show ?thesis using that(2) Spurious by auto
qed

text \<open>After a segment of \<open>p\<close>: other threads are started as before, and the mutexes \<open>p\<close> does not own
  keep owner and count.\<close>

lemma settle_foreign:
  assumes ok: "api_ok p (mc m) out" and ok2: "api2 (view_of m p i) out" and q: "q \<noteq> p"
  shows "started (mc (settle p out m) q) = started (mc m q)"
    and "foreign i (st (mw m)) (st (mw (settle p out m)))"
    and "started (mc m q) \<Longrightarrow> tid_of (st (mw (settle p out m))) q = tid_of (st (mw m)) q"
    and "crash (settle p out m) = Some SubOverflow \<Longrightarrow> crash m = Some SubOverflow"
proof -
  have "started (mc (settle p out m) q) = started (mc m q)
     \<and> foreign i (st (mw m)) (st (mw (settle p out m)))
     \<and> (started (mc m q) \<longrightarrow> tid_of (st (mw (settle p out m))) q = tid_of (st (mw m)) q)
     \<and> (crash (settle p out m) = Some SubOverflow \<longrightarrow> crash m = Some SubOverflow)"
  proof (cases out)
    case (Done r w)
    then obtain y where "effects w = [] \<or> effects w = [Signal y] \<or> (\<exists>ch sa. effects w = [Spawn ch sa] \<and> \<not> started (mc m ch))"
      using api_ok_effects [OF ok] by blast
    from deliver_keeps(1) [OF this] show ?thesis
      using Done ok2 q by (simp add: mx_ok_def same_tids_def)
  next
    case (Park x k w)
    then obtain y where "effects w = [] \<or> effects w = [Signal y] \<or> (\<exists>ch sa. effects w = [Spawn ch sa] \<and> \<not> started (mc m ch))"
      using api_ok_effects [OF ok] by blast
    from deliver_keeps(1) [OF this] show ?thesis
      using Park ok2 q by (simp add: mx_ok_def same_tids_def)
  next
    case (Fault e)
    then show ?thesis using ok2 by (simp add: foreign_def)
  qed
  then show "started (mc (settle p out m) q) = started (mc m q)"
    and "foreign i (st (mw m)) (st (mw (settle p out m)))"
    and "started (mc m q) \<Longrightarrow> tid_of (st (mw (settle p out m))) q = tid_of (st (mw m)) q"
    and "crash (settle p out m) = Some SubOverflow \<Longrightarrow> crash m = Some SubOverflow" by simp_all
qed


section \<open>A concrete run\<close>

text \<open>The main thread takes a mutex, creates a thread and yields to it while holding the mutex.\<close>

definition demo_checked :: "action list \<Rightarrow> machine option" where
  "demo_checked acts = run_steps os_checked (map (\<lambda>a. (demo_env, a)) acts) (init_machine demo_process 7)"

definition demo_holding :: "action list" where
  "demo_holding = [Call 1 (CallLock 500 0), Call 1 (CallCreate 0 0 0), Begin 2, Call 1 (CallYield 0)]"

lemma demo_checkedE:
  assumes "map_option f (demo_checked acts) = Some y"
  obtains m where "demo_checked acts = Some m" "f m = y" "reachable_by os_checked demo_process 7 m"
proof -
  obtain m where m: "demo_checked acts = Some m" "f m = y" using assms by (cases "demo_checked acts") auto
  then have "reachable_by os_checked demo_process 7 m"
    unfolding demo_checked_def by (blast intro: reachable_run_steps reach_init)
  then show thesis using that m by blast
qed

lemmas checked_defs = demo_checked_def demo_env_def demo_process_def run_defs os_checked_def tid_of_def

lemma demo_holding_ok:
  "map_option (\<lambda>m. (holds m 1 500 1, mc m 2, map_option (\<lambda>m'. crash m') (mstep demo_env (Resume 2) m),
      os_checked demo_env (Resume 2) m)) (demo_checked demo_holding)
   = Some (True, Woken (SuspendCond 2) ([], TrampolineWaited), Some None, True)"
  by (simp add: checked_defs demo_holding_def holds_def)

section \<open>Properties\<close>

lemma crash_step:
  assumes m: "minv m" and own: "own_inv m" and os: "os_checked env act m" and st: "mstep env act m = Some m'"
  shows "crash m' \<noteq> Some SubOverflow"
proof -
  have nc: "crash m = None" using st by (auto simp: mstep_def split: if_splits)
  consider (start) p where "act = Begin p" | (destroy) lock where "act = Call (actor act) (NoteMutexDestroy lock)"
    | (segment) "\<And>lock. act \<noteq> Call (actor act) (NoteMutexDestroy lock)" "\<And>p. act \<noteq> Begin p" by blast
  then show ?thesis
  proof cases
    case start
    then obtain sa where p: "mc m p = Fresh sa" and m': "m' = settle p (trampoline env p sa (mw m)) m"
      using st nc by (auto simp: mstep_def split: ctl.splits)
    obtain t a where "info (st (mw m)) p = Some t" "boxes (mw m) sa = Some a"
      using m p by (rule trampoline_segment)
    then show ?thesis using m' nc by (simp add: trampoline_eq)
  next
    case destroy
    then have "m' = settle (actor act) (run_call env (actor act) (NoteMutexDestroy lock) (mw m)) m"
      using st nc by (cases act) (auto simp: mstep_def split: ctl.splits)
    then show ?thesis using nc by (simp add: note_call_def)
  next
    case segment
    show ?thesis
    proof (cases rule: step_segment [OF m own os st segment])
      case (1 i out)
      then show ?thesis using settle_foreign(4) [of "actor act" m out i "actor act + 1"] nc by auto
    qed (use nc in simp)
  qed
qed

lemma reachable_crash:
  assumes "reachable_by os_checked pr seed m"
  shows "crash m \<noteq> Some SubOverflow"
  using assms
proof (induction rule: reachable_by.induct)
  case reach_init
  then show ?case by (simp add: init_machine_def)
next
  case (reach_step m env act m')
  then show ?case using crash_step reachable_own by blast
qed

text \<open>C11: in a build with overflow checks no unlock ever counts below zero: the only fault a run can
  meet is the overflow of a lock counter at its \<open>2 ^ 32\<close>-th nested lock.\<close>

theorem unlock_never_underflows:
  assumes "reachable_by os_checked pr seed m"
  shows "crash m \<in> {None, Some AddOverflow}"
  using reachable_crash [OF assms] reachable_own(2) [OF assms]
  by (cases "crash m") (auto simp: minv_def)

theorem unlock_never_underflows_witness:
  "\<exists>m. demo_checked demo_holding = Some m \<and> crash m \<in> {None, Some AddOverflow}"
proof (rule demo_checkedE [OF demo_holding_ok])
  fix m assume m: "demo_checked demo_holding = Some m" "reachable_by os_checked demo_process 7 m"
    and c: "(holds m 1 500 1, mc m 2, map_option (\<lambda>m'. crash m') (mstep demo_env (Resume 2) m),
      os_checked demo_env (Resume 2) m) = (True, Woken (SuspendCond 2) ([], TrampolineWaited), Some None, True)"
  from unlock_never_underflows [OF m(2)] m show ?thesis by auto
qed



lemma holds_frame:
  assumes "holds m q key n" and "started (mc m' q) = started (mc m q)"
    and "tid_of (st (mw m')) q = tid_of (st (mw m)) q"
    and "\<And>mu. mutexes (st (mw m)) key = Some mu \<Longrightarrow> \<exists>mu'. mutexes (st (mw m')) key = Some mu'
           \<and> owner_tid mu' = owner_tid mu \<and> recursive_count mu' = recursive_count mu"
  shows "holds m' q key n"
  using assms by (fastforce simp: holds_def split: option.splits)

text \<open>C10: nobody can take a mutex away. A step of any other thread, except one that destroys that
  mutex, leaves a held mutex with the same holder and the same count.\<close>

theorem holder_keeps_mutex:
  assumes reach: "reachable_by os_checked pr seed m" and os: "os_checked env act m"
    and st: "mstep env act m = Some m'" and h: "holds m q key n" and ne: "actor act \<noteq> q"
    and nd: "act \<noteq> Call (actor act) (NoteMutexDestroy key)"
  shows "holds m' q key n"
proof -
  note own = reachable_own(1) [OF reach] and m = reachable_own(2) [OF reach]
  have q: "started (mc m q)" using h by (simp add: holds_def)
  have nc: "crash m = None" using st by (auto simp: mstep_def split: if_splits)
  consider (start) p where "act = Begin p" | (destroy) lock where "act = Call (actor act) (NoteMutexDestroy lock)"
    | (segment) "\<And>lock. act \<noteq> Call (actor act) (NoteMutexDestroy lock)" "\<And>p. act \<noteq> Begin p" by blast
  then show ?thesis
  proof cases
    case start
    then obtain sa where p: "mc m p = Fresh sa" and m': "m' = settle p (trampoline env p sa (mw m)) m"
      using st nc by (auto simp: mstep_def split: ctl.splits)
    obtain t a where t: "info (st (mw m)) p = Some t" "boxes (mw m) sa = Some a"
      using m p by (rule trampoline_segment)
    have eff: "effects (mw m) = []" using m by (simp add: minv_def)
    have "started (deliver (Signal (ReadyCond sa)) (mc m) q) = started (mc m q)"
      using deliver_keeps(1) [of "[Signal (ReadyCond sa)]" "ReadyCond sa" "mc m" q] by simp
    then show ?thesis using m' trampoline_eq [OF t] ne start eff
      by (intro holds_frame [OF h]) (simp_all add: tid_of_def trampolined_def del: deliver.simps)
  next
    case destroy
    then have "m' = settle (actor act) (run_call env (actor act) (NoteMutexDestroy lock) (mw m)) m"
      using st nc by (cases act) (auto simp: mstep_def split: ctl.splits)
    moreover have "lock \<noteq> key" using destroy nd by auto
    moreover have "effects (mw m) = []" using m by (simp add: minv_def)
    ultimately show ?thesis using ne
      by (intro holds_frame [OF h])
         (simp_all add: note_call_def rsched_note_pthread_mutex_destroy_def tid_of_def)
  next
    case segment
    show ?thesis
    proof (cases rule: step_segment [OF m own os st segment])
      case (1 i out)
      have "owner_tid mu \<noteq> i" if "mutexes (st (mw m)) key = Some mu" for mu
      proof
        assume "owner_tid mu = i"
        then have "tid_of (st (mw m)) q = tid_of (st (mw m)) (actor act)"
          using h that 1(1) by (simp add: holds_def)
        then show False using own q 1(2) ne by (auto simp: own_inv_def mx_inv_def dest: inj_onD)
      qed
      moreover note f = settle_foreign [OF 1(3,4) ne [symmetric]]
      ultimately show ?thesis using 1(5) q f(1,3) f(2)
        by (intro holds_frame [OF h]) (auto simp: foreign_def)
    next
      case (2 x)
      then show ?thesis using ne by (intro holds_frame [OF h]) simp_all
    qed
  qed
qed

theorem holder_keeps_mutex_witness:
  "\<exists>m m'. demo_checked demo_holding = Some m \<and> mstep demo_env (Resume 2) m = Some m' \<and> holds m' 1 500 1"
proof (rule demo_checkedE [OF demo_holding_ok])
  fix m assume m: "demo_checked demo_holding = Some m" "reachable_by os_checked demo_process 7 m"
    and c: "(holds m 1 500 1, mc m 2, map_option (\<lambda>m'. crash m') (mstep demo_env (Resume 2) m),
      os_checked demo_env (Resume 2) m) = (True, Woken (SuspendCond 2) ([], TrampolineWaited), Some None, True)"
  from c obtain m' where m': "mstep demo_env (Resume 2) m = Some m'" by auto
  from c have os: "os_checked demo_env (Resume 2) m" and h: "holds m 1 500 1" by simp_all
  from holder_keeps_mutex [OF m(2) os m' h] have "holds m' 1 500 1" by simp
  with m m' show ?thesis by auto
qed

end
