(* ===== verification/Rsched_Replay.thy ===== *)
theory Rsched_Replay
  imports Rsched_Commute Rsched_Exclusion "HOL-Library.Sublist"
begin

text \<open>
  Replay. A run of a program is logged: the calls the threads make and what these return. The
  program and the answers of the system are functions of the log. What is left open is timing: when
  a new thread runs its trampoline, when a thread that waits for its child notices that it is
  ready, and spurious wake-ups of that wait. The theorem of this theory says that timing does not
  show: with the same seed, two runs have logs of which one is a prefix of the other.

  Proof: every run is compared with the run in which each new thread begins at once
  (\<open>prompt_run\<close>). That one is deterministic, because one thread is active at a time, and
  \<open>shadow\<close> relates each state of a run to a state of it; the steps that only concern timing leave
  the related state alone, the others are one step of it, by the commutation lemmas of
  \<open>Rsched_Commute\<close>.
\<close>

section \<open>Runs that follow a deterministic one\<close>

text \<open>
  The contract of the argument. \<open>canon k t c\<close>: the deterministic run has log \<open>t\<close> and state \<open>c\<close> after \<open>k\<close>
  steps. \<open>follow tr s t c\<close>: a run in state \<open>s\<close> with log \<open>tr\<close> stands for that state. If every run follows
  the deterministic one and is never ahead of it, any two runs agree as far as both go.
\<close>

locale following_runs =
  fixes run :: "'s \<Rightarrow> 'l list \<Rightarrow> bool"
    and canon :: "nat \<Rightarrow> 'l list \<Rightarrow> 'c \<Rightarrow> bool"
    and follow :: "'l list \<Rightarrow> 's \<Rightarrow> 'l list \<Rightarrow> 'c \<Rightarrow> bool"
  assumes follows_canon: "run s tr \<Longrightarrow> \<exists>k t c. canon k t c \<and> follow tr s t c"
    and never_ahead: "follow tr s t c \<Longrightarrow> prefix tr t"
    and canon_det: "canon k t c \<Longrightarrow> canon k t' c' \<Longrightarrow> t' = t"
    and canon_grows: "canon (Suc k) t c \<Longrightarrow> \<exists>t0 c0. canon k t0 c0 \<and> prefix t0 t"
begin

lemma canon_split: "canon (k + j) t c \<Longrightarrow> \<exists>t0 c0. canon k t0 c0 \<and> prefix t0 t"
proof (induction j arbitrary: t c)
  case (Suc j)
  from Suc.prems have "canon (Suc (k + j)) t c" by simp
  from canon_grows [OF this] obtain t1 c1 where "canon (k + j) t1 c1" "prefix t1 t" by blast
  with Suc.IH show ?case by (meson prefix_order.trans)
qed auto

lemma canon_prefix:
  assumes "canon k t c" and "canon k' t' c'" and "k \<le> k'"
  shows "prefix t t'"
proof -
  have "canon (k + (k' - k)) t' c'" using assms(2,3) by simp
  from canon_split [OF this] obtain t0 c0 where "canon k t0 c0" "prefix t0 t'" by blast
  then show ?thesis using canon_det [OF assms(1)] by blast
qed

lemma runs_agree:
  assumes "run s tr" and "run s' tr'"
  shows "prefix tr tr' \<or> prefix tr' tr"
proof -
  obtain k t c where r: "canon k t c" "prefix tr t" using follows_canon [OF assms(1)] never_ahead by blast
  obtain k' t' c' where r': "canon k' t' c'" "prefix tr' t'" using follows_canon [OF assms(2)] never_ahead by blast
  have "prefix t t' \<or> prefix t' t" using canon_prefix [OF r(1) r'(1)] canon_prefix [OF r'(1) r(1)] by linarith
  then show ?thesis using r(2) r'(2) by (meson prefix_order.trans prefix_same_cases)
qed

end

section \<open>Logged runs\<close>

datatype observation = Called api_call | Returned reply

type_synonym log = "(PthreadT \<times> observation) list"

text \<open>\<open>next_call\<close> is the program: the next call of a thread in user code. \<open>answers\<close> are the results of
  the libraries in a segment, \<open>start_answers\<close> those of the trampoline (its \<open>gettid\<close>).\<close>

record Program =
  next_call :: "log \<Rightarrow> PthreadT \<Rightarrow> api_call"
  answers :: "log \<Rightarrow> PthreadT \<Rightarrow> Env"
  start_answers :: "PthreadT \<Rightarrow> Env"

definition returned :: "PthreadT \<Rightarrow> api \<Rightarrow> log \<Rightarrow> log" where
  "returned p out tr = (case out of Done r w \<Rightarrow> tr @ [(p, Returned r)] | _ \<Rightarrow> tr)"

definition step_env :: "Program \<Rightarrow> log \<Rightarrow> action \<Rightarrow> Env" where
  "step_env pg tr act = (case act of
     Call p call \<Rightarrow> answers pg (tr @ [(p, Called call)]) p
   | Begin q \<Rightarrow> start_answers pg q
   | _ \<Rightarrow> answers pg tr (actor act))"

definition step_log :: "Program \<Rightarrow> action \<Rightarrow> machine \<Rightarrow> log \<Rightarrow> log" where
  "step_log pg act m tr = (case act of
     Call p call \<Rightarrow> returned p (run_call (step_env pg tr act) p call (mw m)) (tr @ [(p, Called call)])
   | Resume p \<Rightarrow> (case mc m p of Woken y k \<Rightarrow> returned p (resume (step_env pg tr act) p k (mw m)) tr | _ \<Rightarrow> tr)
   | _ \<Rightarrow> tr)"

definition follows :: "Program \<Rightarrow> log \<Rightarrow> action \<Rightarrow> bool" where
  "follows pg tr act = (case act of Call p call \<Rightarrow> call = next_call pg tr p | _ \<Rightarrow> True)"

inductive logged :: "Program \<Rightarrow> Process \<Rightarrow> u64 \<Rightarrow> machine \<Rightarrow> log \<Rightarrow> bool"
  for pg pr seed where
  logged_init: "logged pg pr seed (init_machine pr seed) []"
| logged_step: "logged pg pr seed m tr \<Longrightarrow> follows pg tr act \<Longrightarrow> os_checked (step_env pg tr act) act m
    \<Longrightarrow> mstep (step_env pg tr act) act m = Some m' \<Longrightarrow> logged pg pr seed m' (step_log pg act m tr)"

text \<open>Concrete logged runs.\<close>

fun run_logged :: "Program \<Rightarrow> action list \<Rightarrow> machine \<Rightarrow> log \<Rightarrow> (machine \<times> log) option" where
  "run_logged pg [] m tr = Some (m, tr)"
| "run_logged pg (act # acts) m tr =
     (if follows pg tr act \<and> os_checked (step_env pg tr act) act m
      then (case mstep (step_env pg tr act) act m of
              None \<Rightarrow> None
            | Some m' \<Rightarrow> run_logged pg acts m' (step_log pg act m tr))
      else None)"

lemma logged_run:
  "run_logged pg acts m tr = Some (m', tr') \<Longrightarrow> logged pg pr seed m tr \<Longrightarrow> logged pg pr seed m' tr'"
  by (induction pg acts m tr rule: run_logged.induct)
     (auto split: if_splits option.splits intro: logged_step)

lemma logged_runE:
  assumes "map_option snd (run_logged pg acts (init_machine pr seed) []) = Some tr"
  obtains m where "logged pg pr seed m tr"
proof -
  obtain m where "run_logged pg acts (init_machine pr seed) [] = Some (m, tr)"
    using assms by (cases "run_logged pg acts (init_machine pr seed) []") auto
  from logged_run [OF this logged_init] show thesis by (rule that)
qed

section \<open>The run in which new threads begin at once\<close>

definition begin_thread :: "Program \<Rightarrow> PthreadT \<Rightarrow> usize \<Rightarrow> machine \<Rightarrow> machine" where
  "begin_thread pg q sa m =
     (if mc m q = Fresh sa then settle q (trampoline (start_answers pg q) q sa (mw m)) m else m)"

definition begin_pending :: "Program \<Rightarrow> machine \<Rightarrow> machine" where
  "begin_pending pg m = (case pending_child (st (mw m)) of
     Some (sa, q) \<Rightarrow> begin_thread pg q sa m | None \<Rightarrow> m)"

text \<open>A crashed program is its fault.\<close>

definition prompt :: "Program \<Rightarrow> machine \<Rightarrow> fault + machine" where
  "prompt pg m = (case crash m of Some e \<Rightarrow> Inl e | None \<Rightarrow> Inr (begin_pending pg m))"

text \<open>The turn of an active thread.\<close>

definition called :: "Program \<Rightarrow> log \<Rightarrow> PthreadT \<Rightarrow> log" where
  "called pg tr p = tr @ [(p, Called (next_call pg tr p))]"

definition ended :: "PthreadT \<Rightarrow> api \<Rightarrow> machine \<Rightarrow> log \<Rightarrow> log \<times> machine" where
  "ended p out m tr = (returned p out tr, settle p out m)"

definition turn :: "Program \<Rightarrow> log \<Rightarrow> PthreadT \<Rightarrow> machine \<Rightarrow> (log \<times> machine) option" where
  "turn pg tr p m = (case mc m p of
     InUser \<Rightarrow> Some (ended p (run_call (answers pg (called pg tr p) p) p (next_call pg tr p) (mw m)) m (called pg tr p))
   | Woken y k \<Rightarrow> Some (ended p (resume (answers pg tr p) p k (mw m)) m tr)
   | Joining t \<Rightarrow> Some (tr, m\<lparr>mc := (mc m)(p := InUser)\<rparr>)
   | _ \<Rightarrow> None)"

inductive prompt_run :: "Program \<Rightarrow> Process \<Rightarrow> u64 \<Rightarrow> nat \<Rightarrow> log \<Rightarrow> fault + machine \<Rightarrow> bool"
  for pg pr seed where
  prompt_init: "prompt_run pg pr seed 0 [] (Inr (init_machine pr seed))"
| prompt_step: "prompt_run pg pr seed k tr (Inr n) \<Longrightarrow> minv n \<Longrightarrow> active (mc n p)
    \<Longrightarrow> turn pg tr p n = Some (tr', n') \<Longrightarrow> prompt_run pg pr seed (Suc k) tr' (prompt pg n')"

inductive_cases prompt_zeroE: "prompt_run pg pr seed 0 tr x"
inductive_cases prompt_SucE: "prompt_run pg pr seed (Suc k) tr x"

lemma active_unique:
  assumes "minv m" and "active (mc m p)" and "active (mc m q)"
  shows "p = q"
proof (rule ccontr)
  assume ne: "p \<noteq> q"
  obtain b where "running b p (mc m) (mw m)" using active_holder [OF assms(1,2)] holder_running by blast
  then show False
    using base_no_ready_wait(2) [of "\<lambda>r. r = p" "mc m" "mw m" q] assms(3) ne by (simp add: running_def)
qed

lemma prompt_run_det:
  "prompt_run pg pr seed k tr x \<Longrightarrow> prompt_run pg pr seed k tr' x' \<Longrightarrow> tr' = tr \<and> x' = x"
proof (induction arbitrary: tr' x' rule: prompt_run.induct)
  case prompt_init
  then show ?case by (auto elim: prompt_zeroE)
next
  case (prompt_step k tr n p tr1 n1)
  from prompt_step.prems show ?case
  proof (rule prompt_SucE)
    fix tr2 n2 p2 n3
    assume x': "x' = prompt pg n3" and r: "prompt_run pg pr seed k tr2 (Inr n2)" and a: "active (mc n2 p2)"
      and t: "turn pg tr2 p2 n2 = Some (tr', n3)"
    have eq: "tr2 = tr" "n2 = n" using prompt_step.IH [OF r] by auto
    then have "p2 = p" using active_unique [OF prompt_step.hyps(2)] prompt_step.hyps(3) a by simp
    then show ?thesis using t prompt_step.hyps(4) eq x' by simp
  qed
qed

lemma turn_extends: "turn pg tr p m = Some (tr', m') \<Longrightarrow> prefix tr tr'"
  by (auto simp: turn_def ended_def called_def returned_def prefix_def split: ctl.splits outcome.splits)

lemma prompt_run_grows:
  "prompt_run pg pr seed (Suc k) tr x \<Longrightarrow> \<exists>tr0 x0. prompt_run pg pr seed k tr0 x0 \<and> prefix tr0 tr"
  by (auto elim!: prompt_SucE dest: turn_extends)

section \<open>Threads that have not begun\<close>

definition on_ready :: "ctl \<Rightarrow> usize \<Rightarrow> ifr list \<times> ofr \<Rightarrow> bool" where
  "on_ready x sa k \<longleftrightarrow> x = Parked (ReadyCond sa) k \<or> x = Woken (ReadyCond sa) k"

abbreviation nobody_ready :: "machine \<Rightarrow> bool" where
  "nobody_ready m \<equiv> \<forall>p sa k. \<not> on_ready (mc m p) sa k"

text \<open>A thread that has not begun is the pending child, or its creator waits for it.\<close>

definition fresh_inv :: "machine \<Rightarrow> bool" where
  "fresh_inv m \<longleftrightarrow> (\<forall>q sa. mc m q = Fresh sa \<longrightarrow>
     pending_child (st (mw m)) = Some (sa, q) \<or> (\<exists>p k. on_ready (mc m p) sa k))"

definition run_inv :: "machine \<Rightarrow> bool" where
  "run_inv m \<longleftrightarrow> minv m \<and> own_inv m \<and> fresh_inv m"

lemma on_ready_active: "on_ready x sa k \<Longrightarrow> active x"
  by (auto simp: on_ready_def)

lemma on_readyE:
  assumes "minv m" and "on_ready (mc m p) sa k"
  obtains q fs where "fst k = InDrain sa q # fs" "pending_child (st (mw m)) = None"
    "pend_ok (mc m) (boxes (mw m)) sa q" "box_ok (mc m) (boxes (mw m))"
    "mc m p = Parked (ReadyCond sa) k \<Longrightarrow> mc m q = Fresh sa" "mc m p \<noteq> Fresh sa"
proof -
  have "holder_at (mw m) (mc m) p (mc m p)" using active_holder [OF assms(1)] on_ready_active [OF assms(2)] .
  then obtain q where d: "draining p (mc m) (mw m) sa q k" and f: "mc m p = Parked (ReadyCond sa) k \<longrightarrow> mc m q = Fresh sa"
    using assms(2) by (auto simp: on_ready_def)
  then have r: "running False p (mc m) (mw m)" and ds: "drain_stack p sa q (fst k) (needs_settled (snd k))"
    by (simp_all add: draining_def)
  from ds obtain fs where "fst k = InDrain sa q # fs" by (auto elim: drain_stackE)
  then show thesis using that d f runningD(4,7) [OF r] by (simp add: draining_def)
qed

lemma ready_box_fresh:
  assumes "pend_ok c bx sa q" and "box_ok c bx" and "c r = Fresh sa"
  shows "c q = Fresh sa" and "r = q"
proof -
  have "\<exists>a. bx sa = Some a \<and> \<not> ready a" using assms(2,3) unfolding box_ok_def by blast
  then show "c q = Fresh sa" using assms(1) by (auto simp: pend_ok_def)
  then show "r = q" using assms(2,3) by (auto simp: box_ok_def)
qed

text \<open>Where a creator waits, its child is the only thread that may not have begun.\<close>

lemma waiting_fresh:
  assumes inv: "run_inv m" and p: "on_ready (mc m p) sa k" and f: "mc m r = Fresh sa'"
  shows "sa' = sa"
proof -
  have m: "minv m" and fi: "fresh_inv m" using inv by (simp_all add: run_inv_def)
  obtain q fs where "pending_child (st (mw m)) = None" using m p by (rule on_readyE)
  then obtain p' k' where p': "on_ready (mc m p') sa' k'" using fi f unfolding fresh_inv_def by force
  then have "p' = p" using active_unique [OF m] on_ready_active p by blast
  then show ?thesis using p p' by (auto simp: on_ready_def)
qed

lemma fresh_thread_info:
  assumes m: "minv m" and q: "mc m q = Fresh sa"
  obtains t a where "info (st (mw m)) q = Some t" "boxes (mw m) sa = Some a" "\<not> ready a" "\<not> startup_done t"
proof -
  consider p where "holder_at (mw m) (mc m) p (mc m p)" | "stuck (mc m) (mw m)" using m by (auto simp: minv_def)
  then obtain P where "base P (mc m) (mw m)" "\<not> P q"
  proof cases
    case 1
    then obtain b where r: "running b p (mc m) (mw m)" using holder_running by blast
    then have "q \<noteq> p" using runningD(7) q by metis
    then show thesis using that [of "\<lambda>x. x = p"] r by (simp add: running_def)
  next
    case 2
    then show thesis using that [of "\<lambda>_. False"] by (simp add: stuck_def)
  qed
  then obtain t a where "info (st (mw m)) q = Some t" "boxes (mw m) sa = Some a" "\<not> ready a" "\<not> startup_done t"
    using fresh_info [of P "mc m" "mw m" q sa] q by metis
  then show thesis by (rule that)
qed

lemma fresh_starting:
  assumes inv: "run_inv m" and q: "mc m q = Fresh sa" and none: "nobody_ready m"
  shows "starting q sa (mw m)"
proof -
  have m: "minv m" and own: "own_inv m" and "fresh_inv m" using inv by (simp_all add: run_inv_def)
  then have "pending_child (st (mw m)) = Some (sa, q)" using q none unfolding fresh_inv_def by blast
  moreover have "q \<notin> set (m_waiters mu)" if "mutexes (st (mw m)) key = Some mu" for key mu
    using own that q unfolding own_inv_def mx_inv_def mx_entry_def by fastforce
  moreover obtain t a where "info (st (mw m)) q = Some t" "boxes (mw m) sa = Some a" "\<not> ready a" "\<not> startup_done t"
    using m q by (rule fresh_thread_info)
  ultimately show ?thesis by (auto simp: starting_def starting_st_def)
qed

lemma begin_thread_eq:
  assumes "mc m q = Fresh sa" and "info (st (mw m)) q = Some t" and "boxes (mw m) sa = Some a" and "effects (mw m) = []"
  shows "begin_thread pg q sa m = m\<lparr>mw := begun (gettid (start_answers pg q)) q sa (mw m),
     mc := (deliver (Signal (ReadyCond sa)) (mc m))(q := at_start q)\<rparr>"
proof -
  have "(trampolined env q sa t a (mw m))\<lparr>effects := []\<rparr> = begun (gettid env) q sa (mw m)" for env
    using assms(2-4) by (simp add: trampolined_def begun_def begun_st_def begun_thread_def)
  then show ?thesis using assms trampoline_eq [OF assms(2,3)] by (simp add: begin_thread_def del: deliver.simps)
qed

lemma deliver_ready_id:
  "(\<And>p k. c p \<noteq> Parked (ReadyCond sa) k) \<Longrightarrow> deliver (Signal (ReadyCond sa)) c = c"
  by (rule ext) (simp split: ctl.split)

lemma fold_deliver_local: "c r = c' r \<Longrightarrow> fold deliver es c r = fold deliver es c' r"
proof (induction es arbitrary: c c')
  case (Cons e es)
  have "deliver e c r = deliver e c' r" using Cons.prems by (cases e) simp_all
  then have "fold deliver es (deliver e c) r = fold deliver es (deliver e c') r" by (rule Cons.IH)
  then show ?case by simp
qed simp

section \<open>Segments of another thread\<close>

text \<open>The calls that the end of a segment makes to other threads.\<close>

definition calls_ok :: "(PthreadT \<Rightarrow> ctl) \<Rightarrow> world \<Rightarrow> bool" where
  "calls_ok c w \<longleftrightarrow> effects w = []
     \<or> (\<exists>n. effects w = [Signal (SuspendCond n)] \<and> eligible (st w) n)
     \<or> (\<exists>ch sa. effects w = [Spawn ch sa] \<and> (c ch = NoThread \<or> c ch = Gone)
          \<and> pending_child (st w) = Some (sa, ch))"

lemma api_ok_calls:
  assumes "api_ok p c out"
  shows "out = Done r w \<Longrightarrow> calls_ok c w"
    and "out = Park (SuspendCond y) k w \<Longrightarrow> calls_ok c w"
    and "out = Park (ReadyCond sa) k w \<Longrightarrow> effects w = [] \<and> pending_child (st w) = None \<and> (\<exists>ch. c ch = Fresh sa)"
  using assms by (cases r; auto simp: calls_ok_def ret_post_def gone_post_def opark_def susp_post_def drain_post_def)+

lemma calls_ok_ctl:
  assumes es: "calls_ok c w"
  shows "on_ready (fold deliver (effects w) c r) sa k \<Longrightarrow> on_ready (c r) sa k"
    and "fold deliver (effects w) c r = Fresh sa \<Longrightarrow> c r = Fresh sa \<or> pending_child (st w) = Some (sa, r)"
  using es by (auto simp: calls_ok_def on_ready_def split: ctl.splits if_splits)

lemma prompt_settle_cong:
  assumes "crash m1 = crash m2" and "\<And>r. r \<noteq> p \<Longrightarrow> mc m1 r = mc m2 r"
  shows "prompt pg (settle p out m1) = prompt pg (settle p out m2)"
proof -
  have c: "(fold deliver es (mc m1))(p := x) = (fold deliver es (mc m2))(p := x)" for es x
    using fold_deliver_local [of "mc m1" _ "mc m2" es] assms(2) by auto
  show ?thesis
  proof (cases out)
    case (Done r w)
    then show ?thesis using c assms(1) by (cases m1; cases m2) simp
  next
    case (Park y k w)
    then show ?thesis using c assms(1) by (cases m1; cases m2) simp
  qed (simp add: prompt_def)
qed

text \<open>The end of a segment that does not wait for a child, while one may not have begun.\<close>

definition moved :: "PthreadT \<Rightarrow> ctl \<Rightarrow> world \<Rightarrow> machine \<Rightarrow> machine" where
  "moved p x w m = m\<lparr>mw := w\<lparr>effects := []\<rparr>, mc := (fold deliver (effects w) (mc m))(p := x)\<rparr>"

lemma settle_moved:
  "settle p (Done r w) m = moved p (after_reply r) w m" "settle p (Park y k w) m = moved p (Parked y k) w m"
  by (simp_all add: moved_def)

lemma moved_nobody_ready:
  assumes "calls_ok (mc m) w" and "\<And>r sa k. r \<noteq> p \<Longrightarrow> \<not> on_ready (mc m r) sa k" and "\<And>sa k. \<not> on_ready x sa k"
  shows "nobody_ready (moved p x w m)"
proof (intro allI notI)
  fix r sa k assume "on_ready (mc (moved p x w m) r) sa k"
  then show False using calls_ok_ctl(1) [OF assms(1), of r sa k] assms(2) [of r sa k] assms(3) [of sa k]
    by (cases "r = p") (simp_all add: moved_def)
qed

lemma moved_fresh_inv:
  assumes "calls_ok (mc m) w" and "\<And>sa. x \<noteq> Fresh sa"
    and "\<And>r sa. mc m r = Fresh sa \<Longrightarrow> pending_child (st w) = Some (sa, r)"
  shows "fresh_inv (moved p x w m)"
proof -
  have "pending_child (st w) = Some (sa, r)" if "mc (moved p x w m) r = Fresh sa" for r sa
    using that calls_ok_ctl(2) [OF assms(1), of r sa] assms(2) [of sa] assms(3) [of r sa]
    by (cases "r = p") (auto simp: moved_def)
  moreover have "st (mw (moved p x w m)) = st w" by (simp add: moved_def)
  ultimately show ?thesis unfolding fresh_inv_def by presburger
qed

lemma moved_late:
  assumes es: "calls_ok (mc m) w" and q: "mc m q = Fresh sa" "p \<noteq> q" and none: "nobody_ready m"
    and w: "starting q sa w" and x: "\<And>sa k. \<not> on_ready x sa k"
    and n: "mc n = (mc m)(q := at_start q)" "crash n = crash m"
    and i: "i = gettid (start_answers pg q)"
  shows "prompt pg (moved p x w m) = prompt pg (moved p x (begun i q sa w) n)"
proof -
  let ?m = "moved p x w m" and ?n = "moved p x (begun i q sa w) n"
  obtain t a where t: "info (st w) q = Some t" "boxes w sa = Some a" "\<not> startup_done t"
      "pending_child (st w) = Some (sa, q)"
    using w by (auto simp: starting_def starting_st_def)
  have "\<not> eligible (st w) q" using t by (auto simp: eligible_def ineligible_def)
  then have keep: "fold deliver (effects w) (mc m) q = Fresh sa" "fold deliver (effects w) (mc n) q = at_start q"
    using es q n t(4) by (auto simp: calls_ok_def)
  have other: "fold deliver (effects w) (mc n) r = fold deliver (effects w) (mc m) r" if "r \<noteq> q" for r
    using that n by (intro fold_deliver_local) simp
  have fm: "mc ?m q = Fresh sa" using keep q by (simp add: moved_def)
  have "begin_thread pg q sa ?m = ?m\<lparr>mw := begun i q sa (mw ?m), mc := (deliver (Signal (ReadyCond sa)) (mc ?m))(q := at_start q)\<rparr>"
    unfolding i using t by (intro begin_thread_eq [OF fm]) (simp_all add: moved_def)
  moreover have "deliver (Signal (ReadyCond sa)) (mc ?m) = mc ?m"
    using moved_nobody_ready [OF es, of p x] none x by (intro deliver_ready_id) (auto simp: on_ready_def)
  moreover have "(mc ?m)(q := at_start q) = mc ?n"
    using keep other q by (auto simp: moved_def fun_eq_iff)
  moreover have "begun i q sa (mw ?m) = mw ?n" by (simp add: moved_def begun_def)
  moreover have "?m\<lparr>mw := mw ?n, mc := mc ?n\<rparr> = ?n" using n(2) by (simp add: moved_def)
  ultimately have "begin_thread pg q sa ?m = ?n" by simp
  then have "begin_pending pg ?m = ?n" using t by (simp add: begin_pending_def moved_def)
  moreover have "begin_pending pg ?n = ?n"
    using t keep q by (simp add: begin_pending_def begin_thread_def moved_def)
  moreover have "crash ?m = crash ?n" using n by (simp add: moved_def)
  ultimately show ?thesis by (simp add: prompt_def split: option.split)
qed

section \<open>The state a run stands for\<close>

inductive shadow :: "Program \<Rightarrow> log \<Rightarrow> machine \<Rightarrow> log \<Rightarrow> fault + machine \<Rightarrow> bool" for pg where
  shadow_run: "crash m \<noteq> None \<or> nobody_ready m \<Longrightarrow> shadow pg tr m tr (prompt pg m)"
| shadow_wait: "crash m = None \<Longrightarrow> on_ready (mc m p) sa k \<Longrightarrow> fst k = InDrain sa q # fs \<Longrightarrow>
    m1 = begin_thread pg q sa m \<Longrightarrow> out = resume (answers pg tr p) p k (mw m1) \<Longrightarrow>
    shadow pg tr m (returned p out tr) (prompt pg (settle p out m1))"

inductive_cases shadowE: "shadow pg tr m tr' x"

lemma shadow_prefix: "shadow pg tr m tr' x \<Longrightarrow> prefix tr tr'"
  by (erule shadowE) (auto simp: returned_def split: outcome.splits)

lemma shadow_runD:
  assumes "shadow pg tr m tr' x" and "crash m = None" and "nobody_ready m"
  shows "tr' = tr" and "x = Inr (begin_pending pg m)"
  using assms by (auto elim!: shadowE simp: prompt_def)

lemma shadow_waitD:
  assumes "shadow pg tr m tr' x" and "minv m" and "crash m = None" and p: "on_ready (mc m p) sa k" and k: "fst k = InDrain sa q # fs"
  obtains m1 out where "m1 = begin_thread pg q sa m" "out = resume (answers pg tr p) p k (mw m1)"
    "tr' = returned p out tr" "x = prompt pg (settle p out m1)"
  using assms(1)
proof cases
  case shadow_run
  then show thesis using assms(3) p by blast
next
  case a: (shadow_wait p' sa' k' q' fs' m1 out)
  have "p' = p" using active_unique [OF assms(2)] on_ready_active p a(4) by blast
  moreover then have "sa' = sa" "k' = k" using p a(4) by (auto simp: on_ready_def)
  moreover then have "q' = q" using k a(5) by simp
  ultimately show thesis using that a by blast
qed

text \<open>At most one thread has not begun.\<close>

lemma fresh_one:
  assumes inv: "run_inv m" and q: "mc m q = Fresh sa" and r: "mc m r = Fresh sa'"
  shows "r = q"
proof (cases "nobody_ready m")
  case True
  from fresh_starting [OF inv q True] fresh_starting [OF inv r True] show ?thesis
    by (simp add: starting_def starting_st_def)
next
  case False
  then obtain p y k where p: "on_ready (mc m p) y k" by blast
  have m: "minv m" using inv by (simp add: run_inv_def)
  obtain ch fs where "pend_ok (mc m) (boxes (mw m)) y ch" "box_ok (mc m) (boxes (mw m))"
    using m p by (rule on_readyE)
  then show ?thesis using ready_box_fresh(2) waiting_fresh [OF inv p] q r by metis
qed

lemma begun_machine:
  assumes inv: "run_inv m" and q: "mc m q = Fresh sa"
  shows "begin_thread pg q sa m = m\<lparr>mw := begun (gettid (start_answers pg q)) q sa (mw m),
     mc := (deliver (Signal (ReadyCond sa)) (mc m))(q := at_start q)\<rparr>"
proof -
  have m: "minv m" using inv by (simp add: run_inv_def)
  obtain t a where "info (st (mw m)) q = Some t" "boxes (mw m) sa = Some a" using m q by (rule fresh_thread_info)
  then show ?thesis using begin_thread_eq [OF q] m by (simp add: minv_def)
qed

lemma begun_no_fresh:
  assumes inv: "run_inv m" and q: "mc m q = Fresh sa"
  shows "mc (begin_thread pg q sa m) r \<noteq> Fresh sa'"
proof
  assume "mc (begin_thread pg q sa m) r = Fresh sa'"
  then have "r \<noteq> q" and "mc m r = Fresh sa'"
    unfolding begun_machine [OF assms] by (auto split: if_splits ctl.splits)
  then show False using fresh_one [OF inv q] by blast
qed

lemma begin_pending_none: "(\<And>q sa. mc m q \<noteq> Fresh sa) \<Longrightarrow> begin_pending pg m = m"
  by (simp add: begin_pending_def begin_thread_def split: option.split)

lemma begin_pending_fresh:
  assumes inv: "run_inv m" and q: "mc m q = Fresh sa" and none: "nobody_ready m"
  shows "begin_pending pg m = begin_thread pg q sa m"
  using fresh_starting [OF assms] by (simp add: begin_pending_def starting_def starting_st_def)

section \<open>Steps that only concern timing\<close>

lemma begin_shadow:
  assumes inv: "run_inv m" and nc: "crash m = None" and q: "mc m q = Fresh sa" and sh: "shadow pg tr m tr' x"
  shows "shadow pg tr (begin_thread pg q sa m) tr' x" and "fresh_inv (begin_thread pg q sa m)"
proof -
  let ?m = "begin_thread pg q sa m"
  note eq = begun_machine [OF inv q, of pg] and nf = begun_no_fresh [OF inv q, of pg]
  have m: "minv m" using inv by (simp add: run_inv_def)
  have nc': "crash ?m = None" using nc by (simp add: eq)
  show "fresh_inv ?m" using nf by (simp add: fresh_inv_def)
  show "shadow pg tr ?m tr' x"
  proof (cases "nobody_ready m")
    case True
    then have "deliver (Signal (ReadyCond sa)) (mc m) = mc m" by (intro deliver_ready_id) (auto simp: on_ready_def)
    then have "nobody_ready ?m" using True by (auto simp: eq on_ready_def)
    from shadow_run [of ?m pg tr, OF disjI2 [OF this]] show ?thesis
      using shadow_runD [OF sh nc True] begin_pending_fresh [OF inv q True] begin_pending_none [OF nf] nc'
      by (simp add: prompt_def)
  next
    case False
    then obtain p y k where p: "on_ready (mc m p) y k" by blast
    then have y: "y = sa" using waiting_fresh [OF inv p q] by simp
    obtain ch fs where k: "fst k = InDrain sa ch # fs" and po: "pend_ok (mc m) (boxes (mw m)) sa ch" "box_ok (mc m) (boxes (mw m))"
      using on_readyE [OF m p] y by metis
    then have ch: "ch = q" using ready_box_fresh(2) q by metis
    have pq: "p \<noteq> q" using p q by (auto simp: on_ready_def)
    then have "on_ready (mc ?m p) sa k" using p y by (auto simp: eq on_ready_def)
    moreover have "begin_thread pg q sa ?m = ?m" using nf by (simp add: begin_thread_def)
    moreover obtain out where "out = resume (answers pg tr p) p k (mw ?m)" "tr' = returned p out tr"
        "x = prompt pg (settle p out ?m)"
      using shadow_waitD [OF sh m nc p] k y ch by metis
    ultimately show ?thesis using shadow_wait [of ?m p sa k q fs ?m pg out tr] nc' k ch by simp
  qed
qed

text \<open>A creator that waits: whether it is parked or has been woken without need does not matter.\<close>

lemma parked_shadow:
  assumes inv: "run_inv m" and nc: "crash m = None" and p: "on_ready (mc m p) sa k" and q: "mc m q = Fresh sa"
    and sh: "shadow pg tr m tr' x" and c: "on_ready c sa k"
  shows "shadow pg tr (m\<lparr>mc := (mc m)(p := c)\<rparr>) tr' x" and "fresh_inv (m\<lparr>mc := (mc m)(p := c)\<rparr>)"
proof -
  let ?m = "m\<lparr>mc := (mc m)(p := c)\<rparr>"
  have m: "minv m" using inv by (simp add: run_inv_def)
  obtain ch fs where k: "fst k = InDrain sa ch # fs" and po: "pend_ok (mc m) (boxes (mw m)) sa ch" "box_ok (mc m) (boxes (mw m))"
    using m p by (rule on_readyE)
  have ch: "ch = q" using ready_box_fresh(2) [OF po q] by simp
  have pq: "p \<noteq> q" using p q by (auto simp: on_ready_def)
  have on: "on_ready (mc ?m p) sa k" using c by simp
  show "fresh_inv ?m" unfolding fresh_inv_def
  proof (intro allI impI disjI2)
    fix r sa' assume "mc ?m r = Fresh sa'"
    then have "mc m r = Fresh sa'" using c by (auto simp: on_ready_def split: if_splits)
    then have "sa' = sa" using waiting_fresh [OF inv p] by simp
    then show "\<exists>p k. on_ready (mc ?m p) sa' k" using on by blast
  qed
  obtain t a where t: "info (st (mw m)) q = Some t" "boxes (mw m) sa = Some a" using m q by (rule fresh_thread_info)
  have "begin_thread pg q sa ?m = begin_thread pg q sa m"
  proof -
    have "deliver (Signal (ReadyCond sa)) ((mc m)(p := c)) = deliver (Signal (ReadyCond sa)) (mc m)"
      using p c by (rule_tac ext) (auto simp: on_ready_def)
    moreover have "effects (mw m) = []" using m by (simp add: minv_def)
    ultimately show ?thesis
      using begin_thread_eq [of ?m q sa t a pg] begun_machine [OF inv q, of pg] q t pq by simp
  qed
  moreover obtain m1 out where "m1 = begin_thread pg q sa m" "out = resume (answers pg tr p) p k (mw m1)"
      "tr' = returned p out tr" "x = prompt pg (settle p out m1)"
    using shadow_waitD [OF sh m nc p] k ch by metis
  ultimately show "shadow pg tr ?m tr' x" using shadow_wait [of ?m p sa k q fs m1 pg out tr] nc k ch on by simp
qed

lemma resume_waits:
  assumes "fst k = InDrain sa q # fs" and "boxes w sa = Some a" and "\<not> ready a"
  shows "resume env p k w = Park (ReadyCond sa) k w"
  using assms by (cases k) (simp add: resume_def drain_loop_def)

section \<open>Segments\<close>

lemma other_not_ready:
  assumes "minv m" and "active (mc m p)" and "r \<noteq> p"
  shows "\<not> on_ready (mc m r) sa k"
  using active_unique [OF assms(1,2), of r] on_ready_active assms(3) by blast

lemma reply_not_ready: "\<not> on_ready (after_reply r) sa k" and reply_not_fresh: "after_reply r \<noteq> Fresh sa"
  by (cases r; simp add: on_ready_def)+

text \<open>A segment while every thread has begun.\<close>

lemma quiet_segment:
  assumes m: "minv m" and a: "active (mc m p)" and nf: "\<And>q sa. mc m q \<noteq> Fresh sa" and ok: "api_ok p (mc m) out"
  shows "shadow pg tr (settle p out m) tr (prompt pg (settle p out m))" and "fresh_inv (settle p out m)"
proof -
  have "shadow pg tr (settle p out m) tr (prompt pg (settle p out m)) \<and> fresh_inv (settle p out m)"
  proof (cases out)
    case (Done r w)
    then have es: "calls_ok (mc m) w" using api_ok_calls(1) [OF ok] by blast
    show ?thesis unfolding Done settle_moved
      using moved_nobody_ready [OF es, of p] other_not_ready [OF m a] reply_not_ready
        moved_fresh_inv [OF es, of "after_reply r" p] reply_not_fresh nf
      by (intro conjI shadow_run disjI2) auto
  next
    case (Park y k w)
    show ?thesis
    proof (cases y)
      case (SuspendCond r)
      then have es: "calls_ok (mc m) w" using api_ok_calls(2) [OF ok] Park by blast
      show ?thesis unfolding Park settle_moved
        using moved_nobody_ready [OF es, of p "Parked y k"] other_not_ready [OF m a] SuspendCond
          moved_fresh_inv [OF es, of "Parked y k" p] nf
        by (intro conjI shadow_run disjI2) (auto simp: on_ready_def)
    next
      case (ReadyCond sa)
      then show ?thesis using api_ok_calls(3) [OF ok] Park nf by blast
    qed
  next
    case (Fault e)
    then have "crash (settle p out m) \<noteq> None" and "fresh_inv (settle p out m)" using nf by (simp_all add: fresh_inv_def)
    then show ?thesis by (blast intro: shadow_run)
  qed
  then show "shadow pg tr (settle p out m) tr (prompt pg (settle p out m))" and "fresh_inv (settle p out m)" by simp_all
qed

text \<open>The one kind of segment that depends on the child: it waits for it, and goes on after it.\<close>

lemma late_wait:
  assumes inv: "run_inv m" and nc: "crash m = None" and q: "mc m q = Fresh sa" and none: "nobody_ready m" and pq: "p \<noteq> q"
    and ok: "api_ok p (mc m) (Park (ReadyCond sa) k w)"
    and out': "out' = resume (answers pg tr p) p k (begun (gettid (start_answers pg q)) q sa w)"
    and n: "n = begin_thread pg q sa m"
    and m': "m' = settle p (Park (ReadyCond sa) k w) m"
  shows "shadow pg tr m' (returned p out' tr) (prompt pg (settle p out' n)) \<and> fresh_inv m'"
proof -
  let ?i = "gettid (start_answers pg q)"
  have m: "minv m" using inv by (simp add: run_inv_def)
  have e: "effects w = []" using api_ok_calls(3) [OF ok] by blast
  have eq: "m' = m\<lparr>mw := w, mc := (mc m)(p := Parked (ReadyCond sa) k)\<rparr>" using m' e by simp
  have mv: "minv m'" unfolding m' using ok m nc by (rule settle_ok)
  have on: "on_ready (mc m' p) sa k" by (simp add: eq on_ready_def)
  have q': "mc m' q = Fresh sa" using q pq by (simp add: eq)
  obtain ch fs where k: "fst k = InDrain sa ch # fs" and po: "pend_ok (mc m') (boxes (mw m')) sa ch" "box_ok (mc m') (boxes (mw m'))"
    using mv on by (rule on_readyE)
  have ch: "ch = q" using ready_box_fresh(2) [OF po q'] by simp
  obtain t a where "info (st (mw m')) q = Some t" "boxes (mw m') sa = Some a" using mv q' by (rule fresh_thread_info)
  then have bt: "begin_thread pg q sa m' = m'\<lparr>mw := begun ?i q sa w, mc := (deliver (Signal (ReadyCond sa)) (mc m'))(q := at_start q)\<rparr>"
    using begin_thread_eq [OF q', of t a pg] e by (simp add: eq)
  have "shadow pg tr m' (returned p out' tr) (prompt pg (settle p out' (begin_thread pg q sa m')))"
    by (rule shadow_wait [of m' p sa k q fs]) (use nc on k ch bt out' in \<open>simp_all add: eq\<close>)
  moreover have "prompt pg (settle p out' (begin_thread pg q sa m')) = prompt pg (settle p out' n)"
  proof (rule prompt_settle_cong)
    show "crash (begin_thread pg q sa m') = crash n" using bt begun_machine [OF inv q, of pg] n by (simp add: eq)
    fix r assume "r \<noteq> p"
    then show "mc (begin_thread pg q sa m') r = mc n r"
      using bt begun_machine [OF inv q, of pg] n none by (auto simp: eq on_ready_def split: ctl.split)
  qed
  moreover have "fresh_inv m'" unfolding fresh_inv_def
  proof (intro allI impI disjI2)
    fix r sa' assume "mc m' r = Fresh sa'"
    then have "mc m r = Fresh sa'" by (auto simp: eq split: if_splits)
    then have "sa' = sa" using fresh_one [OF inv q] q by auto
    then show "\<exists>p k. on_ready (mc m' p) sa' k" using on by blast
  qed
  ultimately show ?thesis by simp
qed

text \<open>A segment while a child has not begun, and the same segment after it has.\<close>

lemma late_segment:
  assumes inv: "run_inv m" and nc: "crash m = None" and a: "active (mc m p)" and q: "mc m q = Fresh sa"
    and none: "nobody_ready m" and ok: "api_ok p (mc m) out"
    and late: "api_late (answers pg tr p) p (gettid (start_answers pg q)) q sa out out'"
    and n: "n = begin_thread pg q sa m"
  shows "shadow pg (returned p out tr) (settle p out m) (returned p out' tr) (prompt pg (settle p out' n))
     \<and> fresh_inv (settle p out m)"
proof -
  let ?i = "gettid (start_answers pg q)"
  have m: "minv m" using inv by (simp add: run_inv_def)
  have pq: "p \<noteq> q" using a q by auto
  have "deliver (Signal (ReadyCond sa)) (mc m) = mc m" using none by (intro deliver_ready_id) (auto simp: on_ready_def)
  then have mcn: "mc n = (mc m)(q := at_start q)" and cn: "crash n = crash m"
    using begun_machine [OF inv q, of pg] n by simp_all
  have pend: "pending_child (st w) = Some (sa', r)" if "starting q sa w" "mc m r = Fresh sa'" for w r sa'
    using that fresh_one [OF inv q that(2)] q by (auto simp: starting_def starting_st_def)
  have go: "shadow pg tr' (moved p x w m) tr' (prompt pg (moved p x (begun ?i q sa w) n)) \<and> fresh_inv (moved p x w m)"
    if es: "calls_ok (mc m) w" and w: "starting q sa w" and x: "\<And>sa k. \<not> on_ready x sa k" "\<And>sa. x \<noteq> Fresh sa" for x w tr'
  proof
    have "nobody_ready (moved p x w m)" using es other_not_ready [OF m a] x(1) by (rule moved_nobody_ready)
    from shadow_run [OF disjI2 [OF this]] show "shadow pg tr' (moved p x w m) tr' (prompt pg (moved p x (begun ?i q sa w) n))"
      unfolding moved_late [OF es q pq none w x(1) mcn cn refl] .
    show "fresh_inv (moved p x w m)" using es x(2) pend [OF w] by (rule moved_fresh_inv)
  qed
  show ?thesis
  proof (cases out)
    case (Done r w)
    then show ?thesis using late api_ok_calls(1) [OF ok Done] go [of w "after_reply r" "returned p out tr"]
      by (simp add: settle_moved reply_not_ready reply_not_fresh returned_def del: settle.simps)
  next
    case (Park y k w)
    show ?thesis
    proof (cases y)
      case (SuspendCond r)
      then show ?thesis using late Park api_ok_calls(2) [OF ok, of r k w] go [of w "Parked y k" "returned p out tr"]
        by (simp add: settle_moved returned_def on_ready_def del: settle.simps)
    next
      case (ReadyCond y')
      then show ?thesis using late Park late_wait [OF inv nc q none pq, of k w out' pg tr n "settle p out m"] ok n
        by (simp add: returned_def del: settle.simps)
    qed
  next
    case (Fault e)
    then have "out' = Fault e" using late by simp
    then have "prompt pg (settle p out' n) = prompt pg (settle p out m)" using Fault by (simp add: prompt_def)
    moreover have "shadow pg tr (settle p out m) tr (prompt pg (settle p out m))" using Fault by (intro shadow_run) simp
    moreover have "fresh_inv (settle p out m)" using inv Fault by (simp add: run_inv_def fresh_inv_def)
    ultimately show ?thesis using Fault \<open>out' = Fault e\<close> by (simp add: returned_def)
  qed
qed

section \<open>Turns\<close>

lemma turn_of_step:
  assumes "mstep (step_env pg tr act) act m = Some m'" and "follows pg tr act" and "\<And>q. act \<noteq> Begin q" "\<And>q. act \<noteq> Spurious q"
  shows "turn pg tr (actor act) m = Some (step_log pg act m tr, m')" and "active (mc m (actor act))"
  using assms by (cases act; auto simp: mstep_def turn_def step_log_def step_env_def follows_def ended_def called_def
      split: ctl.splits if_splits)+

lemma late_call:
  assumes w: "starting q sa w" and p: "p \<noteq> q" and fb: "\<And>s a r. call = CallCreate s a r \<Longrightarrow> fresh_box env w"
  shows "api_late env p i q sa (run_call env p call w) (run_call env p call (begun i q sa w))"
proof (cases call)
  case (CallCreate s a r)
  then show ?thesis using late_create [OF w] fb by simp
next
  case (NoteMutexDestroy lock)
  have "starting_st q sa ((st w)\<lparr>recursive_mutexes := x, mutexes := (mutexes (st w))(lock := None)\<rparr>)" for x
    using w starting_mutex(2) [of q sa "(st w)\<lparr>recursive_mutexes := x\<rparr>" lock] by (simp add: startingD)
  then show ?thesis using NoteMutexDestroy w
    by (simp add: note_call_def rsched_note_pthread_mutex_destroy_def begun_out starting_st_upd)
qed (use w p in \<open>simp_all add: late_switch(1) rsched_pthread_join_def late_thread_exit late_mutex_lock late_trylock
       late_mutex_unlock late_cond_wait late_cond_signal rsched_pthread_barrier_init_def late_switch(2)
       rsched_pthread_barrier_wait_def late_yield note_call_def begun_out starting_st_upd startingD
       rsched_note_pthread_mutexattr_init_def rsched_note_pthread_mutexattr_settype_def
       rsched_note_pthread_mutexattr_destroy_def rsched_note_pthread_mutex_init_def fun_eq_iff\<close>)

text \<open>The return of the real join.\<close>

lemma join_shadow:
  assumes inv: "run_inv m" and nc: "crash m = None" and none: "nobody_ready m" and a: "active (mc m p)"
    and p: "mc m p = Joining t"
  shows "\<exists>n2. turn pg tr p (begin_pending pg m) = Some (tr, n2)
     \<and> shadow pg tr (m\<lparr>mc := (mc m)(p := InUser)\<rparr>) tr (prompt pg n2) \<and> fresh_inv (m\<lparr>mc := (mc m)(p := InUser)\<rparr>)"
proof -
  let ?m = "m\<lparr>mc := (mc m)(p := InUser)\<rparr>"
  have m: "minv m" and fi: "fresh_inv m" using inv by (simp_all add: run_inv_def)
  have e: "effects (mw m) = []" using m by (simp add: minv_def)
  then have mv: "?m = moved p InUser (mw m) m" and es: "calls_ok (mc m) (mw m)" by (simp_all add: moved_def calls_ok_def)
  have "nobody_ready ?m" using none by (auto simp: on_ready_def)
  then have sh: "shadow pg tr ?m tr (prompt pg ?m)" by (blast intro: shadow_run)
  have fi': "fresh_inv ?m" using fi none by (auto simp: fresh_inv_def split: if_splits)
  show ?thesis
  proof (cases "\<exists>q sa. mc m q = Fresh sa")
    case False
    then have "begin_pending pg m = m" by (intro begin_pending_none) blast
    then show ?thesis using sh fi' p by (simp add: turn_def)
  next
    case True
    then obtain q sa where q: "mc m q = Fresh sa" by blast
    let ?n = "begin_thread pg q sa m"
    have pq: "p \<noteq> q" using a q by auto
    have "deliver (Signal (ReadyCond sa)) (mc m) = mc m" using none by (intro deliver_ready_id) (auto simp: on_ready_def)
    then have n: "mc ?n = (mc m)(q := at_start q)" "crash ?n = crash m" "mw ?n = begun (gettid (start_answers pg q)) q sa (mw m)"
      using begun_machine [OF inv q, of pg] by simp_all
    have "prompt pg ?m = prompt pg (moved p InUser (mw ?n) ?n)"
      unfolding mv n(3) by (rule moved_late [OF es q pq none fresh_starting [OF inv q none] _ n(1,2)]) (simp_all add: on_ready_def)
    moreover have "moved p InUser (mw ?n) ?n = ?n\<lparr>mc := (mc ?n)(p := InUser)\<rparr>" using e by (simp add: moved_def n(3) begun_def)
    ultimately show ?thesis using sh fi' p pq n(1) begin_pending_fresh [OF inv q none, of pg] by (simp add: turn_def)
  qed
qed

text \<open>The segment \<open>f\<close> of a turn, before and after the child has begun.\<close>

lemma segment_turn:
  assumes inv: "run_inv m" and nc: "crash m = None" and none: "nobody_ready m" and a: "active (mc m p)"
    and f: "\<And>n. mc n p = mc m p \<Longrightarrow> turn pg tr p n = Some (ended p (f (mw n)) n lg)"
    and ok: "api_ok p (mc m) (f (mw m))"
    and late: "\<And>q sa i. starting q sa (mw m) \<Longrightarrow> p \<noteq> q \<Longrightarrow>
         api_late (answers pg lg p) p i q sa (f (mw m)) (f (begun i q sa (mw m)))"
    and t: "turn pg tr p m = Some (tr', m')"
  shows "\<exists>tr2 n2. turn pg tr p (begin_pending pg m) = Some (tr2, n2) \<and> shadow pg tr' m' tr2 (prompt pg n2) \<and> fresh_inv m'"
proof -
  have m: "minv m" using inv by (simp add: run_inv_def)
  have m': "m' = settle p (f (mw m)) m" "tr' = returned p (f (mw m)) lg"
    using f [of m] t by (simp_all add: ended_def)
  show ?thesis
  proof (cases "\<exists>q sa. mc m q = Fresh sa")
    case False
    then have bp: "begin_pending pg m = m" by (intro begin_pending_none) blast
    have "shadow pg tr' m' tr' (prompt pg m')" "fresh_inv m'"
      unfolding m'(1) by (rule quiet_segment [OF m a]; use False ok in blast)+
    then show ?thesis unfolding bp using t by blast
  next
    case True
    then obtain q sa where q: "mc m q = Fresh sa" by blast
    let ?n = "begin_thread pg q sa m" and ?i = "gettid (start_answers pg q)"
    have bp: "begin_pending pg m = ?n" using begin_pending_fresh [OF inv q none] .
    have pq: "p \<noteq> q" using a q by auto
    have n: "mc ?n p = mc m p" "mw ?n = begun ?i q sa (mw m)"
      using begun_machine [OF inv q, of pg] pq none by (auto simp: on_ready_def split: ctl.split)
    have "shadow pg tr' m' (returned p (f (mw ?n)) lg) (prompt pg (settle p (f (mw ?n)) ?n)) \<and> fresh_inv m'"
      using late_segment [OF inv nc a q none ok late [OF fresh_starting [OF inv q none] pq, of ?i] refl] n(2) m' by simp
    then show ?thesis using f [OF n(1)] bp by (auto simp: ended_def)
  qed
qed

lemma turn_shadow:
  assumes inv: "run_inv m" and nc: "crash m = None" and none: "nobody_ready m"
    and act: "follows pg tr act" "os_ok (step_env pg tr act) act m" "\<And>q. act \<noteq> Begin q" "\<And>q. act \<noteq> Spurious q"
    and st: "mstep (step_env pg tr act) act m = Some m'"
  shows "\<exists>tr2 n2. turn pg tr (actor act) (begin_pending pg m) = Some (tr2, n2)
     \<and> shadow pg (step_log pg act m tr) m' tr2 (prompt pg n2) \<and> fresh_inv m'"
proof -
  let ?p = "actor act"
  have m: "minv m" using inv by (simp add: run_inv_def)
  have t: "turn pg tr ?p m = Some (step_log pg act m tr, m')" and a: "active (mc m ?p)"
    using turn_of_step [OF st act(1,3,4)] by simp_all
  note seg = segment_turn [OF inv nc none a _ _ _ t]
  show ?thesis
  proof (cases "mc m ?p")
    case InUser
    then obtain call where c: "act = Call ?p call" "call = next_call pg tr ?p"
      using st act by (cases act) (auto simp: mstep_def follows_def split: if_splits)
    let ?env = "answers pg (called pg tr ?p) ?p"
    have env: "step_env pg tr act = ?env" using c by (cases act) (simp_all add: step_env_def called_def)
    have os: "os_ok ?env (Call ?p call) m" using act(2) c(1) unfolding env by metis
    have fb: "fresh_box ?env (mw m)" if "call = CallCreate s d r" for s d r using os that by (simp add: os_ok_def)
    show ?thesis
      by (rule seg [where f = "run_call ?env ?p call" and lg = "called pg tr ?p"])
         (use InUser c call_api_ok [OF m InUser os] late_call fb in \<open>simp_all add: turn_def\<close>)
  next
    case (Woken y k)
    then obtain r where y: "y = SuspendCond r" using none unfolding on_ready_def by (metis waitq.exhaust)
    have c: "act = Resume ?p" using st act Woken by (cases act) (auto simp: mstep_def split: if_splits)
    let ?env = "answers pg tr ?p"
    have env: "step_env pg tr act = ?env" using c by (cases act) (simp_all add: step_env_def)
    have os: "os_ok ?env (Resume ?p) m" using act(2) c unfolding env by metis
    have k: "susp_stack ?p k" using active_holder [OF m a] Woken y by simp
    show ?thesis
      by (rule seg [where f = "resume ?env ?p k" and lg = tr])
         (use Woken resume_api_ok [OF m Woken os] late_resume k in \<open>simp_all add: turn_def\<close>)
  next
    case (Joining t')
    then have m': "step_log pg act m tr = tr" "m' = m\<lparr>mc := (mc m)(?p := InUser)\<rparr>" using t by (simp_all add: turn_def)
    then show ?thesis using join_shadow [OF inv nc none a Joining, of pg tr] by metis
  qed (use a none in \<open>auto elim: active.elims simp: on_ready_def\<close>)
qed

section \<open>Every run follows the prompt one\<close>

text \<open>A woken creator goes back to waiting, or goes on.\<close>

lemma woken_shadow:
  assumes inv: "run_inv m" and nc: "crash m = None" and p: "mc m p = Woken (ReadyCond sa) k" and sh: "shadow pg tr m tr1 x"
    and os: "os_ok (answers pg tr p) (Resume p) m" and out: "out = resume (answers pg tr p) p k (mw m)"
  shows "shadow pg (returned p out tr) (settle p out m) tr1 x" and "fresh_inv (settle p out m)"
proof -
  have m: "minv m" using inv by (simp add: run_inv_def)
  have on: "on_ready (mc m p) sa k" using p by (simp add: on_ready_def)
  obtain q fs where k: "fst k = InDrain sa q # fs" and po: "pend_ok (mc m) (boxes (mw m)) sa q" "box_ok (mc m) (boxes (mw m))"
    using m on by (rule on_readyE)
  have "shadow pg (returned p out tr) (settle p out m) tr1 x \<and> fresh_inv (settle p out m)"
  proof (cases "mc m q = Fresh sa")
    case True
    then obtain a where "boxes (mw m) sa = Some a" "\<not> ready a" using m fresh_thread_info by metis
    then have park: "out = Park (ReadyCond sa) k (mw m)" unfolding out using k by (intro resume_waits)
    have "settle p out m = m\<lparr>mc := (mc m)(p := Parked (ReadyCond sa) k)\<rparr>" using m unfolding park by (simp add: minv_def)
    moreover have "on_ready (Parked (ReadyCond sa) k) sa k" by (simp add: on_ready_def)
    ultimately show ?thesis using parked_shadow [OF inv nc on True sh] park by (simp add: returned_def)
  next
    case False
    have nf: "mc m r \<noteq> Fresh sa'" for r sa'
      using False ready_box_fresh(1) [OF po] waiting_fresh [OF inv on] by metis
    have ok: "api_ok p (mc m) out" unfolding out using m p os by (rule resume_api_ok)
    have "tr1 = returned p out tr" "x = prompt pg (settle p out m)"
      using shadow_waitD [OF sh m nc on k] False out by (metis begin_thread_def)+
    then show ?thesis using quiet_segment [OF m on_ready_active [OF on] nf ok] by simp
  qed
  then show "shadow pg (returned p out tr) (settle p out m) tr1 x" and "fresh_inv (settle p out m)" by simp_all
qed

text \<open>The steps that only concern timing, and the others.\<close>

lemma step_kinds:
  assumes m: "minv m" and act: "follows pg tr act" and st: "mstep (step_env pg tr act) act m = Some m'"
  obtains q where "act = Begin q" | q where "act = Spurious q"
    | p sa k where "act = Resume p" "mc m p = Woken (ReadyCond sa) k"
    | "\<And>q. act \<noteq> Begin q" "\<And>q. act \<noteq> Spurious q" "nobody_ready m"
proof (cases "nobody_ready m \<or> (\<exists>q. act = Begin q) \<or> (\<exists>q. act = Spurious q)")
  case True
  then show ?thesis using that by blast
next
  case False
  then obtain p sa k where p: "on_ready (mc m p) sa k" by blast
  have "actor act = p" using False turn_of_step(2) [OF st act] active_unique [OF m] on_ready_active [OF p] by blast
  then have "act = Resume p" "mc m p = Woken (ReadyCond sa) k"
    using False p st by (cases act; auto simp: mstep_def on_ready_def split: ctl.splits if_splits)+
  then show ?thesis by (rule that(3))
qed

lemma shadow_step:
  assumes inv: "run_inv m" and sh: "shadow pg tr m tr1 x" and run: "prompt_run pg pr seed j tr1 x"
    and act: "follows pg tr act" "os_checked (step_env pg tr act) act m" and st: "mstep (step_env pg tr act) act m = Some m'"
  shows "run_inv m' \<and> (\<exists>j tr2 x. prompt_run pg pr seed j tr2 x \<and> shadow pg (step_log pg act m tr) m' tr2 x)"
proof -
  have m: "minv m" and own: "own_inv m" using inv by (simp_all add: run_inv_def)
  have os: "os_ok (step_env pg tr act) act m" using act(2) by (simp add: os_checked_def)
  have m': "minv m'" "own_inv m'" using minv_step [OF m os st] own_inv_step [OF m own act(2) st] by simp_all
  have nc: "crash m = None" using st by (auto simp: mstep_def split: if_splits)
  have stay: ?thesis if "shadow pg (step_log pg act m tr) m' tr1 x" "fresh_inv m'"
    using that run m' by (auto simp: run_inv_def)
  from m act(1) st show ?thesis
  proof (cases rule: step_kinds)
    case (1 q)
    then obtain sa where q: "mc m q = Fresh sa" and eq: "m' = begin_thread pg q sa m"
      using st nc by (auto simp: mstep_def begin_thread_def step_env_def split: ctl.splits)
    show ?thesis using begin_shadow [OF inv nc q sh] 1 unfolding eq [symmetric] by (intro stay) (simp_all add: step_log_def)
  next
    case (2 q)
    then obtain sa k where p: "mc m q = Parked (ReadyCond sa) k" and eq: "m' = m\<lparr>mc := (mc m)(q := Woken (ReadyCond sa) k)\<rparr>"
      using st nc os by (auto simp: mstep_def os_ok_def split: ctl.splits waitq.splits)
    have on: "on_ready (mc m q) sa k" "on_ready (Woken (ReadyCond sa) k) sa k" using p by (simp_all add: on_ready_def)
    obtain ch where "mc m ch = Fresh sa" using on_readyE [OF m on(1)] p by metis
    from parked_shadow [OF inv nc on(1) this sh on(2)] show ?thesis
      using 2 unfolding eq [symmetric] by (intro stay) (simp_all add: step_log_def)
  next
    case (3 p sa k)
    have "m' = settle p (resume (answers pg tr p) p k (mw m)) m"
      and "step_log pg act m tr = returned p (resume (answers pg tr p) p k (mw m)) tr"
      using 3 st nc by (simp_all add: mstep_def step_log_def step_env_def)
    then show ?thesis using woken_shadow [OF inv nc 3(2) sh _ refl] os 3(1) by (intro stay) (simp_all add: step_env_def)
  next
    case 4
    have eq: "tr1 = tr" "x = Inr (begin_pending pg m)" using shadow_runD [OF sh nc 4(3)] by simp_all
    obtain tr2 n2 where t: "turn pg tr (actor act) (begin_pending pg m) = Some (tr2, n2)"
      and s2: "shadow pg (step_log pg act m tr) m' tr2 (prompt pg n2)" "fresh_inv m'"
      using turn_shadow [OF inv nc 4(3) act(1) os 4(1,2) st] by blast
    have "minv (begin_pending pg m)"
      using begin_ok [OF m nc] m by (auto simp: begin_pending_def begin_thread_def split: option.split)
    moreover have "active (mc (begin_pending pg m) (actor act))"
      using t by (auto simp: turn_def split: ctl.splits)
    ultimately have "prompt_run pg pr seed (Suc j) tr2 (prompt pg n2)"
      using prompt_step run eq t by blast
    then show ?thesis using s2 m' by (auto simp: run_inv_def)
  qed
qed

lemma logged_shadow:
  assumes "logged pg pr seed m tr"
  shows "run_inv m \<and> (\<exists>j tr2 x. prompt_run pg pr seed j tr2 x \<and> shadow pg tr m tr2 x)"
  using assms
proof (induction rule: logged.induct)
  case logged_init
  let ?m = "init_machine pr seed"
  have nf: "mc ?m q \<noteq> Fresh sa" for q sa by (simp add: init_machine_def)
  have none: "nobody_ready ?m" by (simp add: init_machine_def on_ready_def)
  have "prompt pg ?m = Inr ?m" using begin_pending_none [of ?m pg] nf by (simp add: prompt_def init_machine_def)
  then have "shadow pg [] ?m [] (Inr ?m)" using shadow_run [of ?m pg "[]"] none by metis
  moreover have "run_inv ?m" using minv_init own_inv_init nf by (simp add: run_inv_def fresh_inv_def)
  ultimately show ?case using prompt_init by blast
next
  case (logged_step m tr act m')
  then show ?case using shadow_step by blast
qed

interpretation replay: following_runs "logged pg pr seed" "prompt_run pg pr seed" "shadow pg" for pg pr seed
proof unfold_locales
  show "\<exists>k t c. prompt_run pg pr seed k t c \<and> shadow pg tr s t c" if "logged pg pr seed s tr" for s tr
    using logged_shadow [OF that] by blast
  show "prefix tr t" if "shadow pg tr s t c" for tr s t c using that by (rule shadow_prefix)
  show "t' = t" if "prompt_run pg pr seed k t c" "prompt_run pg pr seed k t' c'" for k t c t' c'
    using prompt_run_det [OF that] by blast
  show "\<exists>t0 c0. prompt_run pg pr seed k t0 c0 \<and> prefix t0 t" if "prompt_run pg pr seed (Suc k) t c" for k t c
    using that by (rule prompt_run_grows)
qed

text \<open>C2: a schedule is repeated. Fix the seed, the program and the answers of the system as functions of
  the log. Two runs then have the same log as far as both go, whenever their new threads start and
  whatever spurious wake-ups the wait for a child sees.\<close>

theorem schedules_replay:
  assumes "logged pg pr seed m tr" and "logged pg pr seed m' tr'"
  shows "prefix tr tr' \<or> prefix tr' tr"
  using assms by (rule replay.runs_agree)

text \<open>Two runs of one program. The main thread creates a thread and yields; the thread starts before
  the yield, or only after it, when the main thread waits for it.\<close>

definition demo_program :: Program where
  "demo_program = \<lparr>next_call = (\<lambda>tr p. if tr = [] then CallCreate 0 0 0 else CallYield 0),
     answers = (\<lambda>_ _. demo_env), start_answers = (\<lambda>_. demo_env)\<rparr>"

lemmas logged_defs = checked_defs demo_program_def follows_def step_env_def step_log_def returned_def

lemma demo_prompt:
  "map_option snd (run_logged demo_program [Call 1 (CallCreate 0 0 0), Begin 2, Call 1 (CallYield 0)]
     (init_machine demo_process 7) [])
   = Some [(1, Called (CallCreate 0 0 0)), (1, Returned (Ret 0)), (1, Called (CallYield 0))]"
  by (simp add: logged_defs)

lemma demo_late:
  "map_option snd (run_logged demo_program
     [Call 1 (CallCreate 0 0 0), Call 1 (CallYield 0), Spurious 1, Resume 1, Begin 2, Resume 1, Resume 2]
     (init_machine demo_process 7) [])
   = Some [(1, Called (CallCreate 0 0 0)), (1, Returned (Ret 0)), (1, Called (CallYield 0)), (2, Returned EnterRoutine)]"
  by (simp add: logged_defs)

theorem schedules_replay_witness:
  "\<exists>m tr m' tr'. logged demo_program demo_process 7 m tr \<and> logged demo_program demo_process 7 m' tr'
     \<and> length tr = 3 \<and> length tr' = 4 \<and> (prefix tr tr' \<or> prefix tr' tr)"
proof -
  obtain m where "logged demo_program demo_process 7 m
      [(1, Called (CallCreate 0 0 0)), (1, Returned (Ret 0)), (1, Called (CallYield 0))]" (is "logged _ _ _ m ?tr")
    using demo_prompt by (rule logged_runE)
  moreover obtain m' where "logged demo_program demo_process 7 m'
      [(1, Called (CallCreate 0 0 0)), (1, Returned (Ret 0)), (1, Called (CallYield 0)), (2, Returned EnterRoutine)]"
      (is "logged _ _ _ m' ?tr'")
    using demo_late by (rule logged_runE)
  moreover have "length ?tr = 3" "length ?tr' = 4" by simp_all
  ultimately show ?thesis using schedules_replay by blast
qed

end
