(* ===== verification/Rsched_Depth.thy ===== *)
theory Rsched_Depth
  imports Rsched_Prelude
begin

text \<open>
  The call depth of a thread and the wrappers around the library's own synchronisation,
  \<^verbatim>\<open>src/rsched/src/lib.rs\<close> lines 522-622 and 885-943. \<open>CALL_DEPTH\<close> is a 32-bit thread-local counter;
  the wrappers are the sequences of primitive operations they perform on behalf of the calling
  thread: depth changes, calls of the real threads library, and annotations for the sanitiser.
\<close>

section \<open>The counter\<close>

text \<open>\<open>fetch_add\<close> and \<open>fetch_sub\<close> on an atomic wrap around in every build.\<close>

definition rsched_try_enter :: "u32 \<Rightarrow> bool \<times> u32" where
  "rsched_try_enter d = (d = 0, d + 1)"

definition rsched_exit :: "u32 \<Rightarrow> u32" where
  "rsched_exit d = d - 1"

definition depth_enter :: "u32 \<Rightarrow> u32" where
  "depth_enter d = d + 1"

definition depth_exit :: "u32 \<Rightarrow> u32" where
  "depth_exit d = d - 1"

definition is_in_rsched :: "u32 \<Rightarrow> bool" where
  "is_in_rsched d \<longleftrightarrow> 0 < d"

section \<open>Primitive operations\<close>

datatype prim =
    DepthEnter
  | DepthExit
  | GmtxLock
  | GmtxUnlock
  | CondWait waitq
  | RealCall
  | IgnoreBegin
  | IgnoreEnd
  | TsanAcquire usize
  | TsanRelease usize

text \<open>Which sanitiser functions are there: the crate is built with the \<open>tsan\<close> feature and the weak symbol
  is resolved in the running program. Without the feature all four are absent.\<close>

record TsanSymbols =
  sym_acquire :: bool
  sym_release :: bool
  sym_ignore_begin :: bool
  sym_ignore_end :: bool

definition with_internal_depth :: "prim list \<Rightarrow> prim list" where
  "with_internal_depth f = DepthEnter # f @ [DepthExit]"

definition tsan_acquire :: "TsanSymbols \<Rightarrow> usize \<Rightarrow> prim list" where
  "tsan_acquire ts addr = (if sym_acquire ts then [TsanAcquire addr] else [])"

definition tsan_release :: "TsanSymbols \<Rightarrow> usize \<Rightarrow> prim list" where
  "tsan_release ts addr = (if sym_release ts then [TsanRelease addr] else [])"

definition tsan_ignore_begin :: "TsanSymbols \<Rightarrow> prim list" where
  "tsan_ignore_begin ts = (if sym_ignore_begin ts then [IgnoreBegin] else [])"

definition tsan_ignore_end :: "TsanSymbols \<Rightarrow> prim list" where
  "tsan_ignore_end ts = (if sym_ignore_end ts then [IgnoreEnd] else [])"

definition glock :: "prim list" where "glock = with_internal_depth [GmtxLock]"
definition gunlock :: "prim list" where "gunlock = with_internal_depth [GmtxUnlock]"

definition sync_acquire :: "TsanSymbols \<Rightarrow> prim list" where "sync_acquire ts = tsan_ignore_begin ts"
definition sync_release :: "TsanSymbols \<Rightarrow> prim list" where "sync_release ts = tsan_ignore_end ts"

definition rsched_glock :: "TsanSymbols \<Rightarrow> prim list" where
  "rsched_glock ts = glock @ sync_acquire ts"

definition rsched_gunlock :: "TsanSymbols \<Rightarrow> prim list" where
  "rsched_gunlock ts = sync_release ts @ gunlock"

definition rsched_cond_wait :: "TsanSymbols \<Rightarrow> waitq \<Rightarrow> prim list" where
  "rsched_cond_wait ts cond = sync_release ts @ with_internal_depth [CondWait cond] @ sync_acquire ts"

definition tsan_user_acquire :: "TsanSymbols \<Rightarrow> usize \<Rightarrow> prim list" where
  "tsan_user_acquire ts addr = tsan_ignore_end ts @ tsan_acquire ts addr @ tsan_ignore_begin ts"

definition tsan_user_release :: "TsanSymbols \<Rightarrow> usize \<Rightarrow> prim list" where
  "tsan_user_release ts addr = tsan_ignore_end ts @ tsan_release ts addr @ tsan_ignore_begin ts"

text \<open>What an exported function does between taking and releasing GMTX: waits, annotations of user
  locks, and real library calls.\<close>

datatype doing = Waits waitq | Acquires usize | Releases usize | CallsReal

fun doing_prims :: "TsanSymbols \<Rightarrow> doing \<Rightarrow> prim list" where
  "doing_prims ts (Waits q) = rsched_cond_wait ts q"
| "doing_prims ts (Acquires a) = tsan_user_acquire ts a"
| "doing_prims ts (Releases a) = tsan_user_release ts a"
| "doing_prims ts CallsReal = with_internal_depth [RealCall]"

definition exported_call :: "TsanSymbols \<Rightarrow> doing list \<Rightarrow> prim list" where
  "exported_call ts ds = rsched_glock ts @ concat (map (doing_prims ts) ds) @ rsched_gunlock ts"

section \<open>The discipline\<close>

text \<open>
  A monitor of one thread: its depth, how often it has told the sanitiser to ignore it, and whether it
  holds GMTX. A primitive is refused (\<open>None\<close>) when it breaks the rules the code lives by: real library
  calls happen at a positive depth, so that an intercepted call they make is recognised as nested;
  GMTX is neither taken twice nor released by a thread that does not hold it; a wait releases it, so
  it needs it; annotations of user locks are not ignored, everything between them is; nothing counts
  below zero.
\<close>

record monitor =
  m_depth :: u32
  m_ignore :: nat
  m_held :: bool

fun watch :: "prim \<Rightarrow> monitor \<Rightarrow> monitor option" where
  "watch DepthEnter m = Some (m\<lparr>m_depth := depth_enter (m_depth m)\<rparr>)"
| "watch DepthExit m = (if m_depth m = 0 then None else Some (m\<lparr>m_depth := depth_exit (m_depth m)\<rparr>))"
| "watch GmtxLock m = (if is_in_rsched (m_depth m) \<and> \<not> m_held m then Some (m\<lparr>m_held := True\<rparr>) else None)"
| "watch GmtxUnlock m = (if is_in_rsched (m_depth m) \<and> m_held m then Some (m\<lparr>m_held := False\<rparr>) else None)"
| "watch (CondWait q) m = (if is_in_rsched (m_depth m) \<and> m_held m \<and> m_ignore m = 0 then Some m else None)"
| "watch RealCall m = (if is_in_rsched (m_depth m) then Some m else None)"
| "watch IgnoreBegin m = Some (m\<lparr>m_ignore := m_ignore m + 1\<rparr>)"
| "watch IgnoreEnd m = (if m_ignore m = 0 then None else Some (m\<lparr>m_ignore := m_ignore m - 1\<rparr>))"
| "watch (TsanAcquire a) m = (if m_ignore m = 0 \<and> m_held m then Some m else None)"
| "watch (TsanRelease a) m = (if m_ignore m = 0 \<and> m_held m then Some m else None)"

fun watch_all :: "prim list \<Rightarrow> monitor \<Rightarrow> monitor option" where
  "watch_all [] m = Some m"
| "watch_all (p # ps) m = (case watch p m of None \<Rightarrow> None | Some m' \<Rightarrow> watch_all ps m')"

lemma watch_all_append:
  "watch_all (ps @ qs) m = Option.bind (watch_all ps m) (watch_all qs)"
  by (induction ps arbitrary: m) (auto split: option.split)

text \<open>Inside a call: GMTX held, ignored by the sanitiser if it is there.\<close>

definition inside :: "TsanSymbols \<Rightarrow> u32 \<Rightarrow> monitor" where
  "inside ts d = \<lparr>m_depth = d, m_ignore = (if sym_ignore_begin ts then 1 else 0), m_held = True\<rparr>"

lemma enter_positive: "d \<noteq> - 1 \<Longrightarrow> 0 < depth_enter d" "depth_exit (depth_enter d) = d"
proof -
  assume "d \<noteq> - 1"
  then have "d + 1 \<noteq> 0" by (metis add_eq_0_iff minus_minus neg_eq_iff_add_eq_0)
  then show "0 < depth_enter d" by (simp add: depth_enter_def word_gt_0)
qed (simp add: depth_enter_def depth_exit_def)

lemmas wrapper_defs = rsched_glock_def rsched_gunlock_def rsched_cond_wait_def tsan_user_acquire_def
  tsan_user_release_def glock_def gunlock_def sync_acquire_def sync_release_def with_internal_depth_def
  tsan_acquire_def tsan_release_def tsan_ignore_begin_def tsan_ignore_end_def

lemma doing_keeps_inside:
  assumes "d \<noteq> - 1" and "sym_ignore_begin ts = sym_ignore_end ts"
  shows "watch_all (doing_prims ts x) (inside ts d) = Some (inside ts d)"
  using enter_positive [of d] assms
  by (cases x) (auto simp: wrapper_defs inside_def is_in_rsched_def)

lemma doings_keep_inside:
  assumes "d \<noteq> - 1" and "sym_ignore_begin ts = sym_ignore_end ts"
  shows "watch_all (concat (map (doing_prims ts) ds)) (inside ts d) = Some (inside ts d)"
  by (induction ds) (simp_all add: watch_all_append doing_keeps_inside [OF assms])



end
