(* ===== verification/Rsched_Sleep.thy ===== *)
theory Rsched_Sleep
  imports Rsched_Prelude
begin

text \<open>
  Virtual sleeps of \<^verbatim>\<open>src/rsched/preload/src/lib.rs\<close> (lines 678-757): an intercepted sleep does not
  block, it yields to the scheduler a number of times that grows with the requested duration. The
  source computes that number in saturating 64-bit arithmetic.
\<close>

section \<open>Saturating arithmetic\<close>

definition saturating_mul :: "u64 \<Rightarrow> u64 \<Rightarrow> u64" where
  "saturating_mul a b = (if 2 ^ 64 \<le> unat a * unat b then - 1 else a * b)"

definition saturating_add :: "u64 \<Rightarrow> u64 \<Rightarrow> u64" where
  "saturating_add a b = (if 2 ^ 64 \<le> unat a + unat b then - 1 else a + b)"

definition clamp :: "u64 \<Rightarrow> u64 \<Rightarrow> u64 \<Rightarrow> u64" where
  "clamp n lo hi = (if n < lo then lo else if hi < n then hi else n)"

section \<open>How often to yield\<close>

text \<open>The loop of \<open>virtual_sleep_yields\<close> calls \<open>rsched_sched_yield\<close> this many times.\<close>

definition virtual_sleep_yields :: "u64 \<Rightarrow> nat" where
  "virtual_sleep_yields n = unat (clamp (saturating_mul n 100) 1 100000)"

text \<open>\<open>timespec\<close>: two signed 64-bit fields; \<open>None\<close> is a null pointer.\<close>

record timespec =
  tv_sec :: "64 word"
  tv_nsec :: "64 word"

definition max0 :: "64 word \<Rightarrow> u64" where
  "max0 x = (if sint x < 0 then 0 else x)"

definition timespec_yields :: "timespec option \<Rightarrow> u64" where
  "timespec_yields req =
     (case req of
        None \<Rightarrow> 1
      | Some ts \<Rightarrow>
          let sec = max0 (tv_sec ts); nsec = max0 (tv_nsec ts)
          in max (saturating_add (saturating_mul sec 1000) (saturating_add nsec 999999 div 1000000)) 1)"

definition nanosleep_yields :: "timespec option \<Rightarrow> nat" where
  "nanosleep_yields req = virtual_sleep_yields (timespec_yields req)"

definition usleep_yields :: "u32 \<Rightarrow> nat" where
  "usleep_yields usec = virtual_sleep_yields (saturating_add (ucast usec) 999 div 1000)"

definition sleep_yields :: "u32 \<Rightarrow> nat" where
  "sleep_yields secs = virtual_sleep_yields (saturating_mul (ucast secs) 1000)"

section \<open>Lemmas on saturation\<close>

lemma unat_minus_1: "unat (- 1 :: u64) = 2 ^ 64 - 1"
  by (simp add: unsigned_minus_1_eq_mask mask_eq_exp_minus_1)

lemma unat_saturating_mul: "unat (saturating_mul a b) = min (2 ^ 64 - 1) (unat a * unat b)"
  by (auto simp: saturating_mul_def unat_minus_1 unat_word_ariths)

lemma unat_saturating_add: "unat (saturating_add a b) = min (2 ^ 64 - 1) (unat a + unat b)"
  by (auto simp: saturating_add_def unat_minus_1 unat_word_ariths)

lemma unat_clamp: "lo \<le> hi \<Longrightarrow> unat (clamp n lo hi) = min (unat hi) (max (unat lo) (unat n))"
  by (auto simp: clamp_def word_less_nat_alt word_le_nat_alt)

lemma unat_max: "unat (max a (b :: u64)) = max (unat a) (unat b)"
  by (auto simp: max_def word_le_nat_alt)

lemma virtual_sleep_yields_eq: "virtual_sleep_yields n = min 100000 (max 1 (100 * unat n))"
proof -
  have "virtual_sleep_yields n = min 100000 (max 1 (min (2 ^ 64 - 1) (unat n * 100)))"
    unfolding virtual_sleep_yields_def by (subst unat_clamp) (simp_all add: unat_saturating_mul)
  also have "\<dots> = min 100000 (max 1 (100 * unat n))" by (simp add: min_def max_def)
  finally show ?thesis .
qed

text \<open>Saturation above the clamp does not show.\<close>

lemma clamp_saturated:
  fixes x y M :: nat
  assumes "1000 \<le> M"
  shows "min 100000 (max 1 (100 * max (min M (min M x + y)) 1)) = min 100000 (max 100 (100 * (x + y)))"
proof (cases "x + y \<le> M")
  case True
  then have "min M (min M x + y) = x + y" by simp
  then show ?thesis by (simp add: max_def)
next
  case False
  then have "min M (min M x + y) = M" by (simp add: min_def)
  then show ?thesis using assms False by simp
qed

lemma unat_max0: "unat (max0 x) = nat (sint x)"
proof (cases "sint x < 0")
  case False
  moreover have "sint x < 2 ^ 63" using sint_lt [of x] by simp
  ultimately have "uint x = sint x" by (subst uint_sint) (simp add: take_bit_int_eq_self)
  then have "unat x = nat (sint x)" by (metis nat_uint_eq)
  then show ?thesis using False by (simp add: max0_def)
qed (simp add: max0_def)

section \<open>Properties\<close>

text \<open>C24: the number of yields is exact and bounded. It is one hundred per started millisecond, at
  least one and at most 100000, computed as if in unbounded arithmetic: a negative field counts as
  zero, and saturation never shows. In particular every virtual sleep ends.\<close>

theorem sleep_yields_exact:
  "nanosleep_yields (Some ts)
     = min 100000 (max 100 (100 * (nat (sint (tv_sec ts)) * 1000 + (nat (sint (tv_nsec ts)) + 999999) div 1000000)))
   \<and> nanosleep_yields None = 100
   \<and> usleep_yields usec = min 100000 (max 1 (100 * ((unat usec + 999) div 1000)))
   \<and> sleep_yields secs = min 100000 (max 1 (100 * (unat secs * 1000)))"
proof (intro conjI)
  let ?sec = "nat (sint (tv_sec ts))" and ?nsec = "nat (sint (tv_nsec ts))"
  have bound: "unat (max0 (tv_nsec ts)) < 2 ^ 63"
  proof -
    have "sint (tv_nsec ts) < 2 ^ 63" using sint_lt [of "tv_nsec ts"] by simp
    then show ?thesis by (simp add: unat_max0)
  qed
  have "unat (timespec_yields (Some ts))
      = max (min (2 ^ 64 - 1) (min (2 ^ 64 - 1) (?sec * 1000) + (?nsec + 999999) div 1000000)) 1"
    using bound by (simp add: timespec_yields_def Let_def unat_max unat_saturating_add unat_saturating_mul
        unat_div_distrib unat_max0)
  then show "nanosleep_yields (Some ts)
      = min 100000 (max 100 (100 * (?sec * 1000 + (?nsec + 999999) div 1000000)))"
    unfolding nanosleep_yields_def virtual_sleep_yields_eq
    by (simp only:) (rule clamp_saturated, simp)
  show "nanosleep_yields None = 100"
    by (simp add: nanosleep_yields_def timespec_yields_def virtual_sleep_yields_eq)
  have "unat usec < 2 ^ 32" using unat_bound [of usec] by simp
  then show "usleep_yields usec = min 100000 (max 1 (100 * ((unat usec + 999) div 1000)))"
    by (simp add: usleep_yields_def virtual_sleep_yields_eq unat_div_distrib unat_saturating_add unat_widen64)
  have "unat secs < 2 ^ 32" using unat_bound [of secs] by simp
  then show "sleep_yields secs = min 100000 (max 1 (100 * (unat secs * 1000)))"
    by (simp add: sleep_yields_def virtual_sleep_yields_eq unat_saturating_mul unat_widen64)
qed

end
