(* ===== verification/Rsched_Bytes.thy ===== *)
theory Rsched_Bytes
  imports Rsched_Prelude
begin

text \<open>
  Bytes and memory: little-endian numbers, and reading and writing ranges of a byte-addressed 64-bit
  memory. Addresses wrap around.
\<close>

type_synonym memory = "usize \<Rightarrow> u8"

section \<open>Little-endian numbers\<close>

text \<open>\<open>from_le_bytes\<close> and \<open>to_le_bytes\<close>.\<close>

fun le_nat :: "u8 list \<Rightarrow> nat" where
  "le_nat [] = 0"
| "le_nat (b # bs) = unat b + 256 * le_nat bs"

fun to_le :: "nat \<Rightarrow> nat \<Rightarrow> u8 list" where
  "to_le 0 v = []"
| "to_le (Suc n) v = of_nat (v mod 256) # to_le n (v div 256)"

lemma le_nat_bound: "le_nat bs < 256 ^ length bs"
proof (induction bs)
  case (Cons b bs)
  have "unat b < 256" using unsigned_less [of b] by simp
  with Cons show ?case by simp
qed simp

lemma length_to_le [simp]: "length (to_le n v) = n"
  by (induction n arbitrary: v) simp_all

lemma le_nat_to_le: "le_nat (to_le n v) = v mod 256 ^ n"
proof (induction n arbitrary: v)
  case (Suc n)
  have "unat (of_nat (v mod 256) :: u8) = v mod 256" by (simp add: unat_of_nat)
  then show ?case using Suc by (simp add: mod_mult2_eq)
qed simp

lemma to_le_le_nat: "to_le (length bs) (le_nat bs) = bs"
proof (induction bs)
  case (Cons b bs)
  have b: "unat b < 256" using unsigned_less [of b] by simp
  have "(unat b + 256 * le_nat bs) mod 256 = unat b" "(unat b + 256 * le_nat bs) div 256 = le_nat bs"
    using b by simp_all
  then show ?case using Cons by simp
qed simp

section \<open>Memory\<close>

definition bytes_at :: "memory \<Rightarrow> usize \<Rightarrow> nat \<Rightarrow> u8 list" where
  "bytes_at mem a n = map (\<lambda>i. mem (a + of_nat i)) [0..<n]"

definition store_bytes :: "memory \<Rightarrow> usize \<Rightarrow> u8 list \<Rightarrow> memory" where
  "store_bytes mem a bs = (\<lambda>x. if unat (x - a) < length bs then bs ! unat (x - a) else mem x)"

definition in_range :: "usize \<Rightarrow> nat \<Rightarrow> usize \<Rightarrow> bool" where
  "in_range a n x \<longleftrightarrow> unat (x - a) < n"

definition disjoint :: "usize \<Rightarrow> nat \<Rightarrow> usize \<Rightarrow> nat \<Rightarrow> bool" where
  "disjoint a n b k \<longleftrightarrow> (\<forall>x. \<not> (in_range a n x \<and> in_range b k x))"

lemma length_bytes_at [simp]: "length (bytes_at mem a n) = n"
  by (simp add: bytes_at_def)

lemma unat_offset: "i < 2 ^ 64 \<Longrightarrow> unat (a + of_nat i - a :: usize) = i"
  by (simp add: unat_of_nat)

lemma bytes_at_store [simp]:
  "length bs < 2 ^ 64 \<Longrightarrow> bytes_at (store_bytes mem a bs) a (length bs) = bs"
  by (rule nth_equalityI) (simp_all add: bytes_at_def store_bytes_def unat_of_nat)

lemma store_outside: "\<not> in_range a (length bs) x \<Longrightarrow> store_bytes mem a bs x = mem x"
  by (simp add: store_bytes_def in_range_def)

lemma bytes_at_cong:
  assumes "\<And>x. in_range a n x \<Longrightarrow> mem x = mem' x" and "n < 2 ^ 64"
  shows "bytes_at mem a n = bytes_at mem' a n"
  using assms by (auto simp: bytes_at_def in_range_def unat_of_nat)

lemma bytes_at_store_disjoint:
  assumes "disjoint a n b (length bs)" and "n < 2 ^ 64"
  shows "bytes_at (store_bytes mem b bs) a n = bytes_at mem a n"
  using assms by (intro bytes_at_cong) (auto simp: disjoint_def intro: store_outside)

lemma store_bytes_same:
  assumes "bytes_at mem a (length bs) = bs"
  shows "store_bytes mem a bs = mem"
proof
  fix x
  have "bs ! unat (x - a) = mem x" if "unat (x - a) < length bs"
  proof -
    have "bs ! unat (x - a) = bytes_at mem a (length bs) ! unat (x - a)" using assms by simp
    also have "\<dots> = mem (a + of_nat (unat (x - a)))" using that by (simp add: bytes_at_def)
    finally show ?thesis by simp
  qed
  then show "store_bytes mem a bs x = mem x" by (simp add: store_bytes_def)
qed

lemma store_bytes_twice:
  "length bs = length cs \<Longrightarrow> store_bytes (store_bytes mem a bs) a cs = store_bytes mem a cs"
  by (auto simp: store_bytes_def)

section \<open>Words in memory\<close>

definition load32 :: "memory \<Rightarrow> usize \<Rightarrow> u32" where
  "load32 mem a = of_nat (le_nat (bytes_at mem a 4))"

definition store32 :: "memory \<Rightarrow> usize \<Rightarrow> u32 \<Rightarrow> memory" where
  "store32 mem a v = store_bytes mem a (to_le 4 (unat v))"

definition load64 :: "memory \<Rightarrow> usize \<Rightarrow> u64" where
  "load64 mem a = of_nat (le_nat (bytes_at mem a 8))"

definition store64 :: "memory \<Rightarrow> usize \<Rightarrow> u64 \<Rightarrow> memory" where
  "store64 mem a v = store_bytes mem a (to_le 8 (unat v))"

lemma load32_store32 [simp]: "load32 (store32 mem a v) a = v"
proof -
  have "bytes_at (store32 mem a v) a 4 = to_le 4 (unat v)"
    using bytes_at_store [of "to_le 4 (unat v)" mem a] by (simp add: store32_def)
  moreover have "unat v < 256 ^ 4" using unat_bound [of v] by simp
  ultimately show ?thesis by (simp add: load32_def le_nat_to_le)
qed

lemma load64_store64 [simp]: "load64 (store64 mem a v) a = v"
proof -
  have "bytes_at (store64 mem a v) a 8 = to_le 8 (unat v)"
    using bytes_at_store [of "to_le 8 (unat v)" mem a] by (simp add: store64_def)
  moreover have "unat v < 256 ^ 8" using unat_bound [of v] by simp
  ultimately show ?thesis by (simp add: load64_def le_nat_to_le)
qed

lemma store32_outside: "\<not> in_range a 4 x \<Longrightarrow> store32 mem a v x = mem x"
  by (simp add: store32_def store_outside)

lemma store64_outside: "\<not> in_range a 8 x \<Longrightarrow> store64 mem a v x = mem x"
  by (simp add: store64_def store_outside)

lemma load32_store32_disjoint [simp]: "disjoint a 4 b 4 \<Longrightarrow> load32 (store32 mem b v) a = load32 mem a"
  by (simp add: load32_def store32_def bytes_at_store_disjoint)

lemma store32_load32 [simp]: "store32 mem a (load32 mem a) = mem"
proof -
  let ?bs = "bytes_at mem a 4"
  have "le_nat ?bs < 2 ^ 32" using le_nat_bound [of ?bs] by simp
  then have "unat (load32 mem a) = le_nat ?bs" by (simp add: load32_def unat_of_nat)
  then have "to_le 4 (unat (load32 mem a)) = ?bs" using to_le_le_nat [of ?bs] by simp
  then show ?thesis by (simp add: store32_def store_bytes_same)
qed

lemma store32_twice [simp]: "store32 (store32 mem a v) a u = store32 mem a u"
  by (simp add: store32_def store_bytes_twice)

end
