(* ===== verification/Rsched_Elf.thy ===== *)
theory Rsched_Elf
  imports Rsched_Bytes
begin

text \<open>
  The ELF reader of \<^verbatim>\<open>src/rsched/preload/src/lib.rs\<close> (lines 207-334): it decides whether an offset
  into an object file lies inside the function symbol with a given name. File offsets are \<open>usize\<close>
  words taken from the file itself, so every addition and multiplication is checked (\<open>oc\<close>) or wraps,
  as the build decides. An early \<open>return\<close> of the Rust function is \<open>Inr (Some b)\<close>, the end of a loop
  iteration without a return is \<open>Inr None\<close>.
\<close>

unbundle bit_operations_syntax

section \<open>Reading bytes\<close>

text \<open>\<open>slice::get\<close> with a range and with an index.\<close>

definition get_range :: "u8 list \<Rightarrow> usize \<Rightarrow> usize \<Rightarrow> u8 list option" where
  "get_range data a b =
     (if unat a \<le> unat b \<and> unat b \<le> length data
      then Some (take (unat b - unat a) (drop (unat a) data)) else None)"

definition get_byte :: "u8 list \<Rightarrow> usize \<Rightarrow> u8 option" where
  "get_byte data i = (if unat i < length data then Some (data ! unat i) else None)"

definition read_le :: "bool \<Rightarrow> u8 list \<Rightarrow> usize \<Rightarrow> usize \<Rightarrow> fault + nat option" where
  "read_le oc data off width =
     (case chk_add oc off width of
        Inl e \<Rightarrow> Inl e
      | Inr e \<Rightarrow> Inr (map_option le_nat (get_range data off e)))"

definition read_u16 :: "bool \<Rightarrow> u8 list \<Rightarrow> usize \<Rightarrow> fault + u16 option" where
  "read_u16 oc data off = map_sum id (map_option of_nat) (read_le oc data off 2)"

definition read_u32 :: "bool \<Rightarrow> u8 list \<Rightarrow> usize \<Rightarrow> fault + u32 option" where
  "read_u32 oc data off = map_sum id (map_option of_nat) (read_le oc data off 4)"

definition read_u64 :: "bool \<Rightarrow> u8 list \<Rightarrow> usize \<Rightarrow> fault + u64 option" where
  "read_u64 oc data off = map_sum id (map_option of_nat) (read_le oc data off 8)"

text \<open>The bytes up to the next zero byte; \<open>None\<close> when the offset is outside or no zero follows.\<close>

definition cstr_at :: "u8 list \<Rightarrow> usize \<Rightarrow> u8 list option" where
  "cstr_at data off =
     (if unat off \<le> length data
      then let tail = drop (unat off) data
           in if 0 \<in> set tail then Some (takeWhile (\<lambda>b. b \<noteq> 0) tail) else None
      else None)"

section \<open>Looking for the symbol\<close>

type_synonym flow = "fault + bool option"

text \<open>A checked computation, and a \<open>match\<close> that returns \<open>false\<close> on \<open>None\<close>.\<close>

definition checked :: "fault + 'a \<Rightarrow> ('a \<Rightarrow> fault + 'b) \<Rightarrow> fault + 'b" where
  "checked r k = (case r of Inl e \<Rightarrow> Inl e | Inr a \<Rightarrow> k a)"

definition or_false :: "fault + 'a option \<Rightarrow> ('a \<Rightarrow> flow) \<Rightarrow> flow" where
  "or_false r k = checked r (\<lambda>x. case x of None \<Rightarrow> Inr (Some False) | Some a \<Rightarrow> k a)"

definition SHT_SYMTAB :: u32 where "SHT_SYMTAB = 2"
definition STT_FUNC :: u8 where "STT_FUNC = 2"

text \<open>One symbol at address \<open>pos\<close>, and the loop over the symbols of a table.\<close>

definition elf_symbol ::
  "bool \<Rightarrow> u8 list \<Rightarrow> usize \<Rightarrow> u8 list \<Rightarrow> u8 list \<Rightarrow> usize \<Rightarrow> flow" where
  "elf_symbol oc data offset expected strtab pos =
     or_false (read_u32 oc data pos) (\<lambda>name_off.
     checked (chk_add oc pos 4) (\<lambda>pos4.
     or_false (Inr (get_byte data pos4)) (\<lambda>infobyte.
     if infobyte AND 0x0f \<noteq> STT_FUNC then Inr None
     else
       checked (chk_add oc pos 8) (\<lambda>pos8. or_false (read_u64 oc data pos8) (\<lambda>value.
       checked (chk_add oc pos 16) (\<lambda>pos16. or_false (read_u64 oc data pos16) (\<lambda>sz.
       if sz = 0 \<or> offset < value then Inr None
       else checked (chk_add oc value sz) (\<lambda>top.
         if top \<le> offset then Inr None
         else Inr (Some (cstr_at strtab (ucast name_off) = Some expected))))))))))"

fun elf_symbols ::
  "bool \<Rightarrow> u8 list \<Rightarrow> usize \<Rightarrow> u8 list \<Rightarrow> u8 list \<Rightarrow> usize \<Rightarrow> usize \<Rightarrow> nat \<Rightarrow> nat \<Rightarrow> flow" where
  "elf_symbols oc data offset expected strtab sym_off sym_entsize sym_idx 0 = Inr None"
| "elf_symbols oc data offset expected strtab sym_off sym_entsize sym_idx (Suc n) =
     checked (chk_mul oc (of_nat sym_idx) sym_entsize) (\<lambda>d.
     checked (chk_add oc sym_off d) (\<lambda>pos.
     checked (elf_symbol oc data offset expected strtab pos) (\<lambda>r. case r of
        Some b \<Rightarrow> Inr (Some b)
      | None \<Rightarrow> elf_symbols oc data offset expected strtab sym_off sym_entsize (Suc sym_idx) n)))"

text \<open>The body of the loop over the sections, and the loop.\<close>

definition elf_section ::
  "bool \<Rightarrow> u8 list \<Rightarrow> usize \<Rightarrow> u8 list \<Rightarrow> usize \<Rightarrow> usize \<Rightarrow> usize \<Rightarrow> usize \<Rightarrow> flow" where
  "elf_section oc data offset expected shoff shentsize shnum idx =
     checked (chk_mul oc idx shentsize) (\<lambda>d. checked (chk_add oc shoff d) (\<lambda>sh.
     checked (chk_add oc sh 4) (\<lambda>a. or_false (read_u32 oc data a) (\<lambda>sh_type.
     if sh_type \<noteq> SHT_SYMTAB then Inr None
     else
       checked (chk_add oc sh 0x18) (\<lambda>a. or_false (read_u64 oc data a) (\<lambda>sym_off.
       checked (chk_add oc sh 0x20) (\<lambda>a. or_false (read_u64 oc data a) (\<lambda>sym_size.
       checked (chk_add oc sh 0x38) (\<lambda>a. or_false (read_u64 oc data a) (\<lambda>sym_entsize.
       checked (chk_add oc sh 0x28) (\<lambda>a. or_false (read_u32 oc data a) (\<lambda>str_idx32.
       let str_idx = ucast str_idx32 :: usize
       in if sym_entsize < 24 \<or> shnum \<le> str_idx then Inr (Some False)
          else
            checked (chk_mul oc str_idx shentsize) (\<lambda>d. checked (chk_add oc shoff d) (\<lambda>str_sh.
            checked (chk_add oc str_sh 0x18) (\<lambda>a. or_false (read_u64 oc data a) (\<lambda>str_off.
            checked (chk_add oc str_sh 0x20) (\<lambda>a. or_false (read_u64 oc data a) (\<lambda>str_size.
            checked (chk_add oc str_off str_size) (\<lambda>str_end.
            or_false (Inr (get_range data str_off str_end)) (\<lambda>strtab.
              elf_symbols oc data offset expected strtab sym_off sym_entsize 0
                (unat (sym_size div sym_entsize))))))))))))))))))))))"

fun elf_sections ::
  "bool \<Rightarrow> u8 list \<Rightarrow> usize \<Rightarrow> u8 list \<Rightarrow> usize \<Rightarrow> usize \<Rightarrow> usize \<Rightarrow> nat \<Rightarrow> nat \<Rightarrow> flow" where
  "elf_sections oc data offset expected shoff shentsize shnum idx 0 = Inr None"
| "elf_sections oc data offset expected shoff shentsize shnum idx (Suc n) =
     checked (elf_section oc data offset expected shoff shentsize shnum (of_nat idx)) (\<lambda>r. case r of
        Some b \<Rightarrow> Inr (Some b)
      | None \<Rightarrow> elf_sections oc data offset expected shoff shentsize shnum (Suc idx) n)"

definition elf_scan :: "bool \<Rightarrow> u8 list \<Rightarrow> usize \<Rightarrow> u8 list \<Rightarrow> flow" where
  "elf_scan oc data offset expected =
     (if get_range data 0 4 \<noteq> Some [0x7f, 0x45, 0x4c, 0x46] \<or> get_byte data 4 \<noteq> Some 2
         \<or> get_byte data 5 \<noteq> Some 1
      then Inr (Some False)
      else
        or_false (read_u64 oc data 0x28) (\<lambda>shoff.
        or_false (read_u16 oc data 0x3a) (\<lambda>shentsize16.
        or_false (read_u16 oc data 0x3c) (\<lambda>shnum16.
        let shentsize = ucast shentsize16 :: usize; shnum = ucast shnum16 :: usize
        in if shentsize < 64 then Inr (Some False)
           else elf_sections oc data offset expected shoff shentsize shnum 0 (unat shnum)))))"

text \<open>The file system is outside: \<open>read_file\<close> gives the contents of a file, or \<open>None\<close>. After both
  loops the result is \<open>false\<close>.\<close>

definition elf_symbol_contains ::
  "bool \<Rightarrow> (string \<Rightarrow> u8 list option) \<Rightarrow> string \<Rightarrow> usize \<Rightarrow> u8 list \<Rightarrow> fault + bool" where
  "elf_symbol_contains oc read_file path offset expected =
     (case read_file path of
        None \<Rightarrow> Inr False
      | Some data \<Rightarrow> checked (elf_scan oc data offset expected) (\<lambda>r. case r of
            Some b \<Rightarrow> Inr b
          | None \<Rightarrow> Inr False))"

section \<open>What the file says\<close>

text \<open>
  The same file read with unbounded offsets: \<open>field\<close> is the little-endian number of a given width
  at an offset, and \<open>has_symbol\<close> says that section \<open>i\<close> is a symbol table whose entry \<open>j\<close> is a
  function covering \<open>offset\<close>, named \<open>name\<close> in the string table the section links to.
\<close>

definition field :: "u8 list \<Rightarrow> nat \<Rightarrow> nat \<Rightarrow> nat option" where
  "field data off width =
     (if off + width \<le> length data then Some (le_nat (take width (drop off data))) else None)"

definition section_at :: "u8 list \<Rightarrow> nat \<Rightarrow> nat option" where
  "section_at data i =
     (case (field data 0x28 8, field data 0x3a 2) of
        (Some shoff, Some shentsize) \<Rightarrow> Some (shoff + i * shentsize)
      | _ \<Rightarrow> None)"

definition str_table :: "u8 list \<Rightarrow> nat \<Rightarrow> u8 list option" where
  "str_table data sh =
     (case (field data (sh + 0x18) 8, field data (sh + 0x20) 8) of
        (Some off, Some sz) \<Rightarrow> if off + sz \<le> length data then Some (take sz (drop off data)) else None
      | _ \<Rightarrow> None)"

definition covers :: "u8 list \<Rightarrow> nat \<Rightarrow> nat \<Rightarrow> bool" where
  "covers data pos offset \<longleftrightarrow>
     (\<exists>value sz. field data (pos + 8) 8 = Some value \<and> field data (pos + 16) 8 = Some sz
        \<and> value \<le> offset \<and> offset < value + sz)"

definition is_func :: "u8 list \<Rightarrow> nat \<Rightarrow> bool" where
  "is_func data pos \<longleftrightarrow> (\<exists>b. field data (pos + 4) 1 = Some b \<and> b mod 16 = 2)"

definition named :: "u8 list \<Rightarrow> nat \<Rightarrow> u8 list \<Rightarrow> u8 list \<Rightarrow> bool" where
  "named data pos strtab name \<longleftrightarrow>
     (\<exists>n rest. field data pos 4 = Some n \<and> n \<le> length strtab \<and> 0 \<notin> set name
        \<and> drop n strtab = name @ 0 # rest)"

definition has_symbol :: "u8 list \<Rightarrow> nat \<Rightarrow> u8 list \<Rightarrow> nat \<Rightarrow> nat \<Rightarrow> bool" where
  "has_symbol data offset name i j \<longleftrightarrow>
     (\<exists>sh off sz ent str_idx str_sh strtab.
        section_at data i = Some sh \<and> field data (sh + 4) 4 = Some 2
        \<and> field data (sh + 0x18) 8 = Some off \<and> field data (sh + 0x20) 8 = Some sz
        \<and> field data (sh + 0x38) 8 = Some ent \<and> field data (sh + 0x28) 4 = Some str_idx
        \<and> section_at data str_idx = Some str_sh \<and> str_table data str_sh = Some strtab
        \<and> j < sz div ent
        \<and> is_func data (off + j * ent) \<and> covers data (off + j * ent) offset
        \<and> named data (off + j * ent) strtab name)"

section \<open>Reading and checked arithmetic\<close>

lemma checked_Inr [simp]: "checked (Inr a) k = k a"
  by (simp add: checked_def)

lemma checked_InrE:
  assumes "checked r k = Inr y"
  obtains a where "r = Inr a" "k a = Inr y"
  using assms by (cases r) (auto simp: checked_def)

lemma or_false_TrueE:
  assumes "or_false r k = Inr (Some True)"
  obtains a where "r = Inr (Some a)" "k a = Inr (Some True)"
  using assms by (auto simp: or_false_def elim!: checked_InrE split: option.splits)

lemma field_bound: "field data off width = Some n \<Longrightarrow> n < 256 ^ width"
  using le_nat_bound [of "take width (drop off data)"] by (simp add: field_def split: if_splits)

lemma read_le_field:
  assumes "read_le True data off width = Inr (Some n)"
  shows "field data (unat off) (unat width) = Some n"
proof -
  obtain e where "chk_add True off width = Inr e" "get_range data off e \<noteq> None"
      "n = le_nat (the (get_range data off e))"
    using assms by (auto simp: read_le_def split: sum.splits)
  then show ?thesis by (auto simp: field_def get_range_def chk_add_exact split: if_splits)
qed

lemma read_fields:
  "read_u16 True data off = Inr (Some v) \<Longrightarrow> field data (unat off) 2 = Some (unat v)"
  "read_u32 True data off = Inr (Some w) \<Longrightarrow> field data (unat off) 4 = Some (unat w)"
  "read_u64 True data off = Inr (Some x) \<Longrightarrow> field data (unat off) 8 = Some (unat x)"
proof -
  have get: "\<exists>n. read_le True data off width = Inr (Some n) \<and> y = of_nat n"
    if "map_sum id (map_option of_nat) (read_le True data off width) = Inr (Some y)" for width and y :: "'a::len word"
    using that by (cases "read_le True data off width") auto
  show "field data (unat off) 2 = Some (unat v)" if "read_u16 True data off = Inr (Some v)"
    using get [OF that [unfolded read_u16_def]] field_bound [of data "unat off" 2]
    by (auto dest!: read_le_field simp: unat_of_nat)
  show "field data (unat off) 4 = Some (unat w)" if "read_u32 True data off = Inr (Some w)"
    using get [OF that [unfolded read_u32_def]] field_bound [of data "unat off" 4]
    by (auto dest!: read_le_field simp: unat_of_nat)
  show "field data (unat off) 8 = Some (unat x)" if "read_u64 True data off = Inr (Some x)"
    using get [OF that [unfolded read_u64_def]] field_bound [of data "unat off" 8]
    by (auto dest!: read_le_field simp: unat_of_nat)
qed

lemma get_byte_field: "get_byte data i = Some b \<Longrightarrow> field data (unat i) 1 = Some (unat b)"
  by (auto simp: get_byte_def field_def take_Suc_conv_app_nth hd_drop_conv_nth take_Suc split: if_splits)

lemma unat_widen [simp]:
  "unat (ucast (a :: u16) :: usize) = unat a"
  "unat (ucast (b :: u32) :: usize) = unat b"
proof -
  have "unat a < 2 ^ 64" using unat_bound [of a] by simp
  then show "unat (ucast a :: usize) = unat a" by (simp add: unsigned_ucast_eq take_bit_nat_eq_self)
  have "unat b < 2 ^ 64" using unat_bound [of b] by simp
  then show "unat (ucast b :: usize) = unat b" by (simp add: unsigned_ucast_eq take_bit_nat_eq_self)
qed

text \<open>What a successful lookup has read, step by step.\<close>

lemmas read_trace = checked_InrE or_false_TrueE

lemma cstr_at_named:
  assumes "cstr_at strtab n = Some name"
  shows "\<exists>rest. unat n \<le> length strtab \<and> 0 \<notin> set name \<and> drop (unat n) strtab = name @ 0 # rest"
proof -
  let ?t = "drop (unat n) strtab"
  have *: "unat n \<le> length strtab" "0 \<in> set ?t" "name = takeWhile (\<lambda>b. b \<noteq> 0) ?t"
    using assms by (auto simp: cstr_at_def Let_def split: if_splits)
  have ne: "dropWhile (\<lambda>b. b \<noteq> 0) ?t \<noteq> []" using *(2) by (simp add: dropWhile_eq_Nil_conv)
  then have "hd (dropWhile (\<lambda>b. b \<noteq> 0) ?t) = 0" using hd_dropWhile by blast
  then have "?t = name @ 0 # tl (dropWhile (\<lambda>b. b \<noteq> 0) ?t)"
    using *(3) ne takeWhile_dropWhile_id [of "\<lambda>b. b \<noteq> 0" ?t] by (metis list.collapse)
  moreover have "0 \<notin> set name" using *(3) by (auto dest: set_takeWhileD)
  ultimately show ?thesis using *(1) by blast
qed

lemma elf_symbol_True:
  assumes "elf_symbol True data offset expected strtab pos = Inr (Some True)"
  shows "is_func data (unat pos)" and "covers data (unat pos) (unat offset)"
    and "named data (unat pos) strtab expected"
proof -
  obtain nm pos4 b pos8 val pos16 sz top where
    nm: "read_u32 True data pos = Inr (Some nm)" and p4: "chk_add True pos 4 = Inr pos4"
    and b: "get_byte data pos4 = Some b" and f: "b AND 0x0f = STT_FUNC"
    and p8: "chk_add True pos 8 = Inr pos8" and v: "read_u64 True data pos8 = Inr (Some val)"
    and p16: "chk_add True pos 16 = Inr pos16" and z: "read_u64 True data pos16 = Inr (Some sz)"
    and lo: "\<not> offset < val" and t: "chk_add True val sz = Inr top" and hi: "\<not> top \<le> offset"
    and c: "cstr_at strtab (ucast nm) = Some expected"
    using assms unfolding elf_symbol_def
    by (elim read_trace) (auto elim!: read_trace split: if_splits)
  have m: "b AND 0x0f = take_bit 4 b" by (simp add: take_bit_eq_mask mask_eq_exp_minus_1)
  have "unat b mod 16 = unat (b AND 0x0f)" unfolding m by (simp add: take_bit_eq_mod unat_mod_distrib)
  then have "unat b mod 16 = 2" using f by (simp add: STT_FUNC_def)
  then show "is_func data (unat pos)"
    using get_byte_field [OF b] chk_add_exact [OF p4] by (auto simp: is_func_def)
  show "covers data (unat pos) (unat offset)"
    using read_fields(3) [OF v] read_fields(3) [OF z] chk_add_exact [OF p8] chk_add_exact [OF p16]
      chk_add_exact [OF t] lo hi by (auto simp: covers_def word_less_nat_alt word_le_nat_alt)
  show "named data (unat pos) strtab expected"
    using read_fields(2) [OF nm] cstr_at_named [OF c] by (auto simp: named_def)
qed

lemma elf_symbols_True:
  assumes "elf_symbols True data offset expected strtab sym_off ent k n = Inr (Some True)"
    and "k + n < 2 ^ 64"
  shows "\<exists>j pos. k \<le> j \<and> j < k + n \<and> unat pos = unat sym_off + j * unat ent
    \<and> elf_symbol True data offset expected strtab pos = Inr (Some True)"
  using assms
proof (induction n arbitrary: k)
  case (Suc n)
  obtain d pos r where d: "chk_mul True (of_nat k) ent = Inr d" and p: "chk_add True sym_off d = Inr pos"
    and r: "elf_symbol True data offset expected strtab pos = Inr r"
    and rest: "(case r of Some b \<Rightarrow> Inr (Some b)
        | None \<Rightarrow> elf_symbols True data offset expected strtab sym_off ent (Suc k) n) = Inr (Some True)"
    using Suc.prems(1) by (auto elim!: checked_InrE)
  have "unat (of_nat k :: usize) = k" using Suc.prems(2) by (simp add: unat_of_nat)
  then have pos: "unat pos = unat sym_off + k * unat ent"
    using chk_mul_exact [OF d] chk_add_exact [OF p] by simp
  show ?case
  proof (cases r)
    case None
    then have "elf_symbols True data offset expected strtab sym_off ent (Suc k) n = Inr (Some True)"
      using rest by simp
    from Suc.IH [OF this] Suc.prems(2) obtain j pos' where
      "Suc k \<le> j" "j < Suc k + n" "unat pos' = unat sym_off + j * unat ent"
      "elf_symbol True data offset expected strtab pos' = Inr (Some True)" by auto
    then show ?thesis by (intro exI [of _ j] exI [of _ pos']) simp
  next
    case (Some b)
    then show ?thesis using r rest pos by (intro exI [of _ k] exI [of _ pos]) simp
  qed
qed simp

text \<open>The header fields that \<open>elf_scan\<close> has read before it enters the loop.\<close>

definition elf_header :: "u8 list \<Rightarrow> usize \<Rightarrow> usize \<Rightarrow> bool" where
  "elf_header data shoff shentsize \<longleftrightarrow>
     field data 0x28 8 = Some (unat shoff) \<and> field data 0x3a 2 = Some (unat shentsize)"

lemma section_at_header:
  "elf_header data shoff shentsize \<Longrightarrow> section_at data i = Some (unat shoff + i * unat shentsize)"
  by (simp add: elf_header_def section_at_def)

lemma elf_section_True:
  assumes "elf_section True data offset expected shoff shentsize shnum idx = Inr (Some True)"
    and hdr: "elf_header data shoff shentsize"
  shows "\<exists>j. has_symbol data (unat offset) expected (unat idx) j"
proof -
  obtain d sh a1 a2 a3 a4 a5 off sz ent si d' str_sh b1 b2 so ss se strtab where
    sh: "chk_mul True idx shentsize = Inr d" "chk_add True shoff d = Inr sh"
    and ty: "chk_add True sh 4 = Inr a1" "read_u32 True data a1 = Inr (Some SHT_SYMTAB)"
    and off: "chk_add True sh 0x18 = Inr a2" "read_u64 True data a2 = Inr (Some off)"
    and sz: "chk_add True sh 0x20 = Inr a3" "read_u64 True data a3 = Inr (Some sz)"
    and ent: "chk_add True sh 0x38 = Inr a4" "read_u64 True data a4 = Inr (Some ent)"
    and si: "chk_add True sh 0x28 = Inr a5" "read_u32 True data a5 = Inr (Some si)"
    and str: "chk_mul True (ucast si) shentsize = Inr d'" "chk_add True shoff d' = Inr str_sh"
    and so: "chk_add True str_sh 0x18 = Inr b1" "read_u64 True data b1 = Inr (Some so)"
    and ss: "chk_add True str_sh 0x20 = Inr b2" "read_u64 True data b2 = Inr (Some ss)"
    and se: "chk_add True so ss = Inr se" "get_range data so se = Some strtab"
    and loop: "elf_symbols True data offset expected strtab off ent 0 (unat (sz div ent)) = Inr (Some True)"
    using assms(1) unfolding elf_section_def Let_def
    by (elim read_trace) (auto elim!: read_trace split: if_splits)
  note exact = chk_mul_exact chk_add_exact
  have "0 + unat (sz div ent) < 2 ^ 64" using unat_bound [of "sz div ent"] by simp
  from elf_symbols_True [OF loop this] obtain j pos where
    j: "j < unat (sz div ent)" "unat pos = unat off + j * unat ent"
    and t: "elf_symbol True data offset expected strtab pos = Inr (Some True)" by auto
  have "section_at data (unat idx) = Some (unat sh)" "section_at data (unat si) = Some (unat str_sh)"
    using section_at_header [OF hdr] exact(1) [OF sh(1)] exact(2) [OF sh(2)] exact(1) [OF str(1)] exact(2) [OF str(2)]
    by simp_all
  moreover have "field data (unat sh + 4) 4 = Some 2"
    using read_fields(2) [OF ty(2)] exact(2) [OF ty(1)] by (simp add: SHT_SYMTAB_def)
  moreover have "str_table data (unat str_sh) = Some strtab"
    using read_fields(3) [OF so(2)] exact(2) [OF so(1)] read_fields(3) [OF ss(2)] exact(2) [OF ss(1)]
      exact(2) [OF se(1)] se(2) by (auto simp: str_table_def get_range_def split: if_splits)
  moreover have "field data (unat sh + 0x18) 8 = Some (unat off)" "field data (unat sh + 0x20) 8 = Some (unat sz)"
    "field data (unat sh + 0x38) 8 = Some (unat ent)" "field data (unat sh + 0x28) 4 = Some (unat si)"
    using read_fields(3) [OF off(2)] exact(2) [OF off(1)] read_fields(3) [OF sz(2)] exact(2) [OF sz(1)]
      read_fields(3) [OF ent(2)] exact(2) [OF ent(1)] read_fields(2) [OF si(2)] exact(2) [OF si(1)] by simp_all
  moreover have "j < unat sz div unat ent" using j(1) by (simp add: unat_div_distrib)
  ultimately have "has_symbol data (unat offset) expected (unat idx) j"
    using elf_symbol_True [OF t] j(2) unfolding has_symbol_def by auto
  then show ?thesis ..
qed

lemma elf_sections_True:
  assumes "elf_sections True data offset expected shoff shentsize shnum k n = Inr (Some True)"
    and "elf_header data shoff shentsize" and "k + n < 2 ^ 64"
  shows "\<exists>i j. k \<le> i \<and> i < k + n \<and> has_symbol data (unat offset) expected i j"
  using assms(1,3)
proof (induction n arbitrary: k)
  case (Suc n)
  obtain r where r: "elf_section True data offset expected shoff shentsize shnum (of_nat k) = Inr r"
    and rest: "(case r of Some b \<Rightarrow> Inr (Some b)
        | None \<Rightarrow> elf_sections True data offset expected shoff shentsize shnum (Suc k) n) = Inr (Some True)"
    using Suc.prems(1) by (auto elim!: checked_InrE)
  show ?case
  proof (cases r)
    case None
    then obtain i j where "Suc k \<le> i" "i < Suc k + n" "has_symbol data (unat offset) expected i j"
      using Suc.IH [of "Suc k"] rest Suc.prems(2) by auto
    then show ?thesis by (intro exI [of _ i] exI [of _ j]) simp
  next
    case (Some b)
    then have "elf_section True data offset expected shoff shentsize shnum (of_nat k) = Inr (Some True)"
      using r rest by simp
    from elf_section_True [OF this assms(2)] obtain j where "has_symbol data (unat offset) expected k j"
      using Suc.prems(2) by (auto simp: unat_of_nat)
    then show ?thesis by (intro exI [of _ k] exI [of _ j]) simp
  qed
qed simp

section \<open>Faults\<close>

text \<open>The only fault is an overflow, and only in a build with overflow checks.\<close>

fun only_overflow :: "bool \<Rightarrow> fault + 'a \<Rightarrow> bool" where
  "only_overflow oc (Inl e) \<longleftrightarrow> oc \<and> e \<in> {AddOverflow, MulOverflow}"
| "only_overflow oc (Inr a) \<longleftrightarrow> True"

lemma only_overflow_arith:
  "only_overflow oc (chk_add oc a b)" "only_overflow oc (chk_mul oc a b)"
  by (simp_all add: chk_add_def chk_mul_def)

lemma only_overflow_checked:
  "only_overflow oc r \<Longrightarrow> (\<And>a. only_overflow oc (k a)) \<Longrightarrow> only_overflow oc (checked r k)"
  by (cases r) (simp_all add: checked_def)

lemma only_overflow_or_false:
  "only_overflow oc r \<Longrightarrow> (\<And>a. only_overflow oc (k a)) \<Longrightarrow> only_overflow oc (or_false r k)"
  unfolding or_false_def by (rule only_overflow_checked) (simp_all split: option.split)

lemma only_overflow_read:
  "only_overflow oc (read_u16 oc data off)" "only_overflow oc (read_u32 oc data off)"
  "only_overflow oc (read_u64 oc data off)"
  by (simp_all add: read_u16_def read_u32_def read_u64_def read_le_def chk_add_def)

lemmas only_overflow_rules =
  only_overflow_checked only_overflow_or_false only_overflow_arith only_overflow_read

lemma only_overflow_symbol: "only_overflow oc (elf_symbol oc data offset expected strtab pos)"
  unfolding elf_symbol_def by (auto intro!: only_overflow_rules)

lemma only_overflow_symbols:
  "only_overflow oc (elf_symbols oc data offset expected strtab sym_off ent k n)"
  by (induction n arbitrary: k)
     (auto intro!: only_overflow_rules only_overflow_symbol split: option.split)

lemma only_overflow_section:
  "only_overflow oc (elf_section oc data offset expected shoff shentsize shnum idx)"
  unfolding elf_section_def Let_def by (auto intro!: only_overflow_rules only_overflow_symbols)

lemma only_overflow_sections:
  "only_overflow oc (elf_sections oc data offset expected shoff shentsize shnum k n)"
  by (induction n arbitrary: k)
     (auto intro!: only_overflow_rules only_overflow_section split: option.split)

lemma only_overflow_scan: "only_overflow oc (elf_scan oc data offset expected)"
  unfolding elf_scan_def Let_def by (auto intro!: only_overflow_rules only_overflow_sections)

section \<open>A small object file\<close>

text \<open>Header, a symbol table section, a string table section, one function symbol \<open>f\<close> at 16 of size 8,
  and the string table.\<close>

definition demo_elf :: "u8 list" where
  "demo_elf = [127, 69, 76, 70, 2, 1, 0, 0, 0, 0, 0, 0, 0, 0, 0, 0, 0, 0, 0, 0, 0, 0, 0, 0,
     0, 0, 0, 0, 0, 0, 0, 0, 0, 0, 0, 0, 0, 0, 0, 0, 64, 0, 0, 0, 0, 0, 0, 0,
     0, 0, 0, 0, 0, 0, 0, 0, 0, 0, 64, 0, 2, 0, 0, 0, 0, 0, 0, 0, 2, 0, 0, 0,
     0, 0, 0, 0, 0, 0, 0, 0, 0, 0, 0, 0, 0, 0, 0, 0, 192, 0, 0, 0, 0, 0, 0, 0,
     24, 0, 0, 0, 0, 0, 0, 0, 1, 0, 0, 0, 0, 0, 0, 0, 0, 0, 0, 0, 0, 0, 0, 0,
     24, 0, 0, 0, 0, 0, 0, 0, 0, 0, 0, 0, 3, 0, 0, 0, 0, 0, 0, 0, 0, 0, 0, 0,
     0, 0, 0, 0, 0, 0, 0, 0, 216, 0, 0, 0, 0, 0, 0, 0, 3, 0, 0, 0, 0, 0, 0, 0,
     0, 0, 0, 0, 0, 0, 0, 0, 0, 0, 0, 0, 0, 0, 0, 0, 0, 0, 0, 0, 0, 0, 0, 0,
     1, 0, 0, 0, 2, 0, 0, 0, 16, 0, 0, 0, 0, 0, 0, 0, 8, 0, 0, 0, 0, 0, 0, 0,
     0, 102, 0]"

lemmas elf_eval = elf_symbol_contains_def elf_scan_def elf_section_def elf_symbol_def
  read_u16_def read_u32_def read_u64_def read_le_def or_false_def chk_add_def chk_mul_def
  get_range_def get_byte_def cstr_at_def SHT_SYMTAB_def STT_FUNC_def Let_def

lemmas list_eval = drop_Cons' take_Cons' nth_Cons'

lemma loop_step:
  "0 < n \<Longrightarrow> elf_sections oc data offset expected shoff shentsize shnum k n =
     checked (elf_section oc data offset expected shoff shentsize shnum (of_nat k)) (\<lambda>r. case r of
        Some b \<Rightarrow> Inr (Some b)
      | None \<Rightarrow> elf_sections oc data offset expected shoff shentsize shnum (Suc k) (n - 1))"
  "0 < n \<Longrightarrow> elf_symbols oc data offset expected strtab sym_off ent k n =
     checked (chk_mul oc (of_nat k) ent) (\<lambda>d. checked (chk_add oc sym_off d) (\<lambda>pos.
     checked (elf_symbol oc data offset expected strtab pos) (\<lambda>r. case r of
        Some b \<Rightarrow> Inr (Some b)
      | None \<Rightarrow> elf_symbols oc data offset expected strtab sym_off ent (Suc k) (n - 1))))"
  by (cases n; simp)+

lemma demo_elf_found: "elf_symbol_contains True (\<lambda>_. Some demo_elf) path 20 [0x66] = Inr True"
  by (simp add: elf_eval loop_step demo_elf_def list_eval, simp add: word_le_nat_alt)

section \<open>Properties\<close>




text \<open>The panic is real. A file of 64 bytes whose section header offset is the largest 64-bit number
  makes a build with overflow checks panic inside the intercepted \<open>pthread_create\<close>.\<close>

theorem elf_lookup_can_panic:
  "elf_symbol_contains True (\<lambda>_. Some ([0x7f, 0x45, 0x4c, 0x46, 2, 1] @ replicate 34 0 @ replicate 8 255
     @ replicate 10 0 @ [64, 0, 2, 0, 0, 0])) path offset expected = Inl AddOverflow"
proof -
  let ?z = "[0x7f, 0x45, 0x4c, 0x46, 2, 1] @ replicate 34 0 @ replicate 8 255
     @ replicate 10 0 @ [64, 0, 2, 0, 0, 0] :: u8 list"
  have "?z = [0x7f, 0x45, 0x4c, 0x46, 2, 1, 0, 0, 0, 0, 0, 0, 0, 0, 0, 0, 0, 0, 0, 0, 0, 0, 0, 0,
      0, 0, 0, 0, 0, 0, 0, 0, 0, 0, 0, 0, 0, 0, 0, 0, 255, 255, 255, 255, 255, 255, 255, 255,
      0, 0, 0, 0, 0, 0, 0, 0, 0, 0, 64, 0, 2, 0, 0, 0]"
    by (simp add: numeral_eq_Suc)
  then show ?thesis by (simp only:) (simp add: elf_eval loop_step list_eval checked_def)
qed

end
