(* ===== verification/Rsched_Tsan.thy ===== *)
theory Rsched_Tsan
  imports Rsched_Elf Rsched_Switch
begin

text \<open>
  The ThreadSanitizer support, compiled in with \<^verbatim>\<open>--features tsan\<close>. From
  \<^verbatim>\<open>src/rsched/preload/src/lib.rs\<close> (lines 121-205 and 336-413): how the shim recognises the
  sanitiser's own background thread. From \<^verbatim>\<open>src/rsched/src/lib.rs\<close> (lines 1058-1146): the start gate
  that holds a new thread back until the scheduler chooses it.

  Outside the sources, and therefore parameters: the environment, the file system, \<open>backtrace\<close>,
  \<open>dladdr\<close>, the memory of the process and the addresses that the allocator returns. A character of
  an environment variable is a code point below 256.
\<close>

unbundle bit_operations_syntax

section \<open>Which criteria select the background thread\<close>

definition TSAN_BG_FIRST :: usize where "TSAN_BG_FIRST = push_bit 0 1"
definition TSAN_BG_RETURN_ADDRESS :: usize where "TSAN_BG_RETURN_ADDRESS = push_bit 1 1"
definition TSAN_BG_START_ARG :: usize where "TSAN_BG_START_ARG = push_bit 2 1"

definition is_whitespace :: "char \<Rightarrow> bool" where
  "is_whitespace ch \<longleftrightarrow> (let n = of_char ch :: nat in (9 \<le> n \<and> n \<le> 13) \<or> n = 32 \<or> n = 0x85 \<or> n = 0xa0)"

definition is_separator :: "char \<Rightarrow> bool" where
  "is_separator ch \<longleftrightarrow> ch = CHR ''&'' \<or> ch = CHR '','' \<or> ch = CHR ''+'' \<or> ch = CHR '':'' \<or> is_whitespace ch"

text \<open>\<open>str::split\<close>: the pieces between separators, empty ones included.\<close>

fun split_on :: "('a \<Rightarrow> bool) \<Rightarrow> 'a list \<Rightarrow> 'a list list" where
  "split_on sep [] = [[]]"
| "split_on sep (x # xs) =
     (if sep x then [] # split_on sep xs
      else case split_on sep xs of [] \<Rightarrow> [[x]] | piece # pieces \<Rightarrow> (x # piece) # pieces)"

definition criterion :: "string \<Rightarrow> usize option" where
  "criterion token =
     (if token \<in> {''first'', ''first-thread''} then Some TSAN_BG_FIRST
      else if token \<in> {''return-address'', ''return_address'', ''return'', ''ra''} then Some TSAN_BG_RETURN_ADDRESS
      else if token \<in> {''start-arg'', ''start_arg'', ''start'', ''bytes''} then Some TSAN_BG_START_ARG
      else None)"

definition none_combined :: fault where
  "none_combined = Panic ''rsched preload: RSCHED_TSAN_BACKGROUND_THREAD=none cannot be combined with other criteria''"

definition unknown_criterion :: fault where
  "unknown_criterion = Panic ''rsched preload: unknown RSCHED_TSAN_BACKGROUND_THREAD criterion''"

fun parse_tokens :: "usize \<Rightarrow> string list \<Rightarrow> fault + usize" where
  "parse_tokens mode [] = Inr (if mode = 0 then TSAN_BG_FIRST else mode)"
| "parse_tokens mode (token # rest) =
     (if token = [] then parse_tokens mode rest
      else if token = ''none'' then (if mode \<noteq> 0 then Inl none_combined else Inr 0)
      else case criterion token of
          Some b \<Rightarrow> parse_tokens (mode OR b) rest
        | None \<Rightarrow> Inl unknown_criterion)"

definition parse_tsan_background_mode :: "string \<Rightarrow> fault + usize" where
  "parse_tsan_background_mode raw = parse_tokens 0 (split_on is_separator raw)"

section \<open>The state of the shim\<close>

text \<open>\<open>TSAN_PTHREAD_CREATE_COUNT\<close> and \<open>TSAN_BACKGROUND_MODE\<close>, whose initial value \<open>usize::MAX\<close> means
  not yet parsed.\<close>

record TsanState =
  create_count :: usize
  background_mode :: usize

definition TsanState_init :: TsanState where
  "TsanState_init = \<lparr>create_count = 0, background_mode = - 1\<rparr>"

definition tsan_background_mode ::
  "(string \<Rightarrow> string option) \<Rightarrow> TsanState \<Rightarrow> fault + (usize \<times> TsanState)" where
  "tsan_background_mode env_var s =
     (if background_mode s \<noteq> - 1 then Inr (background_mode s, s)
      else checked (parse_tsan_background_mode
             (case env_var ''RSCHED_TSAN_BACKGROUND_THREAD'' of Some v \<Rightarrow> v | None \<Rightarrow> ''first''))
           (\<lambda>mode. Inr (mode, s\<lparr>background_mode := mode\<rparr>)))"

text \<open>
  What the process offers: the frames \<open>backtrace\<close> stores (at most twelve), what \<open>dladdr\<close> says of an
  address (nothing, or the name of the object, if it is valid text, and its base), the files, and the
  bytes of the memory.
\<close>

record TsanEnv =
  te_checks :: bool
  te_vars :: "string \<Rightarrow> string option"
  te_backtrace :: "usize list"
  te_dladdr :: "usize \<Rightarrow> (string option \<times> usize) option"
  te_read :: "string \<Rightarrow> u8 list option"
  te_mem :: "usize \<Rightarrow> u8"

definition saturating_sub :: "usize \<Rightarrow> usize \<Rightarrow> usize" where
  "saturating_sub a b = (if b \<le> a then a - b else 0)"

definition caller_is_symbol :: "TsanEnv \<Rightarrow> usize \<Rightarrow> u8 list \<Rightarrow> fault + bool" where
  "caller_is_symbol te caller expected =
     (case te_dladdr te caller of
        None \<Rightarrow> Inr False
      | Some (None, fbase) \<Rightarrow> Inr False
      | Some (Some file, fbase) \<Rightarrow>
          elf_symbol_contains (te_checks te) (te_read te) file (saturating_sub caller fbase) expected)"

definition internal_start_thread :: "u8 list" where
  "internal_start_thread = map (of_char :: char \<Rightarrow> u8) ''_ZN11__sanitizer21internal_start_threadEPFPvS0_ES0_''"

fun any_caller :: "TsanEnv \<Rightarrow> usize list \<Rightarrow> fault + bool" where
  "any_caller te [] = Inr False"
| "any_caller te (caller # rest) =
     checked (caller_is_symbol te caller internal_start_thread) (\<lambda>b.
       if b then Inr True else any_caller te rest)"

definition caller_is_tsan_internal_start_thread :: "TsanEnv \<Rightarrow> fault + bool" where
  "caller_is_tsan_internal_start_thread te =
     (let n = length (te_backtrace te)
      in if n \<le> 2 then Inr False else any_caller te (drop 2 (take n (te_backtrace te))))"

section \<open>Recognising code by its first bytes\<close>

definition TSAN_THREAD_START_PREFIX :: "u8 list" where
  "TSAN_THREAD_START_PREFIX =
     [0x55, 0x41, 0x57, 0x41, 0x56, 0x41, 0x55, 0x41, 0x54, 0x53, 0x50, 0x49, 0x89, 0xfe, 0x4c, 0x8b,
      0x27, 0x48, 0x8b, 0x5f, 0x08]"

definition TSAN_BACKGROUND_START_PREFIX :: "u8 list" where
  "TSAN_BACKGROUND_START_PREFIX =
     [0x64, 0x48, 0x8b, 0x04, 0x25, 0xe8, 0xf8, 0xff, 0xff, 0x48, 0x85, 0xc0, 0x0f, 0x84, 0x8d, 0x03,
      0x00, 0x00, 0x55, 0x41, 0x57, 0x41, 0x56, 0x41, 0x55, 0x41, 0x54, 0x53, 0x48, 0x83, 0xec, 0x18]"

definition rsched_is_tsan_thread_start :: "(usize \<Rightarrow> u8) \<Rightarrow> usize \<Rightarrow> usize \<Rightarrow> bool" where
  "rsched_is_tsan_thread_start mem start arg \<longleftrightarrow>
     (if arg = 0 then False
      else bytes_at mem start (length TSAN_THREAD_START_PREFIX) = TSAN_THREAD_START_PREFIX)"

definition rsched_is_tsan_background_start :: "(usize \<Rightarrow> u8) \<Rightarrow> usize \<Rightarrow> usize \<Rightarrow> bool" where
  "rsched_is_tsan_background_start mem start arg \<longleftrightarrow>
     (if arg \<noteq> 0 then False
      else bytes_at mem start (length TSAN_BACKGROUND_START_PREFIX) = TSAN_BACKGROUND_START_PREFIX)"

section \<open>Is this the background thread?\<close>

text \<open>The loop over the three criteria with its two accumulators.\<close>

fun match_selected :: "usize \<Rightarrow> (usize \<times> bool) list \<Rightarrow> bool \<Rightarrow> bool \<Rightarrow> bool \<times> bool" where
  "match_selected mode [] some_match all_match = (some_match, all_match)"
| "match_selected mode ((b, matched) # rest) some_match all_match =
     (if mode AND b = 0 then match_selected mode rest some_match all_match
      else match_selected mode rest (some_match \<or> matched) (all_match \<and> matched))"

definition partial_match :: fault where
  "partial_match = Panic ''rsched preload: partial TSAN background thread match''"

definition is_tsan_background_thread_create ::
  "TsanEnv \<Rightarrow> usize \<Rightarrow> usize \<Rightarrow> TsanState \<Rightarrow> fault + (bool \<times> TsanState)" where
  "is_tsan_background_thread_create te start arg s =
     checked (tsan_background_mode (te_vars te) s) (\<lambda>(mode, s1).
     if mode = 0 then Inr (False, s1)
     else
       let s2 = s1\<lparr>create_count := create_count s1 + 1\<rparr>
       in checked (chk_add (te_checks te) (create_count s1) 1) (\<lambda>ordinal.
          checked (caller_is_tsan_internal_start_thread te) (\<lambda>return_match.
          let first_match = (ordinal = 1);
              start_arg_match = rsched_is_tsan_background_start (te_mem te) start arg;
              (some_match, all_match) = match_selected mode
                [(TSAN_BG_FIRST, first_match), (TSAN_BG_RETURN_ADDRESS, return_match),
                 (TSAN_BG_START_ARG, start_arg_match)] False True
          in if some_match \<and> \<not> all_match then Inl partial_match else Inr (all_match, s2))))"

section \<open>The start gate\<close>

text \<open>
  \<open>TSanGateArg\<close> and the memory it lives in: the words of the sanitiser's thread parameter block and
  the boxes of gates that are alive. The block holds the routine and its argument, eight bytes apart.
\<close>

record TSanGateArg =
  gate_routine :: usize
  gate_arg :: usize

record gate_heap =
  words :: "usize \<Rightarrow> usize"
  gates :: "usize \<rightharpoonup> TSanGateArg"

definition prepare_tsan_start_gate :: "usize \<Rightarrow> usize \<Rightarrow> usize \<Rightarrow> gate_heap \<Rightarrow> usize \<times> gate_heap" where
  "prepare_tsan_start_gate gate_fn new_gate arg h =
     (new_gate,
      h\<lparr>gates := (gates h)(new_gate \<mapsto> \<lparr>gate_routine = words h arg, gate_arg = words h (arg + 8)\<rparr>),
        words := (words h)(arg := gate_fn, arg + 8 := new_gate)\<rparr>)"

definition restore_tsan_start_gate :: "usize \<Rightarrow> usize \<Rightarrow> gate_heap \<Rightarrow> fault + gate_heap" where
  "restore_tsan_start_gate arg gate h =
     (case gates h gate of
        None \<Rightarrow> Inl UseAfterFree
      | Some g \<Rightarrow> Inr (h\<lparr>gates := (gates h)(gate := None),
                         words := (words h)(arg := gate_routine g, arg + 8 := gate_arg g)\<rparr>))"

text \<open>The gate itself, up to its wait and after it: it ends with the call it holds back.\<close>

definition tsan_user_start_gate ::
  "PthreadT \<Rightarrow> usize \<Rightarrow> gate_heap \<Rightarrow> world \<Rightarrow> gate_heap \<times> (usize \<times> usize, TSanGateArg, world) outcome" where
  "tsan_user_start_gate self_pt raw h w =
     (case gates h raw of
        None \<Rightarrow> (h, Fault UseAfterFree)
      | Some g \<Rightarrow>
          (h\<lparr>gates := (gates h)(raw := None)\<rparr>,
           if info (st w) self_pt \<noteq> None
           then info_upd unknown_thread self_pt (\<lambda>t. t\<lparr>is_in_rsched_wait := True\<rparr>) w
                  (Park (SuspendCond self_pt) g)
           else Done (gate_routine g, gate_arg g) w))"

definition tsan_gate_resumed ::
  "PthreadT \<Rightarrow> TSanGateArg \<Rightarrow> world \<Rightarrow> (usize \<times> usize, TSanGateArg, world) outcome" where
  "tsan_gate_resumed self_pt g w =
     info_upd unknown_thread self_pt (\<lambda>t. t\<lparr>is_in_rsched_wait := False\<rparr>) w
       (Done (gate_routine g, gate_arg g))"

section \<open>Parsing\<close>

lemma criterion_bits:
  "TSAN_BG_FIRST = 1" "TSAN_BG_RETURN_ADDRESS = 2" "TSAN_BG_START_ARG = 4"
  by (simp_all add: TSAN_BG_FIRST_def TSAN_BG_RETURN_ADDRESS_def TSAN_BG_START_ARG_def)

lemma criterion_ne_0: "criterion t = Some b \<Longrightarrow> b \<noteq> 0"
  by (auto simp: criterion_def criterion_bits split: if_splits)

lemma criterion_none: "criterion ''none'' = None"
  by (simp add: criterion_def)

text \<open>The bits of a list of criteria, in any order.\<close>

definition bits_of :: "string list \<Rightarrow> usize" where
  "bits_of toks = foldr (OR) (map (the \<circ> criterion) toks) 0"

lemma bits_of_Cons [simp]: "bits_of (t # ts) = the (criterion t) OR bits_of ts"
  by (simp add: bits_of_def)

lemma bits_of_Nil [simp]: "bits_of [] = 0"
  by (simp add: bits_of_def)

lemma bit_bits_of: "bit (bits_of ts) n \<longleftrightarrow> (\<exists>t\<in>set ts. bit (the (criterion t)) n)"
  by (induction ts) (auto simp: bit_or_iff)

lemma bits_of_set: "set ts = set us \<Longrightarrow> bits_of ts = bits_of us"
  by (rule bit_eqI) (simp add: bit_bits_of)

lemma bits_of_eq_0:
  "set ts \<subseteq> dom criterion \<Longrightarrow> bits_of ts = 0 \<longleftrightarrow> ts = []"
  by (induction ts) (auto simp: or_eq_0_iff dest: criterion_ne_0)

text \<open>
  The mode without a loop: the first word that is no criterion decides. Without one the mode is the
  union of the criteria; \<open>none\<close> in first position is the empty mode; anything else panics.
\<close>

definition is_criterion :: "string \<Rightarrow> bool" where
  "is_criterion t \<longleftrightarrow> criterion t \<noteq> None"

definition mode_spec :: "string list \<Rightarrow> fault + usize" where
  "mode_spec ws =
     (let good = takeWhile is_criterion ws
      in case dropWhile is_criterion ws of
           [] \<Rightarrow> Inr (if good = [] then TSAN_BG_FIRST else bits_of good)
         | t # _ \<Rightarrow> if t \<noteq> ''none'' then Inl unknown_criterion
                   else if good = [] then Inr 0 else Inl none_combined)"

lemma parse_tokens_filter:
  "parse_tokens mode toks = parse_tokens mode (filter (\<lambda>t. t \<noteq> []) toks)"
  by (induction mode toks rule: parse_tokens.induct) (auto split: option.splits)

lemma parse_tokens_spec:
  assumes "[] \<notin> set ws" and "set pre \<subseteq> dom criterion"
  shows "parse_tokens (bits_of pre) ws = mode_spec (pre @ ws)"
  using assms
proof (induction ws arbitrary: pre)
  case Nil
  have all: "\<forall>t\<in>set pre. is_criterion t" using Nil.prems(2) by (auto simp: is_criterion_def)
  then have dt: "dropWhile is_criterion pre = []" "takeWhile is_criterion pre = pre"
    by (simp_all add: takeWhile_eq_all_conv)
  show ?case using bits_of_eq_0 [OF Nil.prems(2)] by (simp add: mode_spec_def dt)
next
  case (Cons t ws)
  have all: "\<forall>t\<in>set pre. is_criterion t" using Cons.prems(2) by (auto simp: is_criterion_def)
  then have pre: "dropWhile is_criterion (pre @ us) = dropWhile is_criterion us"
      "takeWhile is_criterion (pre @ us) = pre @ takeWhile is_criterion us" for us
    by (simp_all add: dropWhile_append2 takeWhile_append2)
  show ?case
  proof (cases "criterion t")
    case None
    then show ?thesis using Cons.prems pre bits_of_eq_0 [OF Cons.prems(2)]
      by (auto simp: mode_spec_def is_criterion_def)
  next
    case (Some b)
    then have "t \<noteq> ''none''" using criterion_none by auto
    moreover have "bits_of (pre @ [t]) = bits_of pre OR b"
      using Some by (intro bit_eqI) (auto simp: bit_bits_of bit_or_iff)
    ultimately show ?thesis using Cons.IH [of "pre @ [t]"] Cons.prems Some by auto
  qed
qed

text \<open>Writing a list of words with a separator between them, and reading it back.\<close>

fun join_with :: "'a \<Rightarrow> 'a list list \<Rightarrow> 'a list" where
  "join_with sp [] = []"
| "join_with sp [w] = w"
| "join_with sp (w # ws) = w @ sp # join_with sp ws"

lemma split_on_ne [simp]: "split_on sep xs \<noteq> []"
  by (induction xs) (auto split: list.split)

lemma split_on_append:
  "\<forall>x\<in>set w. \<not> sep x \<Longrightarrow>
     split_on sep (w @ xs) = (w @ hd (split_on sep xs)) # tl (split_on sep xs)"
  by (induction w) (auto simp: neq_Nil_conv)

lemma split_on_join:
  assumes "ws \<noteq> []" and "\<And>w. w \<in> set ws \<Longrightarrow> \<forall>x\<in>set w. \<not> sep x" and "sep sp"
  shows "split_on sep (join_with sp ws) = ws"
  using assms
proof (induction sp ws rule: join_with.induct)
  case (2 sp w)
  then show ?case using split_on_append [of w sep "[]"] by simp
next
  case (3 sp w v vs)
  have "split_on sep (join_with sp (v # vs)) = v # vs"
    using "3.prems"(2,3) by (intro "3.IH") auto
  moreover have "\<forall>x\<in>set w. \<not> sep x" using "3.prems"(2) [of w] by simp
  ultimately show ?case using split_on_append [of w sep "sp # join_with sp (v # vs)"] "3.prems"(3) by simp
qed simp

definition criterion_names :: "string list" where
  "criterion_names = [''first'', ''first-thread'', ''return-address'', ''return_address'', ''return'', ''ra'',
     ''start-arg'', ''start_arg'', ''start'', ''bytes'']"

lemma names_have_no_separator:
  "list_all (\<lambda>t. t \<noteq> [] \<and> list_all (\<lambda>x. \<not> is_separator x) t) criterion_names"
  by code_simp

lemma criterion_words:
  assumes "criterion t = Some b"
  shows "t \<noteq> []" and "\<forall>x\<in>set t. \<not> is_separator x"
proof -
  have "criterion t = None" if "t \<notin> set criterion_names"
    using that by (simp add: criterion_def criterion_names_def)
  then have "t \<in> set criterion_names" using assms by auto
  then show "t \<noteq> []" "\<forall>x\<in>set t. \<not> is_separator x"
    using names_have_no_separator by (auto simp: list_all_iff)
qed

section \<open>Matching\<close>

definition selected :: "usize \<Rightarrow> (usize \<times> bool) list \<Rightarrow> bool list" where
  "selected mode ms = map snd (filter (\<lambda>(b, m). mode AND b \<noteq> 0) ms)"

lemma match_selected_eq:
  "match_selected mode ms a b =
     (a \<or> True \<in> set (selected mode ms), b \<and> False \<notin> set (selected mode ms))"
  by (induction mode ms a b rule: match_selected.induct) (auto simp: selected_def)

section \<open>Properties\<close>

text \<open>C33: the mode parser in one equation. Separators of any kind and number do not matter; the first
  word that is no criterion decides: without one the mode is the union of the criteria (\<open>first\<close> if
  there is none), a leading \<open>none\<close> gives the empty mode, a later \<open>none\<close> and any other word panic.\<close>

theorem parse_mode_equiv:
  "parse_tsan_background_mode raw = mode_spec (filter (\<lambda>t. t \<noteq> []) (split_on is_separator raw))"
proof -
  let ?ws = "filter (\<lambda>t. t \<noteq> []) (split_on is_separator raw)"
  have "parse_tsan_background_mode raw = parse_tokens 0 ?ws"
    unfolding parse_tsan_background_mode_def by (rule parse_tokens_filter)
  also have "\<dots> = mode_spec ([] @ ?ws)"
    unfolding bits_of_Nil [symmetric] by (rule parse_tokens_spec) simp_all
  also have "\<dots> = mode_spec ?ws" unfolding append_Nil ..
  finally show ?thesis .
qed

text \<open>Criteria can be written in any order, with any separator and repeated: the mode that is read
  back is the union of their bits.\<close>

theorem criteria_roundtrip:
  assumes "cs \<noteq> []" and "set cs \<subseteq> dom criterion" and "is_separator sp" and "set ds = set cs"
  shows "parse_tsan_background_mode (join_with sp cs) = Inr (bits_of ds)"
proof -
  have w: "w \<noteq> []" "\<forall>x\<in>set w. \<not> is_separator x" if mem: "w \<in> set cs" for w
  proof -
    obtain b where "criterion w = Some b" using mem assms(2) by blast
    then show "w \<noteq> []" "\<forall>x\<in>set w. \<not> is_separator x" by (rule criterion_words)+
  qed
  have "split_on is_separator (join_with sp cs) = cs" using assms w(2) by (intro split_on_join) auto
  moreover have "[] \<notin> set cs" using w(1) by auto
  ultimately have "parse_tsan_background_mode (join_with sp cs) = parse_tokens 0 cs"
    by (simp add: parse_tsan_background_mode_def)
  also have "\<dots> = mode_spec ([] @ cs)"
    using parse_tokens_spec [of cs "[]"] \<open>[] \<notin> set cs\<close> by simp
  also have "\<dots> = Inr (bits_of cs)"
  proof -
    have "\<forall>t\<in>set cs. is_criterion t" using assms(2) by (auto simp: is_criterion_def)
    then have dt: "dropWhile is_criterion cs = []" "takeWhile is_criterion cs = cs"
      by (simp_all add: takeWhile_eq_all_conv)
    show ?thesis using assms(1) by (simp add: mode_spec_def dt)
  qed
  also have "\<dots> = Inr (bits_of ds)" using bits_of_set assms(4) by metis
  finally show ?thesis .
qed

theorem criteria_roundtrip_witness:
  "parse_tsan_background_mode (join_with (CHR '','') [''bytes'', ''first'', ''bytes'']) = Inr (bits_of [''first'', ''bytes''])"
proof (rule criteria_roundtrip)
  have "criterion ''bytes'' \<noteq> None" "criterion ''first'' \<noteq> None" by (simp_all add: criterion_def)
  then show "set [''bytes'', ''first'', ''bytes''] \<subseteq> dom criterion" by (simp add: domIff)
  show "is_separator (CHR '','')" by (simp add: is_separator_def)
  show "set [''first'', ''bytes''] = set [''bytes'', ''first'', ''bytes'']" by (simp only: list.set) blast
qed simp

text \<open>\<open>none\<close> is rejected after other criteria, as documented, but accepted before them: the rest of the
  value is ignored, even if it is unknown.\<close>

theorem none_order_matters:
  "parse_tsan_background_mode ''first,none'' = Inl none_combined
   \<and> parse_tsan_background_mode ''none,first'' = Inr 0
   \<and> parse_tsan_background_mode ''none,bogus'' = Inr 0"
  by (simp add: parse_tsan_background_mode_def is_separator_def is_whitespace_def criterion_def criterion_bits)

text \<open>The selected criteria must agree. A thread is taken for the background thread exactly when
  every selected criterion matches; when none does it is an ordinary thread; when some do, the shim
  panics. Criteria that are not selected have no influence.\<close>

theorem background_all_or_nothing:
  assumes "tsan_background_mode (te_vars te) s = Inr (mode, s1)" and "mode \<noteq> 0"
    and "caller_is_tsan_internal_start_thread te = Inr return_match" and "create_count s1 \<noteq> - 1"
  shows "is_tsan_background_thread_create te start arg s =
    (let ms = selected mode
           [(TSAN_BG_FIRST, create_count s1 = 0), (TSAN_BG_RETURN_ADDRESS, return_match),
            (TSAN_BG_START_ARG, rsched_is_tsan_background_start (te_mem te) start arg)];
         s2 = s1\<lparr>create_count := create_count s1 + 1\<rparr>
     in if False \<notin> set ms then Inr (True, s2)
        else if True \<notin> set ms then Inr (False, s2)
        else Inl partial_match)"
proof -
  have lt: "unat (create_count s1) + 1 < 2 ^ 64"
  proof -
    have "unat (- 1 :: usize) = 2 ^ 64 - 1" by (simp add: unsigned_minus_1_eq_mask mask_eq_exp_minus_1)
    then have "unat (create_count s1) \<noteq> 2 ^ 64 - 1" using assms(4) by (metis unsigned_word_eqI)
    then show ?thesis using unat_bound [of "create_count s1"] by simp
  qed
  have c: "chk_add (te_checks te) (create_count s1) 1 = Inr (create_count s1 + 1)"
    using lt by (simp add: chk_add_def)
  have "create_count s1 + 1 = 1 \<longleftrightarrow> create_count s1 = 0" by simp
  then show ?thesis
    using assms c by (auto simp: is_tsan_background_thread_create_def match_selected_eq Let_def)
qed

theorem background_all_or_nothing_witness:
  "is_tsan_background_thread_create
     \<lparr>te_checks = True, te_vars = (\<lambda>_. None), te_backtrace = [], te_dladdr = (\<lambda>_. None), te_read = (\<lambda>_. None),
      te_mem = (\<lambda>_. 0)\<rparr> 4096 0 TsanState_init
   = Inr (True, \<lparr>create_count = 1, background_mode = 1\<rparr>)"
proof -
  let ?te = "\<lparr>te_checks = True, te_vars = (\<lambda>_. None), te_backtrace = [], te_dladdr = (\<lambda>_. None),
    te_read = (\<lambda>_. None), te_mem = (\<lambda>_. 0)\<rparr>"
  have "parse_tsan_background_mode ''first'' = Inr 1"
    by (simp add: parse_tsan_background_mode_def is_separator_def is_whitespace_def criterion_def criterion_bits)
  then have "tsan_background_mode (te_vars ?te) TsanState_init = Inr (1, \<lparr>create_count = 0, background_mode = 1\<rparr>)"
    by (simp add: tsan_background_mode_def TsanState_init_def)
  from background_all_or_nothing [OF this, of False 4096 0] show ?thesis
    by (simp add: caller_is_tsan_internal_start_thread_def selected_def criterion_bits)
qed

text \<open>The start gate gives back what it took. If the thread cannot be created, restoring undoes the
  preparation and frees the box. Otherwise the sanitiser calls the gate, which frees the box once,
  holds a registered thread until the scheduler wakes it, and then calls the user's own routine with
  the user's own argument.\<close>

theorem start_gate_roundtrip:
  assumes "gates h new_gate = None" and "prepare_tsan_start_gate gate_fn new_gate arg h = (g, h1)"
    and "info (st w) self = Some t"
  shows "restore_tsan_start_gate arg g h1 = Inr h
    \<and> words h1 arg = gate_fn \<and> words h1 (arg + 8) = g
    \<and> (\<exists>h2 k w1. tsan_user_start_gate self (words h1 (arg + 8)) h1 w = (h2, Park (SuspendCond self) k w1)
        \<and> gates h2 = gates h \<and> info (st w1) self = Some (t\<lparr>is_in_rsched_wait := True\<rparr>)
        \<and> (\<exists>w2. tsan_gate_resumed self k w1 = Done (words h arg, words h (arg + 8)) w2
             \<and> info (st w2) self = Some (t\<lparr>is_in_rsched_wait := False\<rparr>)))"
proof -
  have ne: "arg + 8 \<noteq> arg" by simp
  have g: "g = new_gate" and h1: "h1 = h\<lparr>gates := (gates h)(new_gate \<mapsto>
      \<lparr>gate_routine = words h arg, gate_arg = words h (arg + 8)\<rparr>),
      words := (words h)(arg := gate_fn, arg + 8 := new_gate)\<rparr>"
    using assms(2) by (auto simp: prepare_tsan_start_gate_def)
  have "(gates h)(new_gate := None) = gates h" using assms(1) by auto
  moreover have "(words h)(arg := words h arg, arg + 8 := words h (arg + 8)) = words h" by auto
  ultimately show ?thesis
    using g h1 ne assms(3)
    by (simp add: restore_tsan_start_gate_def tsan_user_start_gate_def tsan_gate_resumed_def fun_upd_twist)
qed

theorem start_gate_roundtrip_witness:
  "\<exists>h1. restore_tsan_start_gate 64 8192 h1 = Inr \<lparr>words = (\<lambda>a. a + 1), gates = Map.empty\<rparr>
     \<and> words h1 64 = 4096"
proof -
  let ?h = "\<lparr>words = (\<lambda>a. a + 1), gates = Map.empty\<rparr> :: gate_heap"
  let ?s = "(State_new (\<lambda>_. None) 7)\<lparr>info := [1 \<mapsto> Thread_new 1 101]\<rparr>"
  have "prepare_tsan_start_gate 4096 8192 64 ?h = (8192, snd (prepare_tsan_start_gate 4096 8192 64 ?h))"
    by (simp add: prepare_tsan_start_gate_def)
  from start_gate_roundtrip [OF _ this, of "\<lparr>st = ?s, boxes = Map.empty, effects = []\<rparr>" 1 "Thread_new 1 101"]
  show ?thesis by auto
qed

end
