(* ===== verification/Rsched_Preload.thy ===== *)
theory Rsched_Preload
  imports Rsched_Demo Rsched_Depth Rsched_Sleep Rsched_Tsan
begin

text \<open>
  The LD_PRELOAD shim, \<^verbatim>\<open>src/rsched/preload/src/lib.rs\<close> lines 92-150 and 415-757: one interceptor per
  libc function, the slots with the next implementation of each symbol, and the whole program running
  behind them. Every interceptor raises the depth of its thread on entry, lowers it on every exit, and
  in between decides between the scheduler and the next implementation.

  The dynamic linker and the next implementations are outside the sources: \<open>dlsym\<close> and the results of
  the forwarded calls are parameters.
\<close>

section \<open>The next implementation\<close>

type_synonym slots = "string \<Rightarrow> usize"

definition load_next :: "(string \<Rightarrow> usize) \<Rightarrow> string \<Rightarrow> slots \<Rightarrow> fault + (usize \<times> slots)" where
  "load_next dlsym name sl =
     (if sl name \<noteq> 0 then Inr (sl name, sl)
      else let p = dlsym name
           in if p = 0 then Inl (Panic (''rsched preload: dlsym(RTLD_NEXT) returned null for '' @ name))
              else Inr (p, sl(name := p)))"

section \<open>Interceptors\<close>

text \<open>
  What an interceptor does after it has entered: it calls the next implementation, and on success
  perhaps tells the scheduler about it; or it enters the scheduler; or it yields a number of times.
  \<open>outermost\<close> is the result of \<open>rsched_try_enter\<close>, \<open>ra\<close> the return address that the exported function
  reads.
\<close>

datatype plan =
    CallNext string "u64 list" "api_call option"
  | Into api_call
  | Yields nat

definition pthread_create :: "u64 \<Rightarrow> bool \<Rightarrow> usize \<Rightarrow> usize \<Rightarrow> usize \<Rightarrow> usize \<Rightarrow> plan" where
  "pthread_create ra outermost thread attr start arg =
     (if \<not> outermost then CallNext ''pthread_create'' [thread, attr, start, arg] None
      else Into (CallCreate start arg ra))"

text \<open>The same with the \<open>tsan\<close> feature: two more reasons to leave the thread alone.\<close>

definition pthread_create_tsan ::
  "TsanEnv \<Rightarrow> u64 \<Rightarrow> bool \<Rightarrow> usize \<Rightarrow> usize \<Rightarrow> usize \<Rightarrow> usize \<Rightarrow> TsanState \<Rightarrow> fault + (plan \<times> TsanState)" where
  "pthread_create_tsan te ra outermost thread attr start arg s =
     (let forward = CallNext ''pthread_create'' [thread, attr, start, arg] None
      in if \<not> outermost then Inr (forward, s)
         else checked (is_tsan_background_thread_create te start arg s) (\<lambda>(background, s1).
           if background then Inr (forward, s1)
           else if \<not> rsched_is_tsan_thread_start (te_mem te) start arg then Inr (forward, s1)
           else Inr (Into (CallCreate start arg ra), s1)))"

definition pthread_join :: "bool \<Rightarrow> PthreadT \<Rightarrow> usize \<Rightarrow> plan" where
  "pthread_join outermost thread retval =
     (if \<not> outermost then CallNext ''pthread_join'' [thread, retval] None else Into (CallJoin thread))"

definition pthread_exit :: "bool \<Rightarrow> plan" where
  "pthread_exit outermost = Into CallExit"

definition pthread_mutexattr_init :: "bool \<Rightarrow> usize \<Rightarrow> plan" where
  "pthread_mutexattr_init outermost attr =
     CallNext ''pthread_mutexattr_init'' [attr] (if outermost then Some (NoteAttrInit attr) else None)"

definition pthread_mutexattr_settype :: "bool \<Rightarrow> usize \<Rightarrow> c_int \<Rightarrow> plan" where
  "pthread_mutexattr_settype outermost attr knd =
     CallNext ''pthread_mutexattr_settype'' [attr, word_of_int knd]
       (if outermost then Some (NoteAttrSettype attr knd) else None)"

definition pthread_mutexattr_destroy :: "bool \<Rightarrow> usize \<Rightarrow> plan" where
  "pthread_mutexattr_destroy outermost attr =
     CallNext ''pthread_mutexattr_destroy'' [attr] (if outermost then Some (NoteAttrDestroy attr) else None)"

definition pthread_mutex_init :: "bool \<Rightarrow> usize \<Rightarrow> usize \<Rightarrow> plan" where
  "pthread_mutex_init outermost m attr =
     CallNext ''pthread_mutex_init'' [m, attr] (if outermost then Some (NoteMutexInit m attr) else None)"

definition pthread_mutex_destroy :: "bool \<Rightarrow> usize \<Rightarrow> plan" where
  "pthread_mutex_destroy outermost m =
     CallNext ''pthread_mutex_destroy'' [m] (if outermost then Some (NoteMutexDestroy m) else None)"

definition pthread_mutex_lock :: "u64 \<Rightarrow> bool \<Rightarrow> usize \<Rightarrow> plan" where
  "pthread_mutex_lock ra outermost m =
     (if \<not> outermost then CallNext ''pthread_mutex_lock'' [m] None else Into (CallLock m ra))"

definition pthread_mutex_trylock :: "u64 \<Rightarrow> bool \<Rightarrow> usize \<Rightarrow> plan" where
  "pthread_mutex_trylock ra outermost m =
     (if \<not> outermost then CallNext ''pthread_mutex_trylock'' [m] None else Into (CallTrylock m ra))"

definition pthread_mutex_unlock :: "u64 \<Rightarrow> bool \<Rightarrow> usize \<Rightarrow> plan" where
  "pthread_mutex_unlock ra outermost m =
     (if \<not> outermost then CallNext ''pthread_mutex_unlock'' [m] None else Into (CallUnlock m ra))"

definition pthread_cond_wait :: "bool \<Rightarrow> usize \<Rightarrow> usize \<Rightarrow> plan" where
  "pthread_cond_wait outermost cond mutex =
     (if \<not> outermost then CallNext ''pthread_cond_wait'' [cond, mutex] None else Into (CallCondWait cond mutex))"

definition pthread_cond_signal :: "bool \<Rightarrow> usize \<Rightarrow> plan" where
  "pthread_cond_signal outermost cond =
     (if \<not> outermost then CallNext ''pthread_cond_signal'' [cond] None else Into (CallCondSignal cond))"

definition pthread_cond_broadcast :: "bool \<Rightarrow> usize \<Rightarrow> plan" where
  "pthread_cond_broadcast outermost cond =
     (if \<not> outermost then CallNext ''pthread_cond_broadcast'' [cond] None else Into (CallCondBroadcast cond))"

definition pthread_barrier_init :: "bool \<Rightarrow> usize \<Rightarrow> usize \<Rightarrow> u32 \<Rightarrow> plan" where
  "pthread_barrier_init outermost barrier attr cnt =
     (if \<not> outermost then CallNext ''pthread_barrier_init'' [barrier, attr, ucast cnt] None
      else Into (CallBarrierInit barrier cnt))"

definition pthread_barrier_wait :: "bool \<Rightarrow> usize \<Rightarrow> plan" where
  "pthread_barrier_wait outermost barrier =
     (if \<not> outermost then CallNext ''pthread_barrier_wait'' [barrier] None else Into (CallBarrierWait barrier))"

definition sched_yield :: "u64 \<Rightarrow> bool \<Rightarrow> plan" where
  "sched_yield ra outermost =
     (if \<not> outermost then CallNext ''sched_yield'' [] None else Into (CallYield ra))"

text \<open>The sleeps; \<open>req\<close> is the address of the \<open>timespec\<close> and what it points to.\<close>

definition nanosleep :: "bool \<Rightarrow> usize \<times> timespec option \<Rightarrow> usize \<Rightarrow> plan" where
  "nanosleep outermost req rem =
     (if outermost then Yields (nanosleep_yields (snd req)) else CallNext ''nanosleep'' [fst req, rem] None)"

definition clock_nanosleep :: "bool \<Rightarrow> u32 \<Rightarrow> u32 \<Rightarrow> usize \<times> timespec option \<Rightarrow> usize \<Rightarrow> plan" where
  "clock_nanosleep outermost clockid flags req rem =
     (if outermost then Yields (nanosleep_yields (snd req))
      else CallNext ''clock_nanosleep'' [ucast clockid, ucast flags, fst req, rem] None)"

definition usleep :: "bool \<Rightarrow> u32 \<Rightarrow> plan" where
  "usleep outermost usec =
     (if outermost then Yields (usleep_yields usec) else CallNext ''usleep'' [ucast usec] None)"

definition sleep :: "bool \<Rightarrow> u32 \<Rightarrow> plan" where
  "sleep outermost secs =
     (if outermost then Yields (sleep_yields secs) else CallNext ''sleep'' [ucast secs] None)"

text \<open>The intercepted calls of a program, and the interceptor of each.\<close>

datatype libc_call =
    L_create usize usize usize usize
  | L_join PthreadT usize
  | L_exit
  | L_attr_init usize
  | L_attr_settype usize c_int
  | L_attr_destroy usize
  | L_mutex_init usize usize
  | L_mutex_destroy usize
  | L_lock usize
  | L_trylock usize
  | L_unlock usize
  | L_cond_wait usize usize
  | L_cond_signal usize
  | L_cond_broadcast usize
  | L_barrier_init usize usize u32
  | L_barrier_wait usize
  | L_yield
  | L_nanosleep "usize \<times> timespec option" usize
  | L_clock_nanosleep u32 u32 "usize \<times> timespec option" usize
  | L_usleep u32
  | L_sleep u32

fun interceptor :: "u64 \<Rightarrow> libc_call \<Rightarrow> bool \<Rightarrow> plan" where
  "interceptor ra (L_create th attr start arg) outer = pthread_create ra outer th attr start arg"
| "interceptor ra (L_join th retval) outer = pthread_join outer th retval"
| "interceptor ra L_exit outer = pthread_exit outer"
| "interceptor ra (L_attr_init attr) outer = pthread_mutexattr_init outer attr"
| "interceptor ra (L_attr_settype attr knd) outer = pthread_mutexattr_settype outer attr knd"
| "interceptor ra (L_attr_destroy attr) outer = pthread_mutexattr_destroy outer attr"
| "interceptor ra (L_mutex_init m attr) outer = pthread_mutex_init outer m attr"
| "interceptor ra (L_mutex_destroy m) outer = pthread_mutex_destroy outer m"
| "interceptor ra (L_lock m) outer = pthread_mutex_lock ra outer m"
| "interceptor ra (L_trylock m) outer = pthread_mutex_trylock ra outer m"
| "interceptor ra (L_unlock m) outer = pthread_mutex_unlock ra outer m"
| "interceptor ra (L_cond_wait c m) outer = pthread_cond_wait outer c m"
| "interceptor ra (L_cond_signal c) outer = pthread_cond_signal outer c"
| "interceptor ra (L_cond_broadcast c) outer = pthread_cond_broadcast outer c"
| "interceptor ra (L_barrier_init b attr cnt) outer = pthread_barrier_init outer b attr cnt"
| "interceptor ra (L_barrier_wait b) outer = pthread_barrier_wait outer b"
| "interceptor ra L_yield outer = sched_yield ra outer"
| "interceptor ra (L_nanosleep req rem) outer = nanosleep outer req rem"
| "interceptor ra (L_clock_nanosleep c f req rem) outer = clock_nanosleep outer c f req rem"
| "interceptor ra (L_usleep n) outer = usleep outer n"
| "interceptor ra (L_sleep n) outer = sleep outer n"

section \<open>The program behind the shim\<close>

text \<open>
  The machine of the scheduler, and per thread: its depth, whether it is inside a function that will
  lower the depth when it returns (the \<open>defer!\<close> of an interceptor, the \<open>depth_exit\<close> of the trampoline),
  and how many yields of a virtual sleep are left.
\<close>

record shim =
  pm :: machine
  pdepth :: "PthreadT \<Rightarrow> u32"
  pguard :: "PthreadT \<Rightarrow> bool"
  psleep :: "PthreadT \<Rightarrow> nat"
  pslots :: slots
  pcrash :: "fault option"

text \<open>What a step gets from outside: the answers for the scheduler's own calls, the dynamic linker, the
  results of the next implementations, and the return address.\<close>

record PEnv =
  pe_env :: Env
  pe_dlsym :: "string \<Rightarrow> usize"
  pe_next :: "usize \<Rightarrow> u64 list \<Rightarrow> c_int"
  pe_ra :: u64

datatype paction =
    PCall PthreadT libc_call
  | PTick PthreadT
  | PMemop PthreadT u64 usize usize AccessKind
  | PReturn PthreadT
  | PBegin PthreadT
  | PResume PthreadT
  | PJoinDone PthreadT
  | PSpurious PthreadT
  | PReenter PthreadT libc_call

definition enter_guarded :: "PthreadT \<Rightarrow> shim \<Rightarrow> bool \<times> shim" where
  "enter_guarded p P =
     (let (outermost, d) = rsched_try_enter (pdepth P p)
      in (outermost, P\<lparr>pdepth := (pdepth P)(p := d), pguard := (pguard P)(p := True)\<rparr>))"

definition leave_guarded :: "PthreadT \<Rightarrow> shim \<Rightarrow> shim" where
  "leave_guarded p P =
     P\<lparr>pdepth := (pdepth P)(p := rsched_exit (pdepth P p)), pguard := (pguard P)(p := False)\<rparr>"

text \<open>Calling the next implementation: the result, and the slots.\<close>

definition call_next :: "PEnv \<Rightarrow> string \<Rightarrow> u64 list \<Rightarrow> shim \<Rightarrow> fault + (c_int \<times> shim)" where
  "call_next pe name args P =
     checked (load_next (pe_dlsym pe) name (pslots P)) (\<lambda>(f, sl).
       Inr (pe_next pe f args, P\<lparr>pslots := sl\<rparr>))"

text \<open>
  The part of a step before the scheduler, if it gets there: the call of the scheduler that follows,
  or \<open>None\<close>. A call from user code is an action of a thread that is in user code and not in a virtual
  sleep; \<open>PReenter\<close> is an intercepted call that the library's own real calls make.
\<close>

fun before :: "PEnv \<Rightarrow> paction \<Rightarrow> shim \<Rightarrow> fault + (action option \<times> shim)" where
  "before pe (PCall p call) P =
     (let (outermost, P1) = enter_guarded p P
      in case interceptor (pe_ra pe) call outermost of
           CallNext name args aft \<Rightarrow>
             checked (call_next pe name args P1) (\<lambda>(r, P2).
               Inr (if r = 0 then map_option (Call p) aft else None, P2))
         | Into c \<Rightarrow> Inr (Some (Call p c), P1)
         | Yields n \<Rightarrow> Inr (None, P1\<lparr>psleep := (psleep P1)(p := n)\<rparr>))"
| "before pe (PTick p) P =
     Inr (Some (Call p (CallYield (pe_ra pe))), P\<lparr>psleep := (psleep P)(p := psleep P p - 1)\<rparr>)"
| "before pe (PMemop p ra mem sz access) P =
     Inr (if is_in_rsched (pdepth P p) then None else Some (Call p (CallMemop ra mem sz access)), P)"
| "before pe (PReturn p) P =
     Inr (Some (Call p CallExit), P)"
| "before pe (PBegin p) P =
     Inr (Some (Begin p), P\<lparr>pdepth := (pdepth P)(p := depth_enter (pdepth P p)), pguard := (pguard P)(p := True)\<rparr>)"
| "before pe (PResume p) P =
     Inr (Some (Resume p), P\<lparr>pdepth := (pdepth P)(p := depth_exit (pdepth P p))\<rparr>)"
| "before pe (PJoinDone p) P =
     Inr (Some (JoinDone p), P\<lparr>pdepth := (pdepth P)(p := depth_exit (pdepth P p))\<rparr>)"
| "before pe (PSpurious p) P = Inr (Some (Spurious p), P)"
| "before pe (PReenter p call) P =
     (let (outermost, P1) = (fst (rsched_try_enter (pdepth P p)), P)
      in case interceptor (pe_ra pe) call outermost of
           CallNext name args aft \<Rightarrow>
             checked (call_next pe name args P1) (\<lambda>(r, P2).
               Inr (if r = 0 then map_option (Call p) aft else None, P2))
         | Into c \<Rightarrow> Inr (Some (Call p c), P1)
         | Yields n \<Rightarrow> Inr (None, P1\<lparr>psleep := (psleep P1)(p := n)\<rparr>))"

text \<open>
  A thread's return from its start routine runs \<open>do_thread_exit\<close>, whose depth changes cancel out (the
  main thread leaves only through \<open>pthread_exit\<close>; allowing it \<open>PReturn\<close> as well does no harm).

  The part after it. A thread that waits does so inside \<open>with_internal_depth\<close>; a thread that is back in
  user code, and not in a virtual sleep, has left its guarded function.
\<close>

definition after_user :: "PthreadT \<Rightarrow> shim \<Rightarrow> shim" where
  "after_user p P = (if psleep P p = 0 \<and> pguard P p then leave_guarded p P else P)"

text \<open>A new thread starts with fresh thread-local variables.\<close>

definition fresh_tls :: "machine \<Rightarrow> shim \<Rightarrow> shim" where
  "fresh_tls m P =
     P\<lparr>pdepth := (\<lambda>q. case mc m q of Fresh sa \<Rightarrow> 0 | _ \<Rightarrow> pdepth P q),
       pguard := (\<lambda>q. case mc m q of Fresh sa \<Rightarrow> False | _ \<Rightarrow> pguard P q),
       psleep := (\<lambda>q. case mc m q of Fresh sa \<Rightarrow> 0 | _ \<Rightarrow> psleep P q)\<rparr>"

definition after_step :: "PthreadT \<Rightarrow> machine \<Rightarrow> shim \<Rightarrow> shim" where
  "after_step p m P =
     (let P1 = fresh_tls m (P\<lparr>pm := m\<rparr>)
      in case mc m p of
           Parked q k \<Rightarrow> P1\<lparr>pdepth := (pdepth P1)(p := depth_enter (pdepth P1 p))\<rparr>
         | Joining t \<Rightarrow> P1\<lparr>pdepth := (pdepth P1)(p := depth_enter (pdepth P1 p))\<rparr>
         | InUser \<Rightarrow> after_user p P1
         | _ \<Rightarrow> P1)"

fun pactor :: "paction \<Rightarrow> PthreadT" where
  "pactor (PCall p c) = p"
| "pactor (PTick p) = p"
| "pactor (PMemop p ra mem sz access) = p"
| "pactor (PReturn p) = p"
| "pactor (PBegin p) = p"
| "pactor (PResume p) = p"
| "pactor (PJoinDone p) = p"
| "pactor (PSpurious p) = p"
| "pactor (PReenter p c) = p"

text \<open>When an action is possible: user code runs only outside sleeps, a sleep goes on only inside one,
  and a nested call comes from a thread that waits inside the library.\<close>

fun waiting :: "ctl \<Rightarrow> bool" where
  "waiting (Parked q k) = True"
| "waiting (Woken q k) = True"
| "waiting (Joining t) = True"
| "waiting _ = False"

fun enabled :: "paction \<Rightarrow> shim \<Rightarrow> bool" where
  "enabled (PCall p c) P \<longleftrightarrow> mc (pm P) p = InUser \<and> psleep P p = 0"
| "enabled (PTick p) P \<longleftrightarrow> mc (pm P) p = InUser \<and> psleep P p \<noteq> 0"
| "enabled (PMemop p ra mem sz access) P \<longleftrightarrow> mc (pm P) p = InUser \<and> psleep P p = 0"
| "enabled (PReturn p) P \<longleftrightarrow> mc (pm P) p = InUser \<and> psleep P p = 0"
| "enabled (PReenter p c) P \<longleftrightarrow> waiting (mc (pm P) p) \<and> c \<noteq> L_exit"
| "enabled _ P \<longleftrightarrow> True"

definition pstep :: "PEnv \<Rightarrow> paction \<Rightarrow> shim \<Rightarrow> shim option" where
  "pstep pe act P =
     (if pcrash P \<noteq> None \<or> crash (pm P) \<noteq> None \<or> \<not> enabled act P then None
      else case before pe act P of
          Inl e \<Rightarrow> Some (P\<lparr>pcrash := Some e\<rparr>)
        | Inr (None, P1) \<Rightarrow>
            (case act of PReenter _ _ \<Rightarrow> Some P1 | _ \<Rightarrow> Some (after_user (pactor act) P1))
        | Inr (Some a, P1) \<Rightarrow>
            (case mstep (pe_env pe) a (pm P1) of
               None \<Rightarrow> None
             | Some m \<Rightarrow> Some (case act of PSpurious _ \<Rightarrow> P1\<lparr>pm := m\<rparr> | _ \<Rightarrow> after_step (pactor act) m P1)))"

definition pok :: "PEnv \<Rightarrow> paction \<Rightarrow> shim \<Rightarrow> bool" where
  "pok pe act P = (case before pe act P of
     Inr (Some a, P1) \<Rightarrow> os_ok (pe_env pe) a (pm P)
   | _ \<Rightarrow> True)"

definition init_shim :: "Process \<Rightarrow> u64 \<Rightarrow> shim" where
  "init_shim pr seed =
     \<lparr>pm = init_machine pr seed, pdepth = (\<lambda>_. 0), pguard = (\<lambda>_. False), psleep = (\<lambda>_. 0), pslots = (\<lambda>_. 0),
      pcrash = None\<rparr>"

inductive preachable :: "Process \<Rightarrow> u64 \<Rightarrow> shim \<Rightarrow> bool" for pr seed where
  preach_init: "preachable pr seed (init_shim pr seed)"
| preach_step: "preachable pr seed P \<Longrightarrow> pok pe act P \<Longrightarrow> pstep pe act P = Some P' \<Longrightarrow> preachable pr seed P'"

section \<open>What a step of the scheduler does to the threads\<close>

text \<open>The thread itself returns, joins, leaves or waits; another thread stays where it is, is woken, or is
  created.\<close>

definition after_segment :: "ctl \<Rightarrow> bool" where
  "after_segment x \<longleftrightarrow> x = InUser \<or> x = Gone \<or> (\<exists>t. x = Joining t) \<or> (\<exists>q k. x = Parked q k)"

definition by_other :: "ctl \<Rightarrow> ctl \<Rightarrow> bool" where
  "by_other x y \<longleftrightarrow> y = x \<or> (\<exists>q k. x = Parked q k \<and> y = Woken q k) \<or> (\<exists>sa. y = Fresh sa)"

lemma by_other_refl [simp]: "by_other x x"
  by (simp add: by_other_def)

lemma by_other_trans: "by_other x y \<Longrightarrow> by_other y z \<Longrightarrow> by_other x z"
  by (auto simp: by_other_def)

lemma deliver_by_other: "by_other (c q) (deliver e c q)"
  by (cases e; cases "c q") (auto simp: by_other_def)

lemma fold_deliver_by_other: "by_other (c q) (fold deliver es c q)"
proof (induction es arbitrary: c)
  case (Cons e es)
  show ?case using by_other_trans [OF deliver_by_other Cons] by (simp del: deliver.simps)
qed simp

lemma after_reply_segment: "after_segment (after_reply r)"
  by (cases r) (simp_all add: after_segment_def)

lemma settle_ctl:
  assumes "crash (settle p out m) = None"
  shows "after_segment (mc (settle p out m) p)" and "q \<noteq> p \<Longrightarrow> by_other (mc m q) (mc (settle p out m) q)"
  using assms fold_deliver_by_other [of "mc m" q] after_reply_segment
  by (cases out; simp add: after_segment_def)+

fun ctl_before :: "action \<Rightarrow> ctl \<Rightarrow> bool" where
  "ctl_before (Call p c) x \<longleftrightarrow> x = InUser"
| "ctl_before (Begin p) x \<longleftrightarrow> (\<exists>sa. x = Fresh sa)"
| "ctl_before (Resume p) x \<longleftrightarrow> (\<exists>q k. x = Woken q k)"
| "ctl_before (JoinDone p) x \<longleftrightarrow> (\<exists>t. x = Joining t)"
| "ctl_before (Spurious p) x \<longleftrightarrow> (\<exists>q k. x = Parked q k)"

fun ctl_after :: "action \<Rightarrow> ctl \<Rightarrow> bool" where
  "ctl_after (Spurious p) x \<longleftrightarrow> (\<exists>q k. x = Woken q k)"
| "ctl_after _ x \<longleftrightarrow> after_segment x"

lemma mstep_cases:
  assumes "mstep env a m = Some m'"
  obtains (segment) out where "m' = settle (actor a) out m" "\<And>p. a \<noteq> Spurious p"
  | (join) "m' = m\<lparr>mc := (mc m)(actor a := InUser)\<rparr>" "\<And>p. a \<noteq> Spurious p"
  | (spurious) p x k where "m' = m\<lparr>mc := (mc m)(p := Woken x k)\<rparr>" "a = Spurious p"
proof -
  have nc: "crash m = None" using assms by (auto simp: mstep_def split: if_splits)
  show thesis
    using assms nc segment join spurious by (cases a) (auto simp: mstep_def split: ctl.splits if_splits)
qed

lemma mstep_ctl:
  assumes "mstep env a m = Some m'" and "crash m' = None"
  shows "ctl_before a (mc m (actor a))" and "ctl_after a (mc m' (actor a))"
    and "q \<noteq> actor a \<Longrightarrow> by_other (mc m q) (mc m' q)"
proof -
  have nc: "crash m = None" using assms(1) by (auto simp: mstep_def split: if_splits)
  show "ctl_before a (mc m (actor a))"
    using assms(1) nc by (cases a) (auto simp: mstep_def split: ctl.splits if_splits)
  have aft: "ctl_after a x = after_segment x" if "\<And>p. a \<noteq> Spurious p" for x
    using that by (cases a) (simp_all, blast)
  show "ctl_after a (mc m' (actor a))"
    using assms(1)
  proof (cases rule: mstep_cases)
    case (segment out)
    then show ?thesis using settle_ctl(1) [of "actor a" out m] aft assms(2) by simp
  next
    case join
    then show ?thesis using aft by (simp add: after_segment_def)
  qed simp
  show "by_other (mc m q) (mc m' q)" if "q \<noteq> actor a"
    using assms(1)
  proof (cases rule: mstep_cases)
    case (segment out)
    then show ?thesis using settle_ctl(2) [of "actor a" out m] that assms(2) by simp
  qed (use that in auto)
qed

section \<open>The shim refines the scheduler\<close>

lemma call_next_pm:
  "call_next pe name args P = Inr (r, P') \<Longrightarrow> \<exists>sl. P' = P\<lparr>pslots := sl\<rparr>"
  by (auto simp: call_next_def elim!: checked_InrE)

lemma before_pm: "before pe act P = Inr (a, P1) \<Longrightarrow> pm P1 = pm P"
  by (cases act)
     (auto simp: enter_guarded_def Let_def split: plan.splits prod.splits elim!: checked_InrE dest!: call_next_pm)

lemma after_user_pm [simp]: "pm (after_user p P) = pm P"
  by (simp add: after_user_def leave_guarded_def)

lemma fresh_tls_pm [simp]: "pm (fresh_tls m P) = pm P"
  by (simp add: fresh_tls_def)

lemma after_step_pm [simp]: "pm (after_step p m P) = m"
  by (simp add: after_step_def Let_def split: ctl.split)

text \<open>A step of the shim is one step of the scheduler or none.\<close>

lemma pstep_cases [consumes 1, case_names crashed silent base]:
  assumes "pstep pe act P = Some P'"
  obtains e where "P' = P\<lparr>pcrash := Some e\<rparr>"
  | P1 where "before pe act P = Inr (None, P1)" "enabled act P"
      "P' = (case act of PReenter _ _ \<Rightarrow> P1 | _ \<Rightarrow> after_user (pactor act) P1)"
  | a P1 m where "before pe act P = Inr (Some a, P1)" "enabled act P" "mstep (pe_env pe) a (pm P) = Some m"
      "P' = (case act of PSpurious _ \<Rightarrow> P1\<lparr>pm := m\<rparr> | _ \<Rightarrow> after_step (pactor act) m P1)"
proof (cases "before pe act P")
  case (Inl e)
  then show ?thesis using assms that(1) by (auto simp: pstep_def split: if_splits)
next
  case (Inr r)
  obtain a P1 where r: "r = (a, P1)" by (cases r)
  have en: "enabled act P" using assms by (simp add: pstep_def split: if_splits)
  have pm: "pm P1 = pm P" using Inr r before_pm by blast
  show ?thesis
  proof (cases a)
    case None
    then have "P' = (case act of PReenter _ _ \<Rightarrow> P1 | _ \<Rightarrow> after_user (pactor act) P1)"
      using assms Inr r by (cases act) (simp_all add: pstep_def split: if_splits)
    then show ?thesis using that(2) Inr r None en by blast
  next
    case (Some b)
    then obtain m where "mstep (pe_env pe) b (pm P) = Some m"
        "P' = (case act of PSpurious _ \<Rightarrow> P1\<lparr>pm := m\<rparr> | _ \<Rightarrow> after_step (pactor act) m P1)"
      using assms Inr r pm by (auto simp: pstep_def split: if_splits option.splits)
    then show ?thesis using that(3) Inr r Some en by blast
  qed
qed

lemma preachable_base: "preachable pr seed P \<Longrightarrow> reachable pr seed (pm P)"
proof (induction rule: preachable.induct)
  case preach_init
  then show ?case by (simp add: init_shim_def reach_init)
next
  case (preach_step P pe act P')
  from preach_step.hyps(3) show ?case
  proof (cases rule: pstep_cases)
    case (crashed e)
    then show ?thesis using preach_step.IH by simp
  next
    case (silent P1)
    then show ?thesis using preach_step.IH before_pm [OF silent(1)] by (auto split: paction.splits)
  next
    case (base a P1 m)
    have "os_ok (pe_env pe) a (pm P)" using preach_step.hyps(2) base(1) by (simp add: pok_def)
    then have "reachable pr seed m" using preach_step.IH base(3) reach_step by blast
    then show ?thesis using base(4) by (auto split: paction.splits)
  qed
qed

section \<open>The depth discipline\<close>

text \<open>The thread-local variables that fit where a thread is, and those of a thread inside a segment.\<close>

fun tls_ok :: "ctl \<Rightarrow> u32 \<Rightarrow> bool \<Rightarrow> nat \<Rightarrow> bool" where
  "tls_ok InUser d g s \<longleftrightarrow> (if s = 0 then d = 0 \<and> \<not> g else d = 1 \<and> g)"
| "tls_ok (Parked q k) d g s \<longleftrightarrow> d = (if g then 2 else 1) \<and> (s \<noteq> 0 \<longrightarrow> g)"
| "tls_ok (Woken q k) d g s \<longleftrightarrow> d = (if g then 2 else 1) \<and> (s \<noteq> 0 \<longrightarrow> g)"
| "tls_ok (Joining t) d g s \<longleftrightarrow> d = (if g then 2 else 1) \<and> (s \<noteq> 0 \<longrightarrow> g)"
| "tls_ok (Fresh sa) d g s \<longleftrightarrow> d = 0 \<and> \<not> g \<and> s = 0"
| "tls_ok NoThread d g s \<longleftrightarrow> d = 0 \<and> \<not> g \<and> s = 0"
| "tls_ok Gone d g s \<longleftrightarrow> True"

definition in_segment :: "PthreadT \<Rightarrow> shim \<Rightarrow> bool" where
  "in_segment p P \<longleftrightarrow> pdepth P p = (if pguard P p then 1 else 0) \<and> (psleep P p \<noteq> 0 \<longrightarrow> pguard P p)"

definition thread_tls_ok :: "shim \<Rightarrow> PthreadT \<Rightarrow> bool" where
  "thread_tls_ok P q \<longleftrightarrow> tls_ok (mc (pm P) q) (pdepth P q) (pguard P q) (psleep P q)"

definition pinv :: "shim \<Rightarrow> bool" where
  "pinv P \<longleftrightarrow> (crash (pm P) = None \<longrightarrow> (\<forall>q. thread_tls_ok P q))"

lemma tls_by_other:
  "by_other x y \<Longrightarrow> tls_ok x d g s \<Longrightarrow>
     tls_ok y (case y of Fresh sa \<Rightarrow> 0 | _ \<Rightarrow> d) (case y of Fresh sa \<Rightarrow> False | _ \<Rightarrow> g)
       (case y of Fresh sa \<Rightarrow> 0 | _ \<Rightarrow> s)"
  by (cases x; cases y) (auto simp: by_other_def)

lemma after_step_other:
  assumes "q \<noteq> p" and "by_other (mc (pm P) q) (mc m q)"
    and "tls_ok (mc (pm P) q) (pdepth P q) (pguard P q) (psleep P q)"
  shows "thread_tls_ok (after_step p m P) q"
proof -
  let ?P = "fresh_tls m (P\<lparr>pm := m\<rparr>)"
  have eq: "pdepth ?P q = (case mc m q of Fresh sa \<Rightarrow> 0 | _ \<Rightarrow> pdepth P q)"
    "pguard ?P q = (case mc m q of Fresh sa \<Rightarrow> False | _ \<Rightarrow> pguard P q)"
    "psleep ?P q = (case mc m q of Fresh sa \<Rightarrow> 0 | _ \<Rightarrow> psleep P q)"
    by (cases "mc m q"; simp add: fresh_tls_def)+
  have "tls_ok (mc m q) (pdepth ?P q) (pguard ?P q) (psleep ?P q)"
    unfolding eq by (rule tls_by_other [OF assms(2,3)])
  then show ?thesis
    using assms(1) by (cases "mc m p")
      (auto simp: thread_tls_ok_def after_step_def Let_def after_user_def leave_guarded_def)
qed

lemma after_step_actor:
  assumes "after_segment (mc m p)" and "in_segment p P"
  shows "thread_tls_ok (after_step p m P) p"
  using assms
  by (auto simp: after_segment_def in_segment_def thread_tls_ok_def after_step_def Let_def after_user_def
      leave_guarded_def fresh_tls_def depth_enter_def rsched_exit_def)

text \<open>A nested call never gets further than the next implementation.\<close>

lemmas interceptor_defs = pthread_create_def pthread_join_def pthread_exit_def pthread_mutexattr_init_def
  pthread_mutexattr_settype_def pthread_mutexattr_destroy_def pthread_mutex_init_def pthread_mutex_destroy_def
  pthread_mutex_lock_def pthread_mutex_trylock_def pthread_mutex_unlock_def pthread_cond_wait_def
  pthread_cond_signal_def pthread_cond_broadcast_def pthread_barrier_init_def pthread_barrier_wait_def
  sched_yield_def nanosleep_def clock_nanosleep_def usleep_def sleep_def

lemma nested_plan: "c \<noteq> L_exit \<Longrightarrow> \<exists>name args. interceptor ra c False = CallNext name args None"
  by (cases c) (simp_all add: interceptor_defs)

lemma waiting_depth: "thread_tls_ok P p \<Longrightarrow> waiting (mc (pm P) p) \<Longrightarrow> pdepth P p \<noteq> 0"
  by (cases "mc (pm P) p") (auto simp: thread_tls_ok_def split: if_splits)

lemma reenter_before:
  assumes "thread_tls_ok P p" and "waiting (mc (pm P) p)" and "c \<noteq> L_exit"
  shows "(\<exists>e. before pe (PReenter p c) P = Inl e) \<or> (\<exists>sl. before pe (PReenter p c) P = Inr (None, P\<lparr>pslots := sl\<rparr>))"
proof -
  have "fst (rsched_try_enter (pdepth P p)) = False"
    using waiting_depth [OF assms(1,2)] by (simp add: rsched_try_enter_def)
  moreover obtain name args where "interceptor (pe_ra pe) c False = CallNext name args None"
    using nested_plan [OF assms(3)] by blast
  ultimately have "before pe (PReenter p c) P = checked (call_next pe name args P) (\<lambda>(r, P2). Inr (None, P2))"
    by (auto simp: fun_eq_iff intro!: arg_cong2 [where f = checked])
  then show ?thesis
    using call_next_pm [of pe name args P] by (cases "call_next pe name args P") (auto simp: checked_def)
qed

text \<open>Before a step of the scheduler the thread is inside a segment; other threads are untouched.\<close>

lemma before_other:
  assumes "before pe act P = Inr (a, P1)" and "q \<noteq> pactor act"
  shows "pdepth P1 q = pdepth P q" and "pguard P1 q = pguard P q" and "psleep P1 q = psleep P q"
proof -
  have "pdepth P1 q = pdepth P q \<and> pguard P1 q = pguard P q \<and> psleep P1 q = psleep P q"
    using assms by (cases act)
      (auto simp: enter_guarded_def Let_def split: plan.splits prod.splits elim!: checked_InrE dest!: call_next_pm)
  then show "pdepth P1 q = pdepth P q" "pguard P1 q = pguard P q" "psleep P1 q = psleep P q" by simp_all
qed

lemma entered:
  assumes "thread_tls_ok P p" and "mc (pm P) p = InUser" and "psleep P p = 0"
  shows "enter_guarded p P = (True, P\<lparr>pdepth := (pdepth P)(p := 1), pguard := (pguard P)(p := True)\<rparr>)"
  using assms by (simp add: enter_guarded_def rsched_try_enter_def thread_tls_ok_def)

lemma before_call:
  assumes "thread_tls_ok P p" and "mc (pm P) p = InUser" and "psleep P p = 0"
    and "before pe (PCall p c) P = Inr (a, P1)"
  shows "pdepth P1 p = 1 \<and> pguard P1 p" and "a \<noteq> None \<Longrightarrow> psleep P1 p = 0"
  using assms(3,4) unfolding before.simps entered [OF assms(1-3)]
  by (auto split: plan.splits elim!: checked_InrE dest!: call_next_pm)

lemma before_in_segment:
  assumes "before pe act P = Inr (Some a, P1)" and "thread_tls_ok P (pactor act)" and "enabled act P"
    and "ctl_before a (mc (pm P) (pactor act))"
  shows "(actor a = pactor act \<and> ((\<exists>p. act = PSpurious p \<and> a = Spurious p \<and> P1 = P)
      \<or> (in_segment (pactor act) P1 \<and> (\<forall>p. act \<noteq> PSpurious p) \<and> (\<forall>p. a \<noteq> Spurious p))))"
proof (cases act)
  case (PCall p c)
  have "\<exists>x. a = Call p x" using assms(1) unfolding PCall
    by (auto simp: Let_def split: plan.splits prod.splits if_splits elim!: checked_InrE)
  then show ?thesis using before_call [of P p pe c "Some a" P1] assms PCall by (auto simp: in_segment_def)
next
  case (PReenter p c)
  then show ?thesis using reenter_before [of P p c pe] assms by auto
qed (use assms in \<open>auto simp: in_segment_def thread_tls_ok_def depth_enter_def depth_exit_def split: if_splits\<close>)

lemma after_user_other: "q \<noteq> p \<Longrightarrow> thread_tls_ok (after_user p P) q = thread_tls_ok P q"
  by (simp add: thread_tls_ok_def after_user_def leave_guarded_def)

lemma pinv_silent:
  assumes "before pe act P = Inr (None, P1)" and "enabled act P" and "\<And>q. thread_tls_ok P q"
  shows "thread_tls_ok (case act of PReenter _ _ \<Rightarrow> P1 | _ \<Rightarrow> after_user (pactor act) P1) q"
proof (cases "q = pactor act")
  case True
  show ?thesis
  proof (cases act)
    case (PCall p c)
    then have "mc (pm P) p = InUser" "pdepth P1 p = 1 \<and> pguard P1 p"
      using before_call(1) [of P p pe c None P1] assms by auto
    then show ?thesis using True PCall before_pm [OF assms(1)]
      by (auto simp: thread_tls_ok_def after_user_def leave_guarded_def rsched_exit_def)
  next
    case (PMemop p ra mem sz access)
    then show ?thesis using assms(1,2) assms(3) [of p] by (auto simp: thread_tls_ok_def is_in_rsched_def split: if_splits)
  next
    case (PReenter p c)
    then obtain sl where "P1 = P\<lparr>pslots := sl\<rparr>" using reenter_before [of P p c pe] assms by auto
    then show ?thesis using PReenter assms(3) [of q] by (simp add: thread_tls_ok_def)
  qed (use assms in auto)
next
  case False
  then have "thread_tls_ok P1 q"
    using before_other [OF assms(1)] before_pm [OF assms(1)] assms(3) [of q] by (simp add: thread_tls_ok_def)
  then show ?thesis using False after_user_other by (auto split: paction.split)
qed

lemma pinv_base:
  assumes bf: "before pe act P = Inr (Some a, P1)" and en: "enabled act P" and ok: "\<And>q. thread_tls_ok P q"
    and st: "mstep (pe_env pe) a (pm P) = Some m" and nc: "crash m = None"
  shows "thread_tls_ok (case act of PSpurious _ \<Rightarrow> P1\<lparr>pm := m\<rparr> | _ \<Rightarrow> after_step (pactor act) m P1) q"
proof -
  note ctl = mstep_ctl [OF st nc]
  have act: "actor a = pactor act"
    using bf by (cases act) (auto simp: Let_def split: plan.splits prod.splits if_splits elim!: checked_InrE)
  note seg = before_in_segment [OF bf ok en ctl(1) [unfolded act]]
  have pm: "pm P1 = pm P" using before_pm [OF bf] .
  show ?thesis
  proof (cases "\<exists>p. act = PSpurious p")
    case True
    then obtain p where p: "act = PSpurious p" "a = Spurious p" "P1 = P" using seg by auto
    have "by_other (mc (pm P) q) (mc m q)"
      using ctl(3) [of q] st p(2) by (cases "q = p") (auto simp: mstep_def by_other_def split: ctl.splits if_splits)
    moreover have "mc m q \<noteq> Fresh sa \<or> mc (pm P) q = Fresh sa" for sa
      using st p(2) by (auto simp: mstep_def split: ctl.splits if_splits)
    ultimately have "tls_ok (mc m q) (pdepth P q) (pguard P q) (psleep P q)"
      using ok [of q] by (auto simp: by_other_def thread_tls_ok_def)
    then show ?thesis using p by (simp add: thread_tls_ok_def)
  next
    case False
    then have seg': "in_segment (pactor act) P1" "\<forall>p. a \<noteq> Spurious p" using seg by auto
    have "thread_tls_ok (after_step (pactor act) m P1) q"
    proof (cases "q = pactor act")
      case True
      have "after_segment (mc m (pactor act))" using ctl(2) seg'(2) act by (cases a) auto
      then show ?thesis using after_step_actor seg'(1) True by blast
    next
      case False
      then show ?thesis
        using after_step_other [of q "pactor act" P1 m] ctl(3) [of q] act pm before_other [OF bf False] ok [of q]
        by (simp add: thread_tls_ok_def)
    qed
    then show ?thesis using False by (auto split: paction.split)
  qed
qed

lemma preachable_pinv: "preachable pr seed P \<Longrightarrow> pinv P"
proof (induction rule: preachable.induct)
  case preach_init
  then show ?case by (simp add: pinv_def init_shim_def init_machine_def thread_tls_ok_def)
next
  case (preach_step P pe act P')
  have nc: "crash (pm P) = None" using preach_step.hyps(3) by (simp add: pstep_def split: if_splits)
  then have ok: "thread_tls_ok P q" for q using preach_step.IH by (simp add: pinv_def)
  from preach_step.hyps(3) show ?case
  proof (cases rule: pstep_cases)
    case (crashed e)
    then show ?thesis using ok by (simp add: pinv_def thread_tls_ok_def)
  next
    case (silent P1)
    then show ?thesis using pinv_silent [OF silent(1,2) ok] by (simp add: pinv_def)
  next
    case (base a P1 m)
    show ?thesis unfolding pinv_def
    proof (intro impI allI)
      fix q assume "crash (pm P') = None"
      then have "crash m = None" using base(4) by (auto split: paction.splits)
      from pinv_base [OF base(1,2) ok base(3) this] show "thread_tls_ok P' q" using base(4) by simp
    qed
  qed
qed

section \<open>Virtual sleeps\<close>

lemma virtual_sleep_bound: "virtual_sleep_yields n \<le> 100000"
  by (simp add: virtual_sleep_yields_eq)

lemma plan_bound: "interceptor ra c b = Yields n \<Longrightarrow> n \<le> 100000"
  by (cases c)
     (auto simp: pthread_create_def pthread_join_def pthread_exit_def pthread_mutexattr_init_def
        pthread_mutexattr_settype_def
        pthread_mutexattr_destroy_def pthread_mutex_init_def pthread_mutex_destroy_def pthread_mutex_lock_def
        pthread_mutex_trylock_def pthread_mutex_unlock_def pthread_cond_wait_def pthread_cond_signal_def
        pthread_cond_broadcast_def pthread_barrier_init_def pthread_barrier_wait_def sched_yield_def
        nanosleep_def clock_nanosleep_def usleep_def sleep_def nanosleep_yields_def usleep_yields_def sleep_yields_def
        virtual_sleep_bound split: if_splits)

lemma before_sleep:
  assumes "before pe act P = Inr (a, P1)" and "psleep P q \<le> 100000"
  shows "psleep P1 q \<le> 100000"
  using assms
  by (cases act)
     (auto simp: enter_guarded_def Let_def split: plan.splits prod.splits elim!: checked_InrE
        dest!: call_next_pm plan_bound)

lemma after_user_sleep [simp]: "psleep (after_user p P) = psleep P"
  by (simp add: after_user_def leave_guarded_def)

lemma after_step_sleep: "psleep (after_step p m P) q = (case mc m q of Fresh sa \<Rightarrow> 0 | _ \<Rightarrow> psleep P q)"
  by (auto simp: after_step_def fresh_tls_def Let_def split: ctl.splits)

lemma preachable_sleep: "preachable pr seed P \<Longrightarrow> psleep P q \<le> 100000"
proof (induction rule: preachable.induct)
  case preach_init
  then show ?case by (simp add: init_shim_def)
next
  case (preach_step P pe act P')
  from preach_step.hyps(3) show ?case
  proof (cases rule: pstep_cases)
    case (silent P1)
    then show ?thesis using before_sleep [OF silent(1) preach_step.IH] by (auto split: paction.splits)
  next
    case (base a P1 m)
    then show ?thesis using before_sleep [OF base(1) preach_step.IH]
      by (auto simp: after_step_sleep split: paction.splits ctl.splits)
  qed (use preach_step.IH in simp)
qed

section \<open>What the scheduler should see\<close>

text \<open>The abstract program: each pthread call of user code is the scheduler's operation of that name, a
  sleep or a nested call is nothing, and the metadata calls tell the scheduler once the real call has
  succeeded.\<close>

fun api_of :: "u64 \<Rightarrow> libc_call \<Rightarrow> api_call option" where
  "api_of ra (L_create th attr start arg) = Some (CallCreate start arg ra)"
| "api_of ra (L_join th retval) = Some (CallJoin th)"
| "api_of ra L_exit = Some CallExit"
| "api_of ra (L_lock m) = Some (CallLock m ra)"
| "api_of ra (L_trylock m) = Some (CallTrylock m ra)"
| "api_of ra (L_unlock m) = Some (CallUnlock m ra)"
| "api_of ra (L_cond_wait c m) = Some (CallCondWait c m)"
| "api_of ra (L_cond_signal c) = Some (CallCondSignal c)"
| "api_of ra (L_cond_broadcast c) = Some (CallCondBroadcast c)"
| "api_of ra (L_barrier_init b attr cnt) = Some (CallBarrierInit b cnt)"
| "api_of ra (L_barrier_wait b) = Some (CallBarrierWait b)"
| "api_of ra L_yield = Some (CallYield ra)"
| "api_of ra _ = None"

fun note_of :: "libc_call \<Rightarrow> api_call option" where
  "note_of (L_attr_init attr) = Some (NoteAttrInit attr)"
| "note_of (L_attr_settype attr knd) = Some (NoteAttrSettype attr knd)"
| "note_of (L_attr_destroy attr) = Some (NoteAttrDestroy attr)"
| "note_of (L_mutex_init m attr) = Some (NoteMutexInit m attr)"
| "note_of (L_mutex_destroy m) = Some (NoteMutexDestroy m)"
| "note_of _ = None"

fun spec_step :: "PEnv \<Rightarrow> paction \<Rightarrow> machine \<Rightarrow> machine \<Rightarrow> bool" where
  "spec_step pe (PCall p c) m m' =
     (case api_of (pe_ra pe) c of
        Some a \<Rightarrow> mstep (pe_env pe) (Call p a) m = Some m'
      | None \<Rightarrow> m' = m \<or> (\<exists>a. note_of c = Some a \<and> mstep (pe_env pe) (Call p a) m = Some m'))"
| "spec_step pe (PTick p) m m' = (mstep (pe_env pe) (Call p (CallYield (pe_ra pe))) m = Some m')"
| "spec_step pe (PMemop p ra mem sz access) m m' = (mstep (pe_env pe) (Call p (CallMemop ra mem sz access)) m = Some m')"
| "spec_step pe (PReturn p) m m' = (mstep (pe_env pe) (Call p CallExit) m = Some m')"
| "spec_step pe (PBegin p) m m' = (mstep (pe_env pe) (Begin p) m = Some m')"
| "spec_step pe (PResume p) m m' = (mstep (pe_env pe) (Resume p) m = Some m')"
| "spec_step pe (PJoinDone p) m m' = (mstep (pe_env pe) (JoinDone p) m = Some m')"
| "spec_step pe (PSpurious p) m m' = (mstep (pe_env pe) (Spurious p) m = Some m')"
| "spec_step pe (PReenter p c) m m' = (m' = m)"

lemma outer_plan:
  "case interceptor ra c True of
     Into a \<Rightarrow> api_of ra c = Some a
   | CallNext name args aft \<Rightarrow> api_of ra c = None \<and> aft = note_of c
   | Yields n \<Rightarrow> api_of ra c = None"
  by (cases c) (simp_all add: interceptor_defs)

text \<open>The scheduler action a step of user code prepares, when the depth is zero.\<close>

lemma before_call_spec:
  assumes "pdepth P p = 0" and "before pe (PCall p c) P = Inr (a, P1)"
  shows "case api_of (pe_ra pe) c of
      Some api \<Rightarrow> a = Some (Call p api)
    | None \<Rightarrow> a = None \<or> (\<exists>api. note_of c = Some api \<and> a = Some (Call p api))"
  using assms outer_plan [of "pe_ra pe" c]
  by (auto simp: enter_guarded_def rsched_try_enter_def Let_def split: plan.splits if_splits option.splits elim!: checked_InrE)

lemma before_spec:
  assumes "thread_tls_ok P (pactor act)" and "enabled act P" and "before pe act P = Inr (a, P1)"
  shows "case a of
      None \<Rightarrow> spec_step pe act m m
    | Some x \<Rightarrow> mstep (pe_env pe) x m = Some m' \<longrightarrow> spec_step pe act m m'"
proof (cases act)
  case (PCall p c)
  then have "pdepth P p = 0" using assms(1,2) by (simp add: thread_tls_ok_def)
  from before_call_spec [OF this, of pe c a P1] assms(3) PCall show ?thesis by (auto split: option.splits)
next
  case (PMemop p ra mem sz access)
  then have "pdepth P p = 0" using assms(1,2) by (simp add: thread_tls_ok_def)
  with assms(3) PMemop show ?thesis by (auto simp: is_in_rsched_def)
next
  case (PReenter p c)
  then show ?thesis using reenter_before [of P p c pe] assms by (auto split: option.splits)
qed (use assms(3) in auto)

lemma pstep_spec:
  assumes "pinv P" and "pstep pe act P = Some P'"
  shows "(pcrash P' \<noteq> None \<and> pm P' = pm P) \<or> spec_step pe act (pm P) (pm P')"
proof -
  have "crash (pm P) = None" using assms(2) by (auto simp: pstep_def split: if_splits)
  with assms(1) have ok: "thread_tls_ok P q" for q by (simp add: pinv_def)
  from assms(2) show ?thesis
  proof (cases rule: pstep_cases)
    case (silent P1)
    have "pm P' = pm P" using silent(3) before_pm [OF silent(1)] by (auto split: paction.splits)
    then show ?thesis using before_spec [OF ok silent(2,1), of "pm P"] by simp
  next
    case (base a P1 m)
    have "pm P' = m" using base(4) by (auto split: paction.splits)
    then show ?thesis using before_spec [OF ok base(2,1), of "pm P" m] base(3) by simp
  qed simp
qed

section \<open>A run behind the shim\<close>

definition demo_penv :: PEnv where
  "demo_penv = \<lparr>pe_env = demo_env, pe_dlsym = (\<lambda>_. 4096), pe_next = (\<lambda>_ _. 0), pe_ra = 0\<rparr>"

fun prun :: "PEnv \<Rightarrow> paction list \<Rightarrow> shim \<Rightarrow> shim option" where
  "prun pe [] P = Some P"
| "prun pe (a # as) P =
     (if pok pe a P then (case pstep pe a P of None \<Rightarrow> None | Some P' \<Rightarrow> prun pe as P') else None)"

lemma prun_preachable: "prun pe as P = Some P' \<Longrightarrow> preachable pr seed P \<Longrightarrow> preachable pr seed P'"
  by (induction pe as P rule: prun.induct) (auto split: if_splits option.splits intro: preach_step)

text \<open>The main thread creates a thread and sleeps for a millisecond: a hundred yields, the first of which
  hands over to the new thread.\<close>

definition demo_nap :: "paction list" where
  "demo_nap = [PCall 1 (L_create 0 0 0 0), PBegin 2, PCall 1 (L_usleep 1000), PTick 1]"

lemmas prun_defs = pok_def pstep_def enter_guarded_def leave_guarded_def rsched_try_enter_def rsched_exit_def
  depth_enter_def depth_exit_def is_in_rsched_def pthread_create_def usleep_def usleep_yields_def
  virtual_sleep_yields_eq saturating_add_def after_step_def after_user_def fresh_tls_def init_shim_def
  demo_penv_def

lemma demo_nap_ok:
  "map_option (\<lambda>P. (mc (pm P) 1, pdepth P 1, psleep P 1, mc (pm P) 2, crash (pm P), pcrash P))
     (prun demo_penv demo_nap (init_shim demo_process 7))
   = Some (Parked (SuspendCond 1) ([InWake 1, CsWoken 1], YieldSwitched), 2, 99,
           Woken (SuspendCond 2) ([], TrampolineWaited), None, None)"
  by (simp add: demo_nap_def prun_defs demo_defs)

lemma demo_napE:
  obtains P where "prun demo_penv demo_nap (init_shim demo_process 7) = Some P" "preachable demo_process 7 P"
    "mc (pm P) 1 = Parked (SuspendCond 1) ([InWake 1, CsWoken 1], YieldSwitched)" "pdepth P 1 = 2" "psleep P 1 = 99"
    "mc (pm P) 2 = Woken (SuspendCond 2) ([], TrampolineWaited)" "crash (pm P) = None" "pcrash P = None"
proof -
  obtain P where P: "prun demo_penv demo_nap (init_shim demo_process 7) = Some P"
    using demo_nap_ok by (cases "prun demo_penv demo_nap (init_shim demo_process 7)") auto
  moreover have "preachable demo_process 7 P" using prun_preachable [OF P preach_init] .
  ultimately show thesis using that demo_nap_ok by auto
qed

section \<open>Properties\<close>

text \<open>C3: the shim refines the scheduler. In every state a preloaded program can reach, the scheduler behind
  the shim is in a state it can reach alone, so everything proved about those states, serialisation and
  mutual exclusion included, holds for preloaded programs; and every step of the program is the step of
  the scheduler it stands for: each pthread call of user code is that operation, with its arguments,
  a sleep is its yields, a nested call of the library is nothing. The only other outcome is the panic on a symbol that cannot be resolved.\<close>

theorem shim_refines_scheduler:
  assumes "preachable pr seed P"
  shows "reachable pr seed (pm P)
    \<and> (\<forall>pe act P'. pstep pe act P = Some P' \<longrightarrow>
         (pcrash P' \<noteq> None \<and> pm P' = pm P) \<or> spec_step pe act (pm P) (pm P'))"
  using preachable_base [OF assms] pstep_spec [OF preachable_pinv [OF assms]] by blast

theorem shim_refines_scheduler_witness:
  "\<exists>P. prun demo_penv demo_nap (init_shim demo_process 7) = Some P \<and> reachable demo_process 7 (pm P)"
  by (rule demo_napE) (use shim_refines_scheduler in blast)

text \<open>C9: the depth tells user code from library code. A thread in user code, outside a virtual sleep, has
  depth zero, so its next call is intercepted and its atomic operations are scheduling points; a thread
  that waits inside the library, for its turn or in the real join, has a positive depth.\<close>

theorem depth_separates:
  assumes "preachable pr seed P" and "crash (pm P) = None"
  shows "(mc (pm P) p = InUser \<and> psleep P p = 0 \<longrightarrow> pdepth P p = 0)
    \<and> (waiting (mc (pm P) p) \<longrightarrow> is_in_rsched (pdepth P p))"
proof -
  have ok: "thread_tls_ok P p" using preachable_pinv [OF assms(1)] assms(2) by (simp add: pinv_def)
  have "mc (pm P) p = InUser \<Longrightarrow> psleep P p = 0 \<Longrightarrow> pdepth P p = 0" using ok by (simp add: thread_tls_ok_def)
  moreover have "waiting (mc (pm P) p) \<Longrightarrow> is_in_rsched (pdepth P p)"
    using waiting_depth [OF ok] by (simp add: is_in_rsched_def word_gt_0)
  ultimately show ?thesis by blast
qed

theorem depth_separates_witness:
  "\<exists>P. prun demo_penv demo_nap (init_shim demo_process 7) = Some P \<and> is_in_rsched (pdepth P 2)"
proof (rule demo_napE)
  fix P assume P: "prun demo_penv demo_nap (init_shim demo_process 7) = Some P" "preachable demo_process 7 P"
    "mc (pm P) 2 = Woken (SuspendCond 2) ([], TrampolineWaited)" "crash (pm P) = None"
  from depth_separates [OF P(2) P(4), of 2] P show ?thesis by simp
qed




text \<open>The same run just before the first yield.\<close>

lemma demo_tick_ok:
  "map_option (\<lambda>P. (psleep P 1, map_option (\<lambda>P'. (crash (pm P'), psleep P' 1)) (pstep demo_penv (PTick 1) P)))
     (prun demo_penv [PCall 1 (L_create 0 0 0 0), PBegin 2, PCall 1 (L_usleep 1000)] (init_shim demo_process 7))
   = Some (100, Some (None, 99))"
  by (simp add: prun_defs demo_defs)


end
