(* ===== verification/Rsched_Tsan_Machine.thy ===== *)
theory Rsched_Tsan_Machine
  imports Rsched_Preload
begin

text \<open>
  The build with the \<open>tsan\<close> feature: what it changes in \<open>rsched_pthread_create\<close> and \<open>trampoline\<close>
  (\<^verbatim>\<open>src/rsched/src/lib.rs\<close>, lines 1171-1303), together with the start gate of \<open>Rsched_Tsan\<close>, as a
  machine over the machine of the default build. A new thread announces itself and runs on, inside
  the sanitiser's own start function, without the scheduler; that function calls the gate, where the
  thread waits to be chosen. The start function belongs to the sanitiser, so what it calls is a
  parameter, \<open>ge_calls\<close>.
\<close>

section \<open>Creation and the trampoline\<close>

text \<open>The answers of the system in one step: those of the default build, the address of a new gate box,
  the code bytes of the process, the address of \<open>tsan_user_start_gate\<close>, and the routine and argument
  that the sanitiser's start function calls, given its own address and argument block.\<close>

record GateEnv =
  ge_env :: Env
  ge_new_gate :: usize
  ge_code :: "usize \<Rightarrow> u8"
  ge_gate_fn :: usize
  ge_calls :: "usize \<Rightarrow> usize \<Rightarrow> gate_heap \<Rightarrow> usize \<times> usize"

definition tsan_gate_of :: "GateEnv \<Rightarrow> usize \<Rightarrow> usize \<Rightarrow> gate_heap \<Rightarrow> usize option \<times> gate_heap" where
  "tsan_gate_of ge start arg h =
     (if rsched_is_tsan_thread_start (ge_code ge) start arg
      then (case prepare_tsan_start_gate (ge_gate_fn ge) (ge_new_gate ge) arg h of (g, h1) \<Rightarrow> (Some g, h1))
      else (None, h))"

text \<open>The end of \<open>rsched_pthread_create\<close>: a failed creation restores the block.\<close>

definition tsan_create_end :: "usize \<Rightarrow> usize option \<Rightarrow> api \<Rightarrow> gate_heap \<Rightarrow> api \<times> gate_heap" where
  "tsan_create_end arg gate out h =
     (case out of
        Done (Ret r) w \<Rightarrow>
          if r \<noteq> 0
          then (case gate of
                  Some g \<Rightarrow> (case restore_tsan_start_gate arg g h of
                               Inl e \<Rightarrow> (Fault e, h)
                             | Inr h1 \<Rightarrow> (out, h1))
                | None \<Rightarrow> (out, h))
          else (out, h)
      | _ \<Rightarrow> (out, h))"

definition tsan_pthread_create ::
  "GateEnv \<Rightarrow> PthreadT \<Rightarrow> usize \<Rightarrow> usize \<Rightarrow> u64 \<Rightarrow> world \<Rightarrow> gate_heap \<Rightarrow> usize option \<times> api \<times> gate_heap" where
  "tsan_pthread_create ge caller start arg ra w h =
     (case tsan_gate_of ge start arg h of
        (gate, h1) \<Rightarrow> (gate, tsan_create_end arg gate (rsched_pthread_create (ge_env ge) caller start arg ra w) h1))"

text \<open>The trampoline signals its creator and goes straight to the start routine.\<close>

definition tsan_trampoline :: "Env \<Rightarrow> PthreadT \<Rightarrow> usize \<Rightarrow> world \<Rightarrow> api" where
  "tsan_trampoline env self_pt sa w =
     (case boxes w sa of
        None \<Rightarrow> Fault UseAfterFree
      | Some a \<Rightarrow>
          info_upd unknown_thread self_pt (\<lambda>t. t\<lparr>tid := gettid env\<rparr>) w (\<lambda>w1.
            Done EnterRoutine (cond_signal (ReadyCond sa)
              (w1\<lparr>boxes := (boxes w1)(sa \<mapsto> a\<lparr>ready := True\<rparr>)\<rparr>))))"

section \<open>The machine\<close>

text \<open>
  \<open>creating\<close>: the locals \<open>arg\<close> and \<open>tsan_gate\<close> of a thread that waits inside \<open>rsched_pthread_create\<close>;
  \<open>in_start\<close>: a thread inside the sanitiser's start function, with the call that function will make;
  \<open>at_gate\<close>: a thread that waits at the gate; \<open>user_fn\<close>: the routine and argument a thread has entered.
\<close>

record tsan_machine =
  tm :: machine
  gheap :: gate_heap
  creating :: "PthreadT \<rightharpoonup> usize \<times> usize option"
  in_start :: "PthreadT \<rightharpoonup> usize \<times> usize"
  at_gate :: "PthreadT \<rightharpoonup> TSanGateArg"
  user_fn :: "PthreadT \<rightharpoonup> usize \<times> usize"

datatype tsan_action = Plain action | AtGate PthreadT

text \<open>A segment of \<open>rsched_pthread_create\<close> has ended or waits.\<close>

definition tsan_created :: "PthreadT \<Rightarrow> usize \<Rightarrow> usize option \<Rightarrow> api \<Rightarrow> gate_heap \<Rightarrow> tsan_machine \<Rightarrow> tsan_machine" where
  "tsan_created p arg gate out h t =
     t\<lparr>tm := settle p out (tm t), gheap := h,
       creating := (creating t)(p := (case out of Park q k w \<Rightarrow> Some (arg, gate) | _ \<Rightarrow> None))\<rparr>"

definition tsan_call :: "GateEnv \<Rightarrow> PthreadT \<Rightarrow> api_call \<Rightarrow> tsan_machine \<Rightarrow> tsan_machine option" where
  "tsan_call ge p call t =
     (if mc (tm t) p \<noteq> InUser \<or> in_start t p \<noteq> None then None
      else case call of
        CallCreate start arg ra \<Rightarrow>
          (case tsan_pthread_create ge p start arg ra (mw (tm t)) (gheap t) of
             (gate, out, h) \<Rightarrow> Some (tsan_created p arg gate out h t))
      | _ \<Rightarrow> map_option (\<lambda>m. t\<lparr>tm := m\<rparr>) (mstep (ge_env ge) (Call p call) (tm t)))"

text \<open>After the trampoline a thread is in the sanitiser's start function, or, if it was started with
  another routine, in that routine.\<close>

definition tsan_begin :: "GateEnv \<Rightarrow> PthreadT \<Rightarrow> tsan_machine \<Rightarrow> tsan_machine option" where
  "tsan_begin ge p t =
     (case mc (tm t) p of
        Fresh sa \<Rightarrow>
          let t1 = t\<lparr>tm := settle p (tsan_trampoline (ge_env ge) p sa (mw (tm t))) (tm t)\<rparr>
          in (case boxes (mw (tm t)) sa of
                None \<Rightarrow> Some t1
              | Some a \<Rightarrow>
                  if rsched_is_tsan_thread_start (ge_code ge) (routine a) (start_arg a)
                  then Some (t1\<lparr>in_start := (in_start t)(p \<mapsto> ge_calls ge (routine a) (start_arg a) (gheap t))\<rparr>)
                  else Some (t1\<lparr>user_fn := (user_fn t)(p \<mapsto> (routine a, start_arg a))\<rparr>))
      | _ \<Rightarrow> None)"

text \<open>The start function makes its call, of the gate or of anything else.\<close>

definition tsan_at_gate :: "GateEnv \<Rightarrow> PthreadT \<Rightarrow> tsan_machine \<Rightarrow> tsan_machine option" where
  "tsan_at_gate ge p t =
     (case in_start t p of
        None \<Rightarrow> None
      | Some (fn, raw) \<Rightarrow>
          let t1 = t\<lparr>in_start := (in_start t)(p := None)\<rparr>
          in if fn \<noteq> ge_gate_fn ge then Some (t1\<lparr>user_fn := (user_fn t)(p \<mapsto> (fn, raw))\<rparr>)
             else (case tsan_user_start_gate p raw (gheap t) (mw (tm t)) of
                     (h, Done x w) \<Rightarrow> Some (t1\<lparr>tm := settle p (Done EnterRoutine w) (tm t), gheap := h,
                                              user_fn := (user_fn t)(p \<mapsto> x)\<rparr>)
                   | (h, Park q g w) \<Rightarrow> Some (t1\<lparr>tm := settle p (Park q ([], TrampolineWaited) w) (tm t), gheap := h,
                                              at_gate := (at_gate t)(p \<mapsto> g)\<rparr>)
                   | (h, Fault e) \<Rightarrow> Some (t1\<lparr>tm := settle p (Fault e) (tm t)\<rparr>)))"

definition tsan_resume :: "GateEnv \<Rightarrow> PthreadT \<Rightarrow> tsan_machine \<Rightarrow> tsan_machine option" where
  "tsan_resume ge p t =
     (case mc (tm t) p of
        Woken q k \<Rightarrow>
          (case at_gate t p of
             Some g \<Rightarrow>
               (case tsan_gate_resumed p g (mw (tm t)) of
                  Done x w \<Rightarrow> Some (t\<lparr>tm := settle p (Done EnterRoutine w) (tm t), at_gate := (at_gate t)(p := None),
                                      user_fn := (user_fn t)(p \<mapsto> x)\<rparr>)
                | Park q g' w \<Rightarrow> None
                | Fault e \<Rightarrow> Some (t\<lparr>tm := settle p (Fault e) (tm t)\<rparr>))
           | None \<Rightarrow>
               (case creating t p of
                  Some (arg, gate) \<Rightarrow>
                    (case tsan_create_end arg gate (resume (ge_env ge) p k (mw (tm t))) (gheap t) of
                       (out, h) \<Rightarrow> Some (tsan_created p arg gate out h t))
                | None \<Rightarrow> map_option (\<lambda>m. t\<lparr>tm := m\<rparr>) (mstep (ge_env ge) (Resume p) (tm t))))
      | _ \<Rightarrow> None)"

definition tsan_step :: "GateEnv \<Rightarrow> tsan_action \<Rightarrow> tsan_machine \<Rightarrow> tsan_machine option" where
  "tsan_step ge act t =
     (if crash (tm t) \<noteq> None then None
      else case act of
        AtGate p \<Rightarrow> tsan_at_gate ge p t
      | Plain (Call p call) \<Rightarrow> tsan_call ge p call t
      | Plain (Begin p) \<Rightarrow> tsan_begin ge p t
      | Plain (Resume p) \<Rightarrow> tsan_resume ge p t
      | Plain other \<Rightarrow> map_option (\<lambda>m. t\<lparr>tm := m\<rparr>) (mstep (ge_env ge) other (tm t)))"

definition tsan_init :: "Process \<Rightarrow> u64 \<Rightarrow> gate_heap \<Rightarrow> tsan_machine" where
  "tsan_init pr seed h = \<lparr>tm = init_machine pr seed, gheap = h, creating = Map.empty, in_start = Map.empty,
     at_gate = Map.empty, user_fn = Map.empty\<rparr>"

fun tsan_run :: "GateEnv \<Rightarrow> tsan_action list \<Rightarrow> tsan_machine \<Rightarrow> tsan_machine option" where
  "tsan_run ge [] t = Some t"
| "tsan_run ge (act # acts) t = (case tsan_step ge act t of None \<Rightarrow> None | Some t1 \<Rightarrow> tsan_run ge acts t1)"

section \<open>Properties\<close>

text \<open>A program under the sanitiser. The main thread creates a thread with the sanitiser's start function
  (at 4096) and a block (at 640) that holds the user's routine 9000 and its argument 9008; the gate is
  at 5000.\<close>

definition demo_gate_env :: GateEnv where
  "demo_gate_env = \<lparr>ge_env = demo_env, ge_new_gate = 8192, ge_code = store_bytes (\<lambda>_. 0) 4096 TSAN_THREAD_START_PREFIX,
     ge_gate_fn = 5000, ge_calls = (\<lambda>start arg h. (words h arg, words h (arg + 8)))\<rparr>"

definition demo_block :: gate_heap where
  "demo_block = \<lparr>words = (\<lambda>_. 0)(640 := 9000, 648 := 9008), gates = Map.empty\<rparr>"

abbreviation demo_tsan :: "tsan_action list \<Rightarrow> tsan_machine option" where
  "demo_tsan acts \<equiv> tsan_run demo_gate_env acts (tsan_init demo_process 7 demo_block)"

lemma demo_thread_start: "rsched_is_tsan_thread_start (ge_code demo_gate_env) 4096 640"
  using bytes_at_store [of TSAN_THREAD_START_PREFIX "\<lambda>_. 0" 4096]
  by (simp add: rsched_is_tsan_thread_start_def demo_gate_env_def TSAN_THREAD_START_PREFIX_def)

lemmas tsan_defs = tsan_step_def tsan_call_def tsan_begin_def tsan_at_gate_def tsan_resume_def tsan_created_def
  tsan_pthread_create_def tsan_create_end_def tsan_trampoline_def tsan_gate_of_def prepare_tsan_start_gate_def
  restore_tsan_start_gate_def tsan_user_start_gate_def tsan_gate_resumed_def tsan_init_def

lemma demo_draw_nobody:
  "RandomWalk_choose (RandomWalk_new 7) [True, True] = Inr (None, \<lparr>rng = Rng 7575888327\<rparr>)"
  "\<exists>r. RandomWalk_choose \<lparr>rng = Rng 7575888327\<rparr> [True, True] = Inr (None, r)"
  by (simp_all add: run_draw_defs)

lemma demo_gate_env_simps:
  "ge_env demo_gate_env = demo_env" "ge_gate_fn demo_gate_env = 5000" "ge_new_gate demo_gate_env = 8192"
  "ge_calls demo_gate_env = (\<lambda>start arg h. (words h arg, words h (arg + 8)))"
  by (simp_all add: demo_gate_env_def)

lemmas demo_tsan_defs = tsan_defs demo_thread_start demo_gate_env_simps demo_defs demo_block_def

definition demo_join_early :: "tsan_action list" where
  "demo_join_early = [Plain (Call 1 (CallCreate 4096 640 0)), Plain (Begin 2), Plain (Call 1 (CallJoin 2)), AtGate 2]"

lemma demo_join_early_ok:
  "map_option (\<lambda>t. (mc (tm t), crash (tm t), in_start t, at_gate t 2, eligible (st (mw (tm t))) 2)) (demo_tsan demo_join_early)
   = Some ((\<lambda>_. NoThread)(1 := Joining 2, 2 := Parked (SuspendCond 2) ([], TrampolineWaited)), None, Map.empty,
       Some \<lparr>gate_routine = 9000, gate_arg = 9008\<rparr>, True)"
proof -
  obtain r where r: "RandomWalk_choose \<lparr>rng = Rng 7575888327\<rparr> [True, True] = Inr (None, r)"
    using demo_draw_nobody(2) by blast
  show ?thesis
    by (simp add: demo_join_early_def demo_tsan_defs demo_draw_nobody(1) r eligible_def)
       (simp add: fun_eq_iff)
qed



text \<open>One call of \<open>pthread_create\<close> that need not wait for an earlier child.\<close>

lemma create_no_wait:
  assumes "pending_child (st w) = None" and "info (st w) p = Some tp" and "rp_create env = (r, ch)" and "ch \<noteq> p"
  shows "r \<noteq> 0 \<Longrightarrow> rsched_pthread_create env p start arg ra w = Done (Ret r) (w\<lparr>boxes := (boxes w)(new_box env := None)\<rparr>)"
    and "r = 0 \<Longrightarrow> \<exists>w1. rsched_pthread_create env p start arg ra w = Done (Ret 0) w1
       \<and> boxes w1 (new_box env) = Some \<lparr>routine = start, start_arg = arg, ready = False\<rparr>
       \<and> info (st w1) ch = Some (Thread_new_with_tid ch 0) \<and> effects w1 = effects w @ [Spawn ch (new_box env)]
       \<and> pending_child (st w1) = Some (new_box env, ch)"
  using assms
  by (simp_all add: rsched_pthread_create_def drain_pending_child_def create_drained_def on_st_def set_event_def
      State_t_upd_def State_add_def Thread_new_with_tid_def Let_def)

text \<open>C34: with the sanitiser, a new thread ends up in the user's own routine with the user's own argument.
  A successful creation swaps the block for the gate; the thread runs the trampoline and the
  sanitiser's start function, which (\<open>reads\<close>) calls what the block holds, so it parks at the gate
  without having entered user code, and the gate box is freed. Once the scheduler signals it, it
  enters the routine that the block held before.\<close>

theorem tsan_thread_enters_user_routine:
  assumes p: "crash (tm t) = None" "mc (tm t) p = InUser" "in_start t p = None"
    and w: "pending_child (st (mw (tm t))) = None" "info (st (mw (tm t))) p = Some tp" "effects (mw (tm t)) = []"
    and ch: "rp_create (ge_env ge) = (0, ch)" "ch \<noteq> p"
    and gated: "rsched_is_tsan_thread_start (ge_code ge) start arg" "gates (gheap t) (ge_new_gate ge) = None"
    and reads: "\<And>h. ge_calls ge start arg h = (words h arg, words h (arg + 8))"
  shows "\<exists>t1 t2 t3 t4. tsan_step ge (Plain (Call p (CallCreate start arg ra))) t = Some t1
    \<and> tsan_step ge (Plain (Begin ch)) t1 = Some t2 \<and> tsan_step ge (AtGate ch) t2 = Some t3
    \<and> mc (tm t3) ch = Parked (SuspendCond ch) ([], TrampolineWaited) \<and> user_fn t3 = user_fn t
    \<and> gates (gheap t3) = gates (gheap t)
    \<and> tsan_step ge (Plain (Resume ch)) (t3\<lparr>tm := (tm t3)\<lparr>mc := deliver (Signal (SuspendCond ch)) (mc (tm t3))\<rparr>\<rparr>) = Some t4
    \<and> mc (tm t4) ch = InUser \<and> user_fn t4 ch = Some (words (gheap t) arg, words (gheap t) (arg + 8))"
proof -
  obtain w1 where cr: "rsched_pthread_create (ge_env ge) p start arg ra (mw (tm t)) = Done (Ret 0) w1"
    and w1: "boxes w1 (new_box (ge_env ge)) = Some \<lparr>routine = start, start_arg = arg, ready = False\<rparr>"
      "info (st w1) ch = Some (Thread_new_with_tid ch 0)" "effects w1 = [Spawn ch (new_box (ge_env ge))]"
    using create_no_wait(2) [OF w(1,2) ch, of start arg ra] w(3) by auto
  have ne: "arg + 8 \<noteq> arg" by simp
  have gone: "(gates (gheap t))(ge_new_gate ge := None) = gates (gheap t)" using gated(2) by auto
  show ?thesis
    using p ch gated(1) w1 ne gone
    by (simp add: tsan_step_def tsan_call_def tsan_pthread_create_def tsan_gate_of_def prepare_tsan_start_gate_def cr
        tsan_create_end_def tsan_created_def tsan_begin_def tsan_trampoline_def tsan_at_gate_def reads
        tsan_user_start_gate_def tsan_resume_def tsan_gate_resumed_def)
qed

lemma demo_tsan_start:
  obtains tp where "info (st (mw (tm (tsan_init demo_process 7 demo_block)))) 1 = Some tp"
  by (simp add: tsan_init_def demo_defs)

theorem tsan_thread_enters_user_routine_witness:
  "\<exists>t3 t4. demo_tsan [Plain (Call 1 (CallCreate 4096 640 0)), Plain (Begin 2), AtGate 2] = Some t3
     \<and> tsan_step demo_gate_env (Plain (Resume 2)) (t3\<lparr>tm := (tm t3)\<lparr>mc := deliver (Signal (SuspendCond 2)) (mc (tm t3))\<rparr>\<rparr>) = Some t4
     \<and> user_fn t4 2 = Some (words demo_block 640, words demo_block 648)"
proof -
  let ?t = "tsan_init demo_process 7 demo_block"
  obtain tp where tp: "info (st (mw (tm ?t))) 1 = Some tp" by (rule demo_tsan_start)
  have h: "gheap ?t = demo_block" by (simp add: tsan_init_def)
  have "\<exists>t1 t2 t3 t4. tsan_step demo_gate_env (Plain (Call 1 (CallCreate 4096 640 0))) ?t = Some t1
    \<and> tsan_step demo_gate_env (Plain (Begin 2)) t1 = Some t2 \<and> tsan_step demo_gate_env (AtGate 2) t2 = Some t3
    \<and> mc (tm t3) 2 = Parked (SuspendCond 2) ([], TrampolineWaited) \<and> user_fn t3 = user_fn ?t
    \<and> gates (gheap t3) = gates (gheap ?t)
    \<and> tsan_step demo_gate_env (Plain (Resume 2)) (t3\<lparr>tm := (tm t3)\<lparr>mc := deliver (Signal (SuspendCond 2)) (mc (tm t3))\<rparr>\<rparr>) = Some t4
    \<and> mc (tm t4) 2 = InUser \<and> user_fn t4 2 = Some (words (gheap ?t) 640, words (gheap ?t) (640 + 8))"
    by (rule tsan_thread_enters_user_routine [OF _ _ _ _ tp])
       (use demo_thread_start in \<open>simp_all add: tsan_init_def demo_defs demo_gate_env_simps demo_block_def\<close>)
  then obtain t1 t2 t3 t4 where r: "tsan_step demo_gate_env (Plain (Call 1 (CallCreate 4096 640 0))) ?t = Some t1"
    "tsan_step demo_gate_env (Plain (Begin 2)) t1 = Some t2" "tsan_step demo_gate_env (AtGate 2) t2 = Some t3"
    and t4: "tsan_step demo_gate_env (Plain (Resume 2)) (t3\<lparr>tm := (tm t3)\<lparr>mc := deliver (Signal (SuspendCond 2)) (mc (tm t3))\<rparr>\<rparr>) = Some t4"
      "user_fn t4 2 = Some (words (gheap ?t) 640, words (gheap ?t) (640 + 8))" by blast
  from t4(2) have "user_fn t4 2 = Some (words demo_block 640, words demo_block 648)" unfolding h by simp
  moreover have "demo_tsan [Plain (Call 1 (CallCreate 4096 640 0)), Plain (Begin 2), AtGate 2] = Some t3" using r by simp
  ultimately show ?thesis using t4(1) by blast
qed

text \<open>C35: a creation that fails leaves no trace of the gate: the block, the gate boxes and the start
  arguments are as they were, and the caller goes on in user code.\<close>

theorem tsan_failed_create_restores:
  assumes p: "crash (tm t) = None" "mc (tm t) p = InUser" "in_start t p = None" "creating t p = None"
    and w: "pending_child (st (mw (tm t))) = None" "info (st (mw (tm t))) p = Some tp" "effects (mw (tm t)) = []"
    and r: "rp_create (ge_env ge) = (r, ch)" "r \<noteq> 0" "ch \<noteq> p"
    and new: "boxes (mw (tm t)) (new_box (ge_env ge)) = None" "gates (gheap t) (ge_new_gate ge) = None"
  shows "tsan_step ge (Plain (Call p (CallCreate start arg ra))) t = Some t"
proof -
  let ?m = "tm t"
  have cr: "rsched_pthread_create (ge_env ge) p start arg ra (mw ?m) = Done (Ret r) ((mw ?m)\<lparr>boxes := (boxes (mw ?m))(new_box (ge_env ge) := None)\<rparr>)"
    using create_no_wait(1) [OF w(1,2) r(1,3,2)] .
  have same: "(boxes (mw ?m))(new_box (ge_env ge) := None) = boxes (mw ?m)" "(gates (gheap t))(ge_new_gate ge := None) = gates (gheap t)"
      "(mc ?m)(p := InUser) = mc ?m" "(creating t)(p := None) = creating t"
      "(words (gheap t))(arg := words (gheap t) arg, arg + 8 := words (gheap t) (arg + 8)) = words (gheap t)"
    using new p(2,4) by auto
  have twist: "(f(arg := a, arg + 8 := b))(arg := c, arg + 8 := d) = f(arg := c, arg + 8 := d)" for f :: "usize \<Rightarrow> usize" and a b c d
    by (auto simp: fun_eq_iff)
  have m: "settle p (Done (Ret r) ((mw ?m)\<lparr>boxes := (boxes (mw ?m))(new_box (ge_env ge) := None)\<rparr>)) ?m = ?m"
    using same w(3) by simp
  show ?thesis using p r(2) same m
    by (simp add: tsan_step_def tsan_call_def tsan_pthread_create_def tsan_gate_of_def prepare_tsan_start_gate_def cr
        tsan_create_end_def restore_tsan_start_gate_def twist tsan_created_def del: settle.simps)
qed

theorem tsan_failed_create_restores_witness:
  "tsan_step (demo_gate_env\<lparr>ge_env := demo_env\<lparr>rp_create := (11, 2)\<rparr>\<rparr>) (Plain (Call 1 (CallCreate 4096 640 0)))
     (tsan_init demo_process 7 demo_block) = Some (tsan_init demo_process 7 demo_block)"
proof -
  obtain tp where tp: "info (st (mw (tm (tsan_init demo_process 7 demo_block)))) 1 = Some tp" by (rule demo_tsan_start)
  show ?thesis
    by (rule tsan_failed_create_restores [where r = 11 and ch = 2, OF _ _ _ _ _ tp])
       (simp_all add: tsan_init_def demo_defs demo_gate_env_def demo_block_def)
qed

text \<open>Behind the shim every thread that the scheduler gets is gated: the interceptor forwards the others.\<close>

lemma shim_threads_are_gated:
  assumes "pthread_create_tsan te ra outermost thread attr start arg s = Inr (Into (CallCreate start' arg' ra'), s')"
    and "te_mem te = ge_code ge"
  shows "fst (tsan_gate_of ge start' arg' h) = Some (ge_new_gate ge)"
  using assms
  by (auto simp: pthread_create_tsan_def checked_def tsan_gate_of_def prepare_tsan_start_gate_def Let_def
      split: if_splits sum.splits)

end
