(* ===== verification/Rsched_Diagnose.thy ===== *)
theory Rsched_Diagnose
  imports Rsched_Preload
begin

text \<open>
  The diagnostic of the shim, \<^verbatim>\<open>src/rsched/preload/src/lib.rs\<close> lines 55-120: \<open>rsched_diagnose_rtld_next\<close>
  prints where \<open>dlsym(RTLD_NEXT, name)\<close> leads. The report can be read back: it determines the address of
  every name it lists. It does not list every intercepted function, although its comment says so.
\<close>

section \<open>Formatting\<close>

text \<open>\<open>{:32}\<close> pads a string on the right, \<open>{:p}\<close> prints an address in hexadecimal.\<close>

definition pad32 :: "string \<Rightarrow> string" where
  "pad32 s = s @ replicate (32 - length s) CHR '' ''"

definition hex_digit :: "nat \<Rightarrow> char" where
  "hex_digit d = ''0123456789abcdef'' ! d"

fun hex :: "nat \<Rightarrow> string" where
  "hex n = (if n < 16 then [hex_digit n] else hex (n div 16) @ [hex_digit (n mod 16)])"

declare hex.simps [simp del]

definition show_ptr :: "usize \<Rightarrow> string" where
  "show_ptr p = ''0x'' @ hex (unat p)"

text \<open>The arrow, in UTF-8.\<close>

definition arrow :: string where
  "arrow = '' '' @ map char_of [0xE2 :: nat, 0x86, 0x92] @ '' ''"

section \<open>The report\<close>

definition diagnosed_names :: "string list" where
  "diagnosed_names = [''pthread_create'', ''pthread_join'', ''pthread_mutex_lock'', ''pthread_mutex_unlock'',
     ''pthread_cond_wait'', ''pthread_cond_signal'', ''pthread_cond_broadcast'', ''pthread_barrier_init'',
     ''pthread_barrier_wait'', ''sched_yield'']"

text \<open>The slots of the next implementations, by the name each is resolved with.\<close>

definition next_slots :: "string list" where
  "next_slots = [''pthread_create'', ''pthread_join'', ''pthread_mutex_lock'', ''pthread_mutex_trylock'',
     ''pthread_mutex_unlock'', ''pthread_mutex_init'', ''pthread_mutex_destroy'', ''pthread_mutexattr_init'',
     ''pthread_mutexattr_settype'', ''pthread_mutexattr_destroy'', ''pthread_cond_wait'', ''pthread_cond_signal'',
     ''pthread_cond_broadcast'', ''pthread_barrier_init'', ''pthread_barrier_wait'', ''sched_yield'', ''nanosleep'',
     ''usleep'', ''sleep'', ''clock_nanosleep'']"

text \<open>\<open>dladdr\<close> fails or knows no file (\<open>None\<close>), or gives a file name, which may not be text.\<close>

definition diagnose_line :: "(string \<Rightarrow> usize) \<Rightarrow> (usize \<Rightarrow> string option option) \<Rightarrow> string \<Rightarrow> string" where
  "diagnose_line dlsym dladdr name =
     (let p = dlsym name
      in if p = 0 then ''  '' @ pad32 name @ arrow @ ''NULL''
         else case dladdr p of
             Some fname \<Rightarrow> ''  '' @ pad32 name @ arrow @ show_ptr p @ ''  ('' @ (case fname of Some f \<Rightarrow> f | None \<Rightarrow> ''?'') @ '')''
           | None \<Rightarrow> ''  '' @ pad32 name @ arrow @ show_ptr p @ ''  (dladdr failed)'')"

definition rsched_diagnose_rtld_next :: "(string \<Rightarrow> usize) \<Rightarrow> (usize \<Rightarrow> string option option) \<Rightarrow> string list" where
  "rsched_diagnose_rtld_next dlsym dladdr =
     ''[rsched] RTLD_NEXT resolutions from librsched_preload.so:'' # map (diagnose_line dlsym dladdr) diagnosed_names"

section \<open>Reading the report\<close>

definition is_hex :: "char \<Rightarrow> bool" where
  "is_hex ch \<longleftrightarrow> ch \<in> set ''0123456789abcdef''"

lemma hex_digit_inj: "d < 16 \<Longrightarrow> e < 16 \<Longrightarrow> hex_digit d = hex_digit e \<Longrightarrow> d = e"
proof -
  have "distinct ''0123456789abcdef''" by simp
  moreover have "length ''0123456789abcdef'' = 16" by simp
  ultimately show "d < 16 \<Longrightarrow> e < 16 \<Longrightarrow> hex_digit d = hex_digit e \<Longrightarrow> d = e"
    unfolding hex_digit_def using nth_eq_iff_index_eq by metis
qed

lemma hex_digit_is_hex: "d < 16 \<Longrightarrow> is_hex (hex_digit d)"
  unfolding is_hex_def hex_digit_def by (rule nth_mem) simp

lemma hex_is_hex: "list_all is_hex (hex n)"
proof (induction n rule: hex.induct)
  case (1 n)
  then show ?case by (subst hex.simps) (simp add: hex_digit_is_hex)
qed

lemma hex_ne: "hex n \<noteq> []"
  by (subst hex.simps) simp

lemma hex_inj: "hex n = hex m \<Longrightarrow> n = m"
proof (induction n arbitrary: m rule: hex.induct)
  case (1 n)
  show ?case
  proof (cases "n < 16")
    case True
    then show ?thesis using "1.prems" hex_ne [of "m div 16"] hex_digit_inj
      by (subst (asm) (1 2) hex.simps) (auto split: if_splits)
  next
    case False
    then have m: "\<not> m < 16" and eq: "hex (n div 16) = hex (m div 16)" "hex_digit (n mod 16) = hex_digit (m mod 16)"
      using "1.prems" hex_ne [of "n div 16"] by (subst (asm) (1 2) hex.simps; auto split: if_splits)+
    have "n div 16 = m div 16" using "1.IH" [OF False eq(1)] .
    moreover have "n mod 16 = m mod 16" using hex_digit_inj [OF _ _ eq(2)] by simp
    ultimately show ?thesis by (metis div_mult_mod_eq)
  qed
qed

text \<open>What the line of \<open>name\<close> says after its prefix: the address, or nothing.\<close>

definition read_address :: "string \<Rightarrow> string \<Rightarrow> string" where
  "read_address name l = takeWhile is_hex (drop 2 (drop (length (''  '' @ pad32 name @ arrow)) l))"

lemma read_address_line:
  "read_address name (diagnose_line dlsym dladdr name) = (if dlsym name = 0 then [] else hex (unat (dlsym name)))"
proof -
  have cut: "takeWhile is_hex (hex n @ CHR '' '' # rest) = hex n" for n rest
    using hex_is_hex [of n] by (simp add: takeWhile_append2 list_all_iff is_hex_def)
  have "takeWhile is_hex (drop 2 ''NULL'') = []" by (simp add: is_hex_def)
  then show ?thesis
    by (auto simp: read_address_def diagnose_line_def Let_def show_ptr_def cut split: option.split)
qed

text \<open>The report of one linker determines where each listed name leads.\<close>

lemma diagnose_determines:
  assumes "rsched_diagnose_rtld_next dlsym dladdr = rsched_diagnose_rtld_next dlsym' dladdr'" and "name \<in> set diagnosed_names"
  shows "dlsym name = dlsym' name"
proof -
  have "diagnose_line dlsym dladdr name = diagnose_line dlsym' dladdr' name"
    using assms unfolding rsched_diagnose_rtld_next_def by (simp add: map_eq_conv)
  then have "(if dlsym name = 0 then [] else hex (unat (dlsym name))) = (if dlsym' name = 0 then [] else hex (unat (dlsym' name)))"
    by (metis read_address_line)
  then show ?thesis using hex_ne hex_inj by (metis unsigned_word_eqI)
qed

text \<open>Ten of the twenty intercepted functions with a slot are missing from the report.\<close>

lemma diagnose_incomplete:
  "set diagnosed_names \<subseteq> set next_slots"
  "filter (\<lambda>n. n \<notin> set diagnosed_names) next_slots =
     [''pthread_mutex_trylock'', ''pthread_mutex_init'', ''pthread_mutex_destroy'', ''pthread_mutexattr_init'',
      ''pthread_mutexattr_settype'', ''pthread_mutexattr_destroy'', ''nanosleep'', ''usleep'', ''sleep'', ''clock_nanosleep'']"
  by (simp_all add: diagnosed_names_def next_slots_def)

text \<open>The slots are the names that interceptors forward to.\<close>

lemma forwards_to_slots:
  assumes "interceptor ra call outer = CallNext name args nt"
  shows "name \<in> set next_slots"
  using assms by (cases call; auto simp: interceptor_defs next_slots_def split: if_splits)

end
