(* ===== verification/Rsched_Atomics.thy ===== *)
theory Rsched_Atomics
  imports Rsched_Machine Rsched_Bytes "HOL-Library.Multiset"
begin

text \<open>
  The exported atomic operations of \<^verbatim>\<open>src/rsched/src/lib.rs\<close> (lines 1752-1870). Each is a scheduling
  point followed by the access itself. An operation is therefore a pair: the call of the scheduler
  that announces it, after which any other thread may run, and the access to the memory that
  happens, as one step, once the thread is scheduled again. \<open>ra\<close> is the return address; a signed and an
  unsigned 32-bit integer are the same 32 bits.
\<close>

unbundle bit_operations_syntax

type_synonym 'a atomic = "api_call \<times> (memory \<Rightarrow> 'a \<times> memory)"

section \<open>Loads and stores\<close>

definition rsched_atomic_load_i32 :: "u64 \<Rightarrow> usize \<Rightarrow> u32 atomic" where
  "rsched_atomic_load_i32 ra ptr = (CallMemop ra ptr 4 Read, \<lambda>mem. (load32 mem ptr, mem))"

definition rsched_atomic_store_i32 :: "u64 \<Rightarrow> usize \<Rightarrow> u32 \<Rightarrow> unit atomic" where
  "rsched_atomic_store_i32 ra ptr val = (CallMemop ra ptr 4 Write, \<lambda>mem. ((), store32 mem ptr val))"

definition rsched_atomic_load_u32 :: "u64 \<Rightarrow> usize \<Rightarrow> u32 atomic" where
  "rsched_atomic_load_u32 ra ptr = (CallMemop ra ptr 4 Read, \<lambda>mem. (load32 mem ptr, mem))"

definition rsched_atomic_store_u32 :: "u64 \<Rightarrow> usize \<Rightarrow> u32 \<Rightarrow> unit atomic" where
  "rsched_atomic_store_u32 ra ptr val = (CallMemop ra ptr 4 Write, \<lambda>mem. ((), store32 mem ptr val))"

definition rsched_atomic_load_ptr :: "u64 \<Rightarrow> usize \<Rightarrow> usize atomic" where
  "rsched_atomic_load_ptr ra ptr = (CallMemop ra ptr 8 Read, \<lambda>mem. (load64 mem ptr, mem))"

definition rsched_atomic_store_ptr :: "u64 \<Rightarrow> usize \<Rightarrow> usize \<Rightarrow> unit atomic" where
  "rsched_atomic_store_ptr ra ptr val = (CallMemop ra ptr 8 Write, \<lambda>mem. ((), store64 mem ptr val))"

section \<open>Read-modify-write\<close>

definition compare_exchange :: "usize \<Rightarrow> usize \<Rightarrow> u32 \<Rightarrow> memory \<Rightarrow> bool \<times> memory" where
  "compare_exchange ptr expected desired mem =
     (let current = load32 mem ptr
      in if current = load32 mem expected then (True, store32 mem ptr desired)
         else (False, store32 mem expected current))"

definition rsched_atomic_compare_exchange_i32 :: "u64 \<Rightarrow> usize \<Rightarrow> usize \<Rightarrow> u32 \<Rightarrow> bool atomic" where
  "rsched_atomic_compare_exchange_i32 ra ptr expected desired =
     (CallMemop ra ptr 4 ReadWrite, compare_exchange ptr expected desired)"

definition rsched_atomic_compare_exchange_u32 :: "u64 \<Rightarrow> usize \<Rightarrow> usize \<Rightarrow> u32 \<Rightarrow> bool atomic" where
  "rsched_atomic_compare_exchange_u32 ra ptr expected desired =
     (CallMemop ra ptr 4 ReadWrite, compare_exchange ptr expected desired)"

definition rsched_atomic_fetch_add_i32 :: "u64 \<Rightarrow> usize \<Rightarrow> u32 \<Rightarrow> u32 atomic" where
  "rsched_atomic_fetch_add_i32 ra ptr val =
     (CallMemop ra ptr 4 ReadWrite, \<lambda>mem. (load32 mem ptr, store32 mem ptr (load32 mem ptr + val)))"

definition rsched_atomic_fetch_add_u32 :: "u64 \<Rightarrow> usize \<Rightarrow> u32 \<Rightarrow> u32 atomic" where
  "rsched_atomic_fetch_add_u32 ra ptr val =
     (CallMemop ra ptr 4 ReadWrite, \<lambda>mem. (load32 mem ptr, store32 mem ptr (load32 mem ptr + val)))"

definition rsched_atomic_fetch_xor_i32 :: "u64 \<Rightarrow> usize \<Rightarrow> u32 \<Rightarrow> u32 atomic" where
  "rsched_atomic_fetch_xor_i32 ra ptr val =
     (CallMemop ra ptr 4 ReadWrite, \<lambda>mem. (load32 mem ptr, store32 mem ptr (load32 mem ptr XOR val)))"

definition rsched_atomic_fetch_xor_u32 :: "u64 \<Rightarrow> usize \<Rightarrow> u32 \<Rightarrow> u32 atomic" where
  "rsched_atomic_fetch_xor_u32 ra ptr val =
     (CallMemop ra ptr 4 ReadWrite, \<lambda>mem. (load32 mem ptr, store32 mem ptr (load32 mem ptr XOR val)))"

section \<open>All operations\<close>

datatype atomic_op =
    LoadI32 usize
  | StoreI32 usize u32
  | LoadU32 usize
  | StoreU32 usize u32
  | LoadPtr usize
  | StorePtr usize usize
  | CasI32 usize usize u32
  | CasU32 usize usize u32
  | AddI32 usize u32
  | AddU32 usize u32
  | XorI32 usize u32
  | XorU32 usize u32

definition drop_result :: "'a atomic \<Rightarrow> api_call \<times> (memory \<Rightarrow> memory)" where
  "drop_result a = (fst a, \<lambda>mem. snd (snd a mem))"

fun perform :: "u64 \<Rightarrow> atomic_op \<Rightarrow> api_call \<times> (memory \<Rightarrow> memory)" where
  "perform ra (LoadI32 p) = drop_result (rsched_atomic_load_i32 ra p)"
| "perform ra (StoreI32 p v) = drop_result (rsched_atomic_store_i32 ra p v)"
| "perform ra (LoadU32 p) = drop_result (rsched_atomic_load_u32 ra p)"
| "perform ra (StoreU32 p v) = drop_result (rsched_atomic_store_u32 ra p v)"
| "perform ra (LoadPtr p) = drop_result (rsched_atomic_load_ptr ra p)"
| "perform ra (StorePtr p v) = drop_result (rsched_atomic_store_ptr ra p v)"
| "perform ra (CasI32 p e v) = drop_result (rsched_atomic_compare_exchange_i32 ra p e v)"
| "perform ra (CasU32 p e v) = drop_result (rsched_atomic_compare_exchange_u32 ra p e v)"
| "perform ra (AddI32 p v) = drop_result (rsched_atomic_fetch_add_i32 ra p v)"
| "perform ra (AddU32 p v) = drop_result (rsched_atomic_fetch_add_u32 ra p v)"
| "perform ra (XorI32 p v) = drop_result (rsched_atomic_fetch_xor_i32 ra p v)"
| "perform ra (XorU32 p v) = drop_result (rsched_atomic_fetch_xor_u32 ra p v)"

text \<open>The thread's own cell that a failed exchange writes back to.\<close>

fun own_cell :: "atomic_op \<Rightarrow> usize \<Rightarrow> bool" where
  "own_cell (CasI32 p e v) = in_range e 4"
| "own_cell (CasU32 p e v) = in_range e 4"
| "own_cell _ = (\<lambda>_. False)"

lemmas atomic_defs = rsched_atomic_load_i32_def rsched_atomic_store_i32_def rsched_atomic_load_u32_def
  rsched_atomic_store_u32_def rsched_atomic_load_ptr_def rsched_atomic_store_ptr_def
  rsched_atomic_compare_exchange_i32_def rsched_atomic_compare_exchange_u32_def
  rsched_atomic_fetch_add_i32_def rsched_atomic_fetch_add_u32_def
  rsched_atomic_fetch_xor_i32_def rsched_atomic_fetch_xor_u32_def drop_result_def

section \<open>Properties\<close>



text \<open>A failed compare-and-exchange has loaded the value that makes the next one succeed. If nobody
  else writes in between, the retry with the updated expected value succeeds and stores the desired
  value; a successful exchange stores it at once.\<close>

theorem cas_retry_succeeds:
  assumes "disjoint ptr 4 expected 4" and "compare_exchange ptr expected desired mem = (ok, mem')"
  shows "if ok then load32 mem ptr = load32 mem expected \<and> mem' = store32 mem ptr desired
    else load32 mem ptr \<noteq> load32 mem expected \<and> load32 mem' ptr = load32 mem ptr
      \<and> compare_exchange ptr expected desired mem' = (True, store32 mem' ptr desired)"
  using assms by (auto simp: compare_exchange_def Let_def split: if_splits)

theorem cas_retry_succeeds_witness:
  "compare_exchange 64 128 9 (store32 (\<lambda>_. 0) 64 5) = (False, store32 (store32 (\<lambda>_. 0) 64 5) 128 5)
   \<and> fst (compare_exchange 64 128 9 (store32 (store32 (\<lambda>_. 0) 64 5) 128 5)) = True"
proof -
  have d: "disjoint 64 4 128 4"
  proof -
    have "\<not> (unat (x - 64) < 4 \<and> unat (x - 128) < 4)" for x :: usize
    proof
      assume a: "unat (x - 64) < 4 \<and> unat (x - 128) < 4"
      have "x - 64 = (x - 128) + 64" by simp
      moreover have "unat ((x - 128) + 64) = unat (x - 128) + 64"
        using a by (subst unat_add_lem [THEN iffD1]) (simp_all add: unat_of_nat)
      ultimately show False using a by simp
    qed
    then show ?thesis by (simp add: disjoint_def in_range_def)
  qed
  then have d': "disjoint 128 4 64 4" by (auto simp: disjoint_def)
  have "load32 (\<lambda>_. 0) 128 = 0" by (simp add: load32_def bytes_at_def numeral_eq_Suc)
  then have "compare_exchange 64 128 9 (store32 (\<lambda>_. 0) 64 5) = (False, store32 (store32 (\<lambda>_. 0) 64 5) 128 5)"
    using d' by (simp add: compare_exchange_def)
  from cas_retry_succeeds [OF d this] this show ?thesis by simp
qed

text \<open>Several threads add to one cell; the list is the order in which the scheduler lets them.\<close>

fun add_all :: "u64 \<Rightarrow> usize \<Rightarrow> u32 list \<Rightarrow> memory \<Rightarrow> memory" where
  "add_all ra ptr [] mem = mem"
| "add_all ra ptr (v # vs) mem = add_all ra ptr vs (snd (snd (rsched_atomic_fetch_add_u32 ra ptr v) mem))"

lemma add_all_sum: "load32 (add_all ra ptr vs mem) ptr = load32 mem ptr + sum_list vs"
  by (induction vs arbitrary: mem) (simp_all add: rsched_atomic_fetch_add_u32_def Let_def)

lemma add_all_outside: "\<not> in_range ptr 4 x \<Longrightarrow> add_all ra ptr vs mem x = mem x"
  by (induction vs arbitrary: mem) (simp_all add: rsched_atomic_fetch_add_u32_def Let_def store32_outside)

text \<open>Concurrent additions commute. Whatever the order in which the scheduler lets the threads add,
  the cell ends with the same sum modulo \<open>2 ^ 32\<close>, and every other byte is untouched.\<close>

theorem additions_commute:
  assumes "mset us = mset vs"
  shows "load32 (add_all ra ptr us mem) ptr = load32 mem ptr + sum_list vs
    \<and> (\<forall>x. \<not> in_range ptr 4 x \<longrightarrow> add_all ra ptr us mem x = mem x)"
proof -
  have "sum_list us = sum_list vs" using assms by (metis sum_mset_sum_list)
  then show ?thesis by (simp add: add_all_sum add_all_outside)
qed

theorem additions_commute_witness:
  "load32 (add_all 0 64 [2, 1] (\<lambda>_. 0)) 64 = 3"
proof -
  have "mset [2, 1] = mset [1, 2 :: u32]" by simp
  from additions_commute [OF this, of 0 64 "\<lambda>_. 0"]
  have "load32 (add_all 0 64 [2, 1] (\<lambda>_. 0)) 64 = load32 (\<lambda>_. 0) 64 + sum_list [1, 2]" by (rule conjunct1)
  moreover have "load32 (\<lambda>_. 0) 64 = 0" by (simp add: load32_def bytes_at_def numeral_eq_Suc)
  ultimately show ?thesis by (simp del: add_all.simps)
qed

end
