(* ===== verification/Rsched_Bindings.thy ===== *)
theory Rsched_Bindings
  imports Rsched_Prelude
begin

text \<open>
  The direct bindings to libpthread, \<^verbatim>\<open>src/rsched/src/lib.rs\<close> lines 457-520. The library calls the real
  pthread functions through pointers that \<open>rpt\<close> looks up once, so that its own calls do not come back
  through the preload shim. The dynamic linker is a parameter: \<open>dlopen name\<close> is the handle of a loaded
  library (0 if it is not loaded) and \<open>dlsym handle name\<close> the address of a symbol (0 if there is none).
\<close>

record RealPt =
  real_mutex_lock :: usize
  real_mutex_unlock :: usize
  real_cond_wait :: usize
  real_cond_signal :: usize
  real_create :: usize
  real_join :: usize
  real_barrier_init :: usize

record linker =
  dlopen :: "string \<Rightarrow> usize"
  dlsym :: "usize \<Rightarrow> string \<Rightarrow> usize"

definition sym_lookup :: "linker \<Rightarrow> usize \<Rightarrow> string \<Rightarrow> fault + usize" where
  "sym_lookup ld lib name =
     (let p = dlsym ld lib name
      in if p = 0 then Inl (Panic ''rsched: dlsym returned null'') else Inr p)"

text \<open>The structure expression, its fields in order: the first missing symbol panics.\<close>

fun lookup_all :: "linker \<Rightarrow> usize \<Rightarrow> string list \<Rightarrow> fault + usize list" where
  "lookup_all ld lib [] = Inr []"
| "lookup_all ld lib (name # names) =
     (case sym_lookup ld lib name of
        Inl e \<Rightarrow> Inl e
      | Inr p \<Rightarrow> (case lookup_all ld lib names of Inl e \<Rightarrow> Inl e | Inr ps \<Rightarrow> Inr (p # ps)))"

definition bound_names :: "string list" where
  "bound_names = [''pthread_mutex_lock'', ''pthread_mutex_unlock'', ''pthread_cond_wait'', ''pthread_cond_signal'',
     ''pthread_create'', ''pthread_join'', ''pthread_barrier_init'']"

fun RealPt_of :: "usize list \<Rightarrow> RealPt option" where
  "RealPt_of [lock, unlock, wait, signal, create, join, init] =
     Some \<lparr>real_mutex_lock = lock, real_mutex_unlock = unlock, real_cond_wait = wait, real_cond_signal = signal,
           real_create = create, real_join = join, real_barrier_init = init\<rparr>"
| "RealPt_of _ = None"

definition resolve_real_pt :: "linker \<Rightarrow> fault + RealPt" where
  "resolve_real_pt ld =
     (let lib0 = dlopen ld ''libpthread.so.0'';
          lib = (if lib0 = 0 then dlopen ld ''libc.so.6'' else lib0)
      in if lib = 0 then Inl (Panic ''rsched: cannot resolve libpthread/libc via dlopen'')
         else case lookup_all ld lib bound_names of
                Inl e \<Rightarrow> Inl e
              | Inr ps \<Rightarrow> (case RealPt_of ps of Some r \<Rightarrow> Inr r | None \<Rightarrow> Inl UnwrapNone))"

text \<open>\<open>REAL_PT.get_or_init\<close>: the cell keeps the first result; a panic leaves it empty.\<close>

definition rpt :: "linker \<Rightarrow> RealPt option \<Rightarrow> RealPt option \<times> (fault + RealPt)" where
  "rpt ld cell =
     (case cell of
        Some r \<Rightarrow> (cell, Inr r)
      | None \<Rightarrow> (case resolve_real_pt ld of Inl e \<Rightarrow> (None, Inl e) | Inr r \<Rightarrow> (Some r, Inr r)))"

section \<open>Properties\<close>

lemma lookup_all_spec:
  "lookup_all ld lib names =
     (if \<exists>n \<in> set names. dlsym ld lib n = 0 then Inl (Panic ''rsched: dlsym returned null'')
      else Inr (map (dlsym ld lib) names))"
  by (induction names) (auto simp: sym_lookup_def Let_def split: sum.splits)

text \<open>The bindings are complete or there are none: \<open>rpt\<close> returns exactly when one of the two
  libraries is loaded and has all seven symbols, every pointer is then that of its symbol in the same library
  and not null, and later calls return the same pointers whatever the linker says.\<close>

definition library :: "linker \<Rightarrow> usize" where
  "library ld = (if dlopen ld ''libpthread.so.0'' = 0 then dlopen ld ''libc.so.6'' else dlopen ld ''libpthread.so.0'')"

theorem rpt_binds_all_or_panics:
  "case rpt ld None of
     (cell, Inr r) \<Rightarrow> cell = Some r \<and> library ld \<noteq> 0
       \<and> [real_mutex_lock r, real_mutex_unlock r, real_cond_wait r, real_cond_signal r, real_create r, real_join r,
          real_barrier_init r] = map (dlsym ld (library ld)) bound_names
       \<and> 0 \<notin> dlsym ld (library ld) ` set bound_names \<and> rpt ld' cell = (cell, Inr r)
   | (cell, Inl e) \<Rightarrow> cell = None \<and> (library ld = 0 \<or> 0 \<in> dlsym ld (library ld) ` set bound_names)"
  by (auto simp: rpt_def resolve_real_pt_def library_def lookup_all_spec Let_def bound_names_def
      split: option.splits sum.splits if_splits)

end
