(* ===== verification/Rsched_Pass.thy ===== *)
theory Rsched_Pass
  imports Rsched_Api
begin

text \<open>
  The LLVM plugin, \<^verbatim>\<open>src/rsched/llvm-pass/src/lib.rs\<close>. It works on the in-memory form of a module,
  which is modelled by its data: a module is its list of functions, a function is named by its
  position in that list (LLVM's pointer, which a renaming does not change), a function without basic blocks is a
  declaration, and an instruction is its opcode, operands, type and atomic ordering. Names are those of functions; a
  global variable with one of the names the pass uses is outside the model.

  What the pass asks LLVM for and this data does not determine is a parameter: \<open>size_of\<close>, the constant size
  of a float, array, structure or vector type if LLVM can fold it; \<open>cast\<close>, the instructions
  \<open>build_pointer_cast\<close> inserts and the value it returns; \<open>is_call\<close>, the opcodes a
  \<open>CallSiteValue\<close> can be made from; \<open>called\<close>, the result of \<open>get_called_fn_value\<close>.
\<close>

section \<open>Modules\<close>

datatype BasicTypeEnum =
    IntType u32 | PointerType | FloatType nat | ArrayType nat | StructType nat | VectorType nat

datatype AnyTypeEnum = AnyBasic BasicTypeEnum | VoidType | FunctionType

datatype AtomicOrdering =
    NotAtomic | Unordered | Monotonic | Acquire | Release | AcquireRelease | SequentiallyConsistent

datatype InstructionOpcode =
    OpLoad | OpStore | OpAtomicRMW | OpAtomicCmpXchg | OpCall | OpReturn | OpOther nat

text \<open>Operands: a function of the module, a parameter of the function at hand, an integer constant with its
  width, any other value by its name, or the label of a basic block.\<close>

datatype ir_operand =
    FunctionOp nat
  | ParamOp nat BasicTypeEnum
  | ConstOp u32 u64
  | NamedOp string BasicTypeEnum
  | BlockOp string

text \<open>The ordering is \<open>None\<close> where \<open>get_atomic_ordering\<close> fails.\<close>

record inst =
  opcode :: InstructionOpcode
  operands :: "ir_operand list"
  itype :: AnyTypeEnum
  ordering :: "AtomicOrdering option"
  iname :: string

datatype Linkage = ExternalLinkage | OtherLinkage nat

record FnType =
  ret_type :: "BasicTypeEnum option"
  param_types :: "BasicTypeEnum list"
  var_args :: bool

record Func =
  fname :: string
  ftype :: FnType
  linkage :: Linkage
  blocks :: "inst list list"

type_synonym Module = "Func list"

definition get_function :: "Module \<Rightarrow> string \<Rightarrow> nat option" where
  "get_function m name =
     (let i = length (takeWhile (\<lambda>f. fname f \<noteq> name) m) in if i < length m then Some i else None)"

definition add_function :: "Module \<Rightarrow> string \<Rightarrow> FnType \<Rightarrow> Module \<times> nat" where
  "add_function m name ty =
     (m @ [\<lparr>fname = name, ftype = ty, linkage = ExternalLinkage, blocks = []\<rparr>], length m)"

definition get_or_add :: "Module \<Rightarrow> string \<Rightarrow> FnType \<Rightarrow> Module \<times> nat" where
  "get_or_add m name ty = (case get_function m name of Some f \<Rightarrow> (m, f) | None \<Rightarrow> add_function m name ty)"

section \<open>Which instructions are atomic accesses\<close>

text \<open>\<open>get_operand(n)?.left()?\<close>: a value, not a label.\<close>

definition value_operand :: "inst \<Rightarrow> nat \<Rightarrow> ir_operand option" where
  "value_operand i n =
     (if n < length (operands i) then (case operands i ! n of BlockOp _ \<Rightarrow> None | v \<Rightarrow> Some v) else None)"

fun type_of_value :: "ir_operand \<Rightarrow> BasicTypeEnum" where
  "type_of_value (FunctionOp _) = PointerType"
| "type_of_value (ParamOp _ t) = t"
| "type_of_value (ConstOp width _) = IntType width"
| "type_of_value (NamedOp _ t) = t"
| "type_of_value (BlockOp _) = PointerType"

definition atomic_pointer_operand :: "inst \<Rightarrow> nat \<Rightarrow> ir_operand option" where
  "atomic_pointer_operand i n =
     (case value_operand i n of
        None \<Rightarrow> None
      | Some v \<Rightarrow> (if type_of_value v = PointerType then Some v else None))"

definition bytes_for_bits :: "u32 \<Rightarrow> u64" where
  "bytes_for_bits bits = ucast (if bits mod 8 = 0 then bits div 8 else bits div 8 + 1)"

fun basic_type_size :: "(BasicTypeEnum \<Rightarrow> u64 option) \<Rightarrow> BasicTypeEnum \<Rightarrow> u64 option" where
  "basic_type_size size_of (IntType bits) = Some (bytes_for_bits bits)"
| "basic_type_size size_of PointerType = Some 8"
| "basic_type_size size_of (FloatType n) = size_of (FloatType n)"
| "basic_type_size size_of (ArrayType n) = size_of (ArrayType n)"
| "basic_type_size size_of (StructType n) = size_of (StructType n)"
| "basic_type_size size_of (VectorType n) = size_of (VectorType n)"

fun any_type_size :: "(BasicTypeEnum \<Rightarrow> u64 option) \<Rightarrow> AnyTypeEnum \<Rightarrow> u64 option" where
  "any_type_size size_of (AnyBasic (IntType bits)) = Some (bytes_for_bits bits)"
| "any_type_size size_of (AnyBasic PointerType) = Some 8"
| "any_type_size size_of (AnyBasic (FloatType n)) = size_of (FloatType n)"
| "any_type_size size_of (AnyBasic (ArrayType n)) = size_of (ArrayType n)"
| "any_type_size size_of (AnyBasic (StructType n)) = size_of (StructType n)"
| "any_type_size size_of (AnyBasic (VectorType n)) = size_of (VectorType n)"
| "any_type_size size_of VoidType = None"
| "any_type_size size_of FunctionType = None"

text \<open>The tuple of the code, with its \<open>?\<close> returns.\<close>

definition info3 :: "u32 \<Rightarrow> ir_operand option \<Rightarrow> u64 option \<Rightarrow> (ir_operand \<times> u64 \<times> u32) option" where
  "info3 access ptr sz =
     (case ptr of None \<Rightarrow> None
      | Some p \<Rightarrow> (case sz of None \<Rightarrow> None | Some n \<Rightarrow> Some (p, n, access)))"

definition operand_size :: "(BasicTypeEnum \<Rightarrow> u64 option) \<Rightarrow> inst \<Rightarrow> nat \<Rightarrow> u64 option" where
  "operand_size size_of i n =
     (case value_operand i n of None \<Rightarrow> None | Some v \<Rightarrow> basic_type_size size_of (type_of_value v))"

definition atomic_info ::
  "(BasicTypeEnum \<Rightarrow> u64 option) \<Rightarrow> inst \<Rightarrow> (ir_operand \<times> u64 \<times> u32) option" where
  "atomic_info size_of i =
     (case opcode i of
        OpLoad \<Rightarrow>
          (case ordering i of
             None \<Rightarrow> None
           | Some ord \<Rightarrow>
               if ord = NotAtomic then None
               else info3 0 (atomic_pointer_operand i 0) (any_type_size size_of (itype i)))
      | OpStore \<Rightarrow>
          (case ordering i of
             None \<Rightarrow> None
           | Some ord \<Rightarrow>
               if ord = NotAtomic then None
               else info3 1 (atomic_pointer_operand i 1) (operand_size size_of i 0))
      | OpAtomicRMW \<Rightarrow> info3 2 (atomic_pointer_operand i 0) (operand_size size_of i 1)
      | OpAtomicCmpXchg \<Rightarrow> info3 2 (atomic_pointer_operand i 0) (operand_size size_of i 1)
      | _ \<Rightarrow> None)"

section \<open>Instrumenting atomics\<close>

definition hook_ty :: FnType where
  "hook_ty = \<lparr>ret_type = None, param_types = [PointerType, IntType 64, IntType 32], var_args = False\<rparr>"

definition call_inst :: "AnyTypeEnum \<Rightarrow> nat \<Rightarrow> ir_operand list \<Rightarrow> string \<Rightarrow> inst" where
  "call_inst ty f args name =
     \<lparr>opcode = OpCall, operands = args @ [FunctionOp f], itype = ty, ordering = None, iname = name\<rparr>"

definition hook_call :: "nat \<Rightarrow> ir_operand \<Rightarrow> u64 \<Rightarrow> u32 \<Rightarrow> inst" where
  "hook_call hook ptr sz access = call_inst VoidType hook [ptr, ConstOp 64 sz, ConstOp 32 (ucast access)] ''''"

text \<open>The loop over the instructions of a block; the flag says whether a hook was inserted.\<close>

fun instrument_block ::
  "(BasicTypeEnum \<Rightarrow> u64 option) \<Rightarrow> (ir_operand \<Rightarrow> inst list \<times> ir_operand) \<Rightarrow> nat \<Rightarrow> inst list \<Rightarrow> inst list \<times> bool" where
  "instrument_block size_of cast hook [] = ([], False)"
| "instrument_block size_of cast hook (i # rest) =
     (let (rest', changed) = instrument_block size_of cast hook rest
      in case atomic_info size_of i of
           None \<Rightarrow> (i # rest', changed)
         | Some (ptr, sz, access) \<Rightarrow>
             (let (casts, p) = cast ptr in (casts @ hook_call hook p sz access # i # rest', True)))"

definition instrument_function ::
  "(BasicTypeEnum \<Rightarrow> u64 option) \<Rightarrow> (ir_operand \<Rightarrow> inst list \<times> ir_operand) \<Rightarrow> nat \<Rightarrow> Func \<Rightarrow> Func \<times> bool" where
  "instrument_function size_of cast hook f =
     (let bs = map (instrument_block size_of cast hook) (blocks f)
      in (f\<lparr>blocks := map fst bs\<rparr>, list_ex snd bs))"

definition instrument_atomics ::
  "(BasicTypeEnum \<Rightarrow> u64 option) \<Rightarrow> (ir_operand \<Rightarrow> inst list \<times> ir_operand) \<Rightarrow> Module \<Rightarrow> Module \<times> bool" where
  "instrument_atomics size_of cast m =
     (let (m1, hook) = get_or_add m ''rsched_atomic_instrument'' hook_ty;
          fs = map (instrument_function size_of cast hook) m1
      in (map fst fs, list_ex snd fs))"

section \<open>Wrapping the fuzzer entry point\<close>

definition fuzzer_ty :: FnType where
  "fuzzer_ty = \<lparr>ret_type = Some (IntType 32), param_types = [PointerType, IntType 64], var_args = False\<rparr>"

definition helper_ty :: FnType where
  "helper_ty = \<lparr>ret_type = Some (IntType 32), param_types = [PointerType, IntType 64, PointerType], var_args = False\<rparr>"

definition entry_name :: string where "entry_name = ''LLVMFuzzerTestOneInput''"
definition wrapper_name :: string where "wrapper_name = ''__rsched_original_LLVMFuzzerTestOneInput''"
definition helper_name :: string where "helper_name = ''rsched_fuzzer_test_one_input''"

definition return_inst :: "ir_operand \<Rightarrow> inst" where
  "return_inst v = \<lparr>opcode = OpReturn, operands = [v], itype = VoidType, ordering = None, iname = ''''\<rparr>"

definition wrapper_block :: "nat \<Rightarrow> nat \<Rightarrow> BasicTypeEnum \<Rightarrow> inst list" where
  "wrapper_block helper original ty =
     [call_inst (AnyBasic ty) helper [ParamOp 0 PointerType, ParamOp 1 (IntType 64), FunctionOp original]
        ''rsched.fuzzer.result'',
      return_inst (NamedOp ''rsched.fuzzer.result'' ty)]"

definition wrap_fuzzer_entrypoint :: "Module \<Rightarrow> fault + Module \<times> bool" where
  "wrap_fuzzer_entrypoint m =
     (case get_function m entry_name of
        None \<Rightarrow> Inr (m, False)
      | Some original \<Rightarrow>
          if get_function m wrapper_name \<noteq> None then Inr (m, False)
          else
            (let m1 = m[original := (m ! original)\<lparr>fname := wrapper_name\<rparr>];
                 (m2, helper) = get_or_add m1 helper_name helper_ty;
                 (m3, wrapper) = add_function m2 entry_name fuzzer_ty;
                 w = (m3 ! wrapper)\<lparr>linkage := linkage (m3 ! original)\<rparr>
             in case ret_type (ftype (m3 ! helper)) of
                  None \<Rightarrow> Inl (Expect ''rsched fuzzer helper returns int'')
                | Some (IntType width) \<Rightarrow>
                    Inr (m3[wrapper := w\<lparr>blocks := [wrapper_block helper original (IntType width)]\<rparr>], True)
                | Some _ \<Rightarrow> Inl (Panic ''into_int_value'')))"

section \<open>Rewriting pthread calls\<close>

definition PTHREAD_REWRITES :: "(string \<times> string) list" where
  "PTHREAD_REWRITES =
     [(''pthread_create'', ''rsched_pthread_create''),
      (''pthread_join'', ''rsched_pthread_join''),
      (''pthread_exit'', ''rsched_pthread_exit''),
      (''pthread_mutex_lock'', ''rsched_pthread_mutex_lock''),
      (''pthread_mutex_trylock'', ''rsched_pthread_mutex_trylock''),
      (''pthread_mutex_unlock'', ''rsched_pthread_mutex_unlock''),
      (''pthread_cond_wait'', ''rsched_pthread_cond_wait''),
      (''pthread_cond_signal'', ''rsched_pthread_cond_signal''),
      (''pthread_cond_broadcast'', ''rsched_pthread_cond_broadcast''),
      (''pthread_barrier_init'', ''rsched_pthread_barrier_init''),
      (''pthread_barrier_wait'', ''rsched_pthread_barrier_wait''),
      (''sched_yield'', ''rsched_sched_yield'')]"

text \<open>Loops that collect a changed flag and stop at a panic.\<close>

fun map_flag :: "('a \<Rightarrow> fault + 'a \<times> bool) \<Rightarrow> 'a list \<Rightarrow> fault + 'a list \<times> bool" where
  "map_flag f [] = Inr ([], False)"
| "map_flag f (x # xs) =
     (case f x of
        Inl e \<Rightarrow> Inl e
      | Inr (y, c) \<Rightarrow> (case map_flag f xs of Inl e \<Rightarrow> Inl e | Inr (ys, d) \<Rightarrow> Inr (y # ys, c \<or> d)))"

definition rewrite_inst ::
  "(InstructionOpcode \<Rightarrow> bool) \<Rightarrow> (inst \<Rightarrow> fault + ir_operand) \<Rightarrow> nat \<Rightarrow> nat \<Rightarrow> inst \<Rightarrow> fault + inst \<times> bool" where
  "rewrite_inst is_call called old new i =
     (if \<not> is_call (opcode i) then Inr (i, False)
      else case called i of
             Inl e \<Rightarrow> Inl e
           | Inr v \<Rightarrow>
               if v \<noteq> FunctionOp old then Inr (i, False)
               else Inr (i\<lparr>operands := (operands i)[length (operands i) - 1 := FunctionOp new]\<rparr>, True))"

definition rewrite_function ::
  "(InstructionOpcode \<Rightarrow> bool) \<Rightarrow> (inst \<Rightarrow> fault + ir_operand) \<Rightarrow> nat \<Rightarrow> nat \<Rightarrow> Func \<Rightarrow> fault + Func \<times> bool" where
  "rewrite_function is_call called old new f =
     (case map_flag (map_flag (rewrite_inst is_call called old new)) (blocks f) of
        Inl e \<Rightarrow> Inl e
      | Inr (bs, c) \<Rightarrow> Inr (f\<lparr>blocks := bs\<rparr>, c))"

definition rewrite_function_uses ::
  "(InstructionOpcode \<Rightarrow> bool) \<Rightarrow> (inst \<Rightarrow> fault + ir_operand) \<Rightarrow> nat \<Rightarrow> nat \<Rightarrow> Module \<Rightarrow> fault + Module \<times> bool" where
  "rewrite_function_uses is_call called old new m = map_flag (rewrite_function is_call called old new) m"

definition rewrite_one ::
  "(InstructionOpcode \<Rightarrow> bool) \<Rightarrow> (inst \<Rightarrow> fault + ir_operand) \<Rightarrow> string \<times> string \<Rightarrow> Module \<Rightarrow> fault + Module \<times> bool" where
  "rewrite_one is_call called ft m =
     (case get_function m (fst ft) of
        None \<Rightarrow> Inr (m, False)
      | Some old \<Rightarrow>
          (let (m1, new) = get_or_add m (snd ft) (ftype (m ! old))
           in rewrite_function_uses is_call called old new m1))"

fun rewrite_all ::
  "(InstructionOpcode \<Rightarrow> bool) \<Rightarrow> (inst \<Rightarrow> fault + ir_operand) \<Rightarrow> (string \<times> string) list \<Rightarrow> Module \<Rightarrow> fault + Module \<times> bool" where
  "rewrite_all is_call called [] m = Inr (m, False)"
| "rewrite_all is_call called (ft # fts) m =
     (case rewrite_one is_call called ft m of
        Inl e \<Rightarrow> Inl e
      | Inr (m1, c) \<Rightarrow>
          (case rewrite_all is_call called fts m1 of Inl e \<Rightarrow> Inl e | Inr (m2, d) \<Rightarrow> Inr (m2, c \<or> d)))"

definition rewrite_pthread_calls ::
  "(InstructionOpcode \<Rightarrow> bool) \<Rightarrow> (inst \<Rightarrow> fault + ir_operand) \<Rightarrow> Module \<Rightarrow> fault + Module \<times> bool" where
  "rewrite_pthread_calls is_call called m = rewrite_all is_call called PTHREAD_REWRITES m"

section \<open>The pass\<close>

record RschedAtomicsPass =
  direct_pthread :: bool

definition parse_pass_name :: "string \<Rightarrow> RschedAtomicsPass option" where
  "parse_pass_name name =
     (if name = ''rsched-atomics'' then Some \<lparr>direct_pthread = False\<rparr>
      else if name = ''rsched-atomics<direct-pthread>'' then Some \<lparr>direct_pthread = True\<rparr>
      else None)"

datatype PipelineParsing = NotParsed | Parsed

text \<open>The callback that \<open>plugin_registrar\<close> installs, on the passes of the manager.\<close>

definition plugin_registrar :: "string \<Rightarrow> RschedAtomicsPass list \<Rightarrow> PipelineParsing \<times> RschedAtomicsPass list" where
  "plugin_registrar name manager =
     (case parse_pass_name name of
        None \<Rightarrow> (NotParsed, manager)
      | Some pass \<Rightarrow> (Parsed, manager @ [pass]))"

datatype PreservedAnalyses = PreservedNone | PreservedAll

record llvm =
  const_size :: "BasicTypeEnum \<Rightarrow> u64 option"
  pointer_cast :: "ir_operand \<Rightarrow> inst list \<times> ir_operand"
  call_site :: "InstructionOpcode \<Rightarrow> bool"
  called_fn_value :: "inst \<Rightarrow> fault + ir_operand"

definition run_pass ::
  "llvm \<Rightarrow> RschedAtomicsPass \<Rightarrow> Module \<Rightarrow> fault + Module \<times> PreservedAnalyses" where
  "run_pass lib self m =
     (case wrap_fuzzer_entrypoint m of
        Inl e \<Rightarrow> Inl e
      | Inr (m1, c1) \<Rightarrow>
          (let (m2, c2) = instrument_atomics (const_size lib) (pointer_cast lib) m1
           in case (if direct_pthread self
                    then rewrite_pthread_calls (call_site lib) (called_fn_value lib) m2
                    else Inr (m2, False)) of
                Inl e \<Rightarrow> Inl e
              | Inr (m3, c3) \<Rightarrow> Inr (m3, if c1 \<or> c2 \<or> c3 then PreservedNone else PreservedAll)))"

section \<open>Lemmas: functions of a module\<close>

lemma get_function_Some:
  assumes "get_function m n = Some f"
  shows "f < length m" and "fname (m ! f) = n"
  using assms nth_length_takeWhile [of "\<lambda>f. fname f \<noteq> n" m]
  by (auto simp: get_function_def Let_def split: if_splits)

lemma get_function_None: "get_function m n = None \<longleftrightarrow> n \<notin> fname ` set m"
proof -
  have "length (takeWhile (\<lambda>f. fname f \<noteq> n) m) < length m \<longleftrightarrow> takeWhile (\<lambda>f. fname f \<noteq> n) m \<noteq> m"
    by (metis length_takeWhile_le less_le takeWhile_eq_take take_all_iff)
  then show ?thesis by (auto simp: get_function_def Let_def takeWhile_eq_all_conv)
qed

lemma get_function_index:
  assumes "distinct (map fname m)" and "j < length m"
  shows "get_function m (fname (m ! j)) = Some j"
proof (cases "get_function m (fname (m ! j))")
  case None
  then show ?thesis using assms(2) by (auto simp: get_function_None)
next
  case (Some f)
  from get_function_Some [OF this] assms have "f = j" by (metis length_map nth_eq_iff_index_eq nth_map)
  then show ?thesis using Some by simp
qed

lemma get_or_addE:
  assumes "get_or_add m n ty = (m1, f)"
  obtains ds where "m1 = m @ ds" and "f < length m1" and "fname (m1 ! f) = n"
    and "\<forall>d \<in> set ds. blocks d = [] \<and> fname d = n" and "distinct (map fname m) \<longrightarrow> distinct (map fname m1)"
proof (cases "get_function m n")
  case None
  then have "n \<notin> fname ` set m" by (simp add: get_function_None)
  with None assms show ?thesis by (intro that) (auto simp: get_or_add_def add_function_def)
next
  case (Some g)
  with assms have "m1 = m @ []" "f = g" by (auto simp: get_or_add_def)
  then show ?thesis using get_function_Some [OF Some] by (intro that) auto
qed

end
