(* ===== verification/Rsched_Instrument.thy ===== *)
theory Rsched_Instrument
  imports Rsched_Pass "HOL-Library.Sublist"
begin

text \<open>
  What the LLVM pass does to atomic instructions and to the fuzzer entry point: every atomic access is
  announced by a hook with its pointer, size and kind, nothing else is changed, and the entry point is wrapped once.
\<close>

section \<open>Instrumented blocks\<close>

text \<open>Every atomic access directly follows the call of the hook that announces it.\<close>

fun hooked ::
  "(BasicTypeEnum \<Rightarrow> u64 option) \<Rightarrow> (ir_operand \<Rightarrow> inst list \<times> ir_operand) \<Rightarrow> nat \<Rightarrow> inst option \<Rightarrow> inst list \<Rightarrow> bool" where
  "hooked so cast hook prev [] = True"
| "hooked so cast hook prev (i # rest) =
     ((case atomic_info so i of
         None \<Rightarrow> True
       | Some (ptr, n, access) \<Rightarrow> prev = Some (hook_call hook (snd (cast ptr)) n access))
      \<and> hooked so cast hook (Some i) rest)"

definition is_atomic :: "(BasicTypeEnum \<Rightarrow> u64 option) \<Rightarrow> inst \<Rightarrow> bool" where
  "is_atomic so i \<longleftrightarrow> atomic_info so i \<noteq> None"

definition is_call_inst :: "inst \<Rightarrow> bool" where
  "is_call_inst i \<longleftrightarrow> opcode i = OpCall"

text \<open>What LLVM promises of a pointer cast: the instructions it inserts are neither atomic accesses nor calls.\<close>

definition plain_cast :: "(BasicTypeEnum \<Rightarrow> u64 option) \<Rightarrow> (ir_operand \<Rightarrow> inst list \<times> ir_operand) \<Rightarrow> bool" where
  "plain_cast so cast \<longleftrightarrow> (\<forall>p. \<forall>i \<in> set (fst (cast p)). \<not> is_atomic so i \<and> \<not> is_call_inst i)"

text \<open>A block and its instrumented form: the old instructions in their order, one call more per atomic
  access, no new atomic access, and every access announced.\<close>

definition instrumented ::
  "(BasicTypeEnum \<Rightarrow> u64 option) \<Rightarrow> (ir_operand \<Rightarrow> inst list \<times> ir_operand) \<Rightarrow> nat \<Rightarrow> inst list \<Rightarrow> inst list \<Rightarrow> bool" where
  "instrumented so cast hook b b' \<longleftrightarrow>
     hooked so cast hook None b' \<and> subseq b b' \<and> filter (is_atomic so) b' = filter (is_atomic so) b
     \<and> length (filter is_call_inst b') = length (filter is_call_inst b) + length (filter (is_atomic so) b)"

lemma hooked_plain:
  assumes "\<forall>i \<in> set xs. \<not> is_atomic so i"
  shows "hooked so cast hook prev (xs @ ys) = hooked so cast hook (if xs = [] then prev else Some (last xs)) ys"
  using assms by (induction xs arbitrary: prev) (simp_all add: is_atomic_def del: not_None_eq)

lemma hooked_mono: "hooked so cast hook None xs \<Longrightarrow> hooked so cast hook prev xs"
  by (cases xs) (auto split: option.splits)

lemma hook_call_plain [simp]: "atomic_info so (hook_call hook p n a) = None" "is_call_inst (hook_call hook p n a)"
  by (simp_all add: atomic_info_def hook_call_def call_inst_def is_call_inst_def)

lemma hook_call_not_atomic [simp]: "\<not> is_atomic so (hook_call hook p n a)"
  by (simp add: is_atomic_def)

lemma atomic_not_call: "is_atomic so i \<Longrightarrow> \<not> is_call_inst i"
  by (auto simp: is_atomic_def is_call_inst_def atomic_info_def)

lemma filter_none: "\<forall>x \<in> set xs. \<not> P x \<Longrightarrow> filter P xs = []"
  by simp

lemma instrument_block_ok:
  assumes "plain_cast so cast"
  shows "instrumented so cast hook b (fst (instrument_block so cast hook b))
    \<and> (snd (instrument_block so cast hook b) \<longleftrightarrow> (\<exists>i \<in> set b. is_atomic so i))"
proof (induction b)
  case Nil
  then show ?case by (simp add: instrumented_def)
next
  case (Cons i b)
  obtain b' c where b': "instrument_block so cast hook b = (b', c)" by fastforce
  with Cons have IH: "instrumented so cast hook b b'" "c \<longleftrightarrow> (\<exists>i \<in> set b. is_atomic so i)" by simp_all
  show ?case
  proof (cases "atomic_info so i")
    case None
    then have "\<not> is_atomic so i" by (simp add: is_atomic_def)
    with None b' IH hooked_mono [of so cast hook b'] show ?thesis by (simp add: instrumented_def)
  next
    case (Some x)
    then obtain ptr n a where x: "atomic_info so i = Some (ptr, n, a)" by (cases x) auto
    obtain casts p where cast: "cast ptr = (casts, p)" by fastforce
    with assms have plain: "\<forall>i \<in> set casts. \<not> is_atomic so i" "\<forall>i \<in> set casts. \<not> is_call_inst i"
      unfolding plain_cast_def by (metis fst_conv)+
    have at: "is_atomic so i" "\<not> is_call_inst i" using x atomic_not_call [of so i] by (auto simp: is_atomic_def)
    have "hooked so cast hook None (casts @ hook_call hook p n a # i # b')"
      using x cast IH hooked_mono [of so cast hook b'] hooked_plain [OF plain(1)] by (simp add: instrumented_def)
    moreover have "subseq (i # b) (casts @ hook_call hook p n a # i # b')"
      using IH by (intro list_emb_append2 [OF list_emb_Cons]) (simp add: instrumented_def)
    ultimately show ?thesis
      using x cast b' IH at filter_none [OF plain(1)] filter_none [OF plain(2)]
      by (simp add: instrumented_def)
  qed
qed



text \<open>A module with one atomic read-modify-write, and LLVM on a target where a cast inserts nothing.\<close>

definition demo_rmw :: inst where
  "demo_rmw = \<lparr>opcode = OpAtomicRMW, operands = [NamedOp ''x'' PointerType, ConstOp 32 1],
     itype = AnyBasic (IntType 32), ordering = None, iname = ''old''\<rparr>"

definition demo_module :: Module where
  "demo_module = [\<lparr>fname = ''f'', ftype = hook_ty, linkage = ExternalLinkage, blocks = [[demo_rmw]]\<rparr>]"

lemma demo_cast: "plain_cast so (\<lambda>p. ([], p))"
  by (simp add: plain_cast_def)


section \<open>What a hook announces\<close>

lemma bytes_for_bits_ceil: "unat (bytes_for_bits bits) = (unat bits + 7) div 8"
proof -
  have lt: "unat bits < 2 ^ 32" using unat_bound [of bits] by simp
  have d: "unat (bits div 8) = unat bits div 8" "bits mod 8 = 0 \<longleftrightarrow> unat bits mod 8 = 0"
    by (simp_all add: unat_div_distrib unat_mod_distrib unat_eq_zero [symmetric])
  have s: "unat (bits div 8 + 1) = unat bits div 8 + 1"
    using lt d(1) by (simp add: unat_word_ariths)
  have "unat (if bits mod 8 = 0 then bits div 8 else bits div 8 + 1) = (unat bits + 7) div 8"
    using d s by (cases "unat bits mod 8 = 0") (simp_all, presburger+)
  then show ?thesis by (simp add: bytes_for_bits_def unat_widen64)
qed

fun is_value :: "ir_operand \<Rightarrow> bool" where
  "is_value (BlockOp _) = False"
| "is_value _ = True"

text \<open>The four kinds of atomic instruction, with the operands LLVM gives them: the pointer accessed, the
  type of the value in memory and what the instruction does to it.\<close>

inductive atomic_access :: "inst \<Rightarrow> ir_operand \<Rightarrow> BasicTypeEnum \<Rightarrow> AccessKind \<Rightarrow> bool" where
  load: "opcode i = OpLoad \<Longrightarrow> ordering i = Some ord \<Longrightarrow> ord \<noteq> NotAtomic \<Longrightarrow> operands i = [p] \<Longrightarrow>
    itype i = AnyBasic t \<Longrightarrow> atomic_access i p t Read"
| store: "opcode i = OpStore \<Longrightarrow> ordering i = Some ord \<Longrightarrow> ord \<noteq> NotAtomic \<Longrightarrow> operands i = [v, p] \<Longrightarrow>
    is_value v \<Longrightarrow> atomic_access i p (type_of_value v) Write"
| rmw: "opcode i = OpAtomicRMW \<Longrightarrow> operands i = [p, v] \<Longrightarrow> is_value v \<Longrightarrow>
    atomic_access i p (type_of_value v) ReadWrite"
| cmpxchg: "opcode i = OpAtomicCmpXchg \<Longrightarrow> operands i = [p, v, v'] \<Longrightarrow> is_value v \<Longrightarrow>
    atomic_access i p (type_of_value v) ReadWrite"

lemma value_operand_value: "n < length (operands i) \<Longrightarrow> is_value (operands i ! n) \<Longrightarrow> value_operand i n = Some (operands i ! n)"
  by (cases "operands i ! n") (simp_all add: value_operand_def)

lemma any_basic_size: "any_type_size so (AnyBasic t) = basic_type_size so t"
  by (cases t) simp_all

text \<open>C27: the hook announces what the instruction does. For each kind of atomic instruction the pass passes
  the accessed pointer, the size of the value in memory and a code the runtime decodes to a read, a
  write or both; the size of an integer is its width rounded up to bytes, a pointer has eight. Only
  an access of a type whose size LLVM does not fold to a constant is left out.\<close>

theorem hook_announces_access:
  assumes "atomic_access i p t access" and "is_value p" and "type_of_value p = PointerType"
  shows "case basic_type_size so t of
      None \<Rightarrow> atomic_info so i = None \<and> (\<forall>bits. t \<noteq> IntType bits) \<and> t \<noteq> PointerType
    | Some n \<Rightarrow> (\<exists>code. atomic_info so i = Some (p, n, code) \<and> access_of_code code = access)
        \<and> (\<forall>bits. t = IntType bits \<longrightarrow> unat n = (unat bits + 7) div 8) \<and> (t = PointerType \<longrightarrow> n = 8)"
proof -
  have "atomic_info so i = map_option (\<lambda>n. (p, n, case access of Read \<Rightarrow> 0 | Write \<Rightarrow> 1 | ReadWrite \<Rightarrow> 2)) (basic_type_size so t)"
    using assms
    by (cases rule: atomic_access.cases)
      (simp_all add: atomic_info_def info3_def atomic_pointer_operand_def operand_size_def value_operand_value
        any_basic_size split: option.splits)
  moreover have "access_of_code (case access of Read \<Rightarrow> 0 | Write \<Rightarrow> 1 | ReadWrite \<Rightarrow> 2) = access"
    by (cases access) (simp_all add: access_of_code_def)
  ultimately show ?thesis by (auto simp: bytes_for_bits_ceil split: option.splits)
qed

theorem hook_announces_access_witness:
  "\<exists>code. atomic_info (\<lambda>_. None) demo_rmw = Some (NamedOp ''x'' PointerType, 4, code) \<and> access_of_code code = ReadWrite"
proof -
  have a: "atomic_access demo_rmw (NamedOp ''x'' PointerType) (type_of_value (ConstOp 32 1)) ReadWrite"
    by (rule atomic_access.rmw) (simp_all add: demo_rmw_def)
  have "bytes_for_bits 32 = 4" by (simp add: bytes_for_bits_def)
  with hook_announces_access [OF a, of "\<lambda>_. None"] show ?thesis by simp
qed

section \<open>The fuzzer entry point\<close>

lemma get_or_add_type:
  assumes "get_or_add m n ty = (m1, f)" and "\<forall>g \<in> set m. fname g = n \<longrightarrow> ftype g = ty"
  shows "ftype (m1 ! f) = ty"
proof (cases "get_function m n")
  case None
  then show ?thesis using assms(1) by (auto simp: get_or_add_def add_function_def)
next
  case (Some g)
  from get_function_Some [OF this] Some assms show ?thesis by (auto simp: get_or_add_def)
qed

lemma get_function_snoc:
  assumes "distinct (map fname (m @ [f]))"
  shows "get_function (m @ [f]) (fname f) = Some (length m)"
    and "get_function m n = Some j \<Longrightarrow> get_function (m @ [f]) n = Some j"
  using get_function_index [OF assms, of "length m"] get_function_index [OF assms, of j] get_function_Some [of m n j]
  by (auto simp: nth_append)

lemma wrapper_names:
  "wrapper_name \<noteq> entry_name" "helper_name \<noteq> entry_name" "helper_name \<noteq> wrapper_name"
  by (simp_all add: wrapper_name_def entry_name_def helper_name_def)

text \<open>The module after the original has been renamed.\<close>

lemma renamed_original:
  assumes "distinct (map fname m)" and "get_function m entry_name = Some original" and "wrapper_name \<notin> fname ` set m"
    and "m1 = m[original := (m ! original)\<lparr>fname := wrapper_name\<rparr>]"
  shows "distinct (map fname m1)" and "entry_name \<notin> fname ` set m1" and "wrapper_name \<in> fname ` set m1"
proof -
  note orig = get_function_Some [OF assms(2)]
  have "map fname m1 = (map fname m)[original := wrapper_name]" by (simp add: assms(4) map_update)
  then show "distinct (map fname m1)" using assms(1,3) by (simp add: distinct_list_update)
  show "wrapper_name \<in> fname ` set m1"
    using orig(1) set_update_memI [OF orig(1), of "(m ! original)\<lparr>fname := wrapper_name\<rparr>"] by (force simp: assms(4))
  show "entry_name \<notin> fname ` set m1"
  proof
    assume "entry_name \<in> fname ` set m1"
    then obtain j where "j < length m" "fname (m1 ! j) = entry_name" by (auto simp: in_set_conv_nth assms(4))
    then show False using wrapper_names(1) get_function_index [OF assms(1), of j] assms(2)
      by (cases "j = original") (auto simp: assms(4))
  qed
qed

text \<open>C29: the fuzzer entry point is wrapped once. The original keeps its body, its type and its callers
  under the new name; the exported name belongs to a new function with the same linkage whose body
  passes the input and the original to the runtime helper and returns its result; no other function
  changes, and a second run of the pass leaves the module alone.\<close>

theorem fuzzer_entry_wrapped:
  assumes "distinct (map fname m)" and "get_function m entry_name = Some original"
    and "wrapper_name \<notin> fname ` set m" and "\<forall>f \<in> set m. fname f = helper_name \<longrightarrow> ftype f = helper_ty"
  shows "\<exists>m' w helper. wrap_fuzzer_entrypoint m = Inr (m', True)
    \<and> m' ! original = (m ! original)\<lparr>fname := wrapper_name\<rparr> \<and> (\<forall>j < length m. j \<noteq> original \<longrightarrow> m' ! j = m ! j)
    \<and> length m \<le> w \<and> get_function m' entry_name = Some w \<and> get_function m' helper_name = Some helper
    \<and> m' ! w = \<lparr>fname = entry_name, ftype = fuzzer_ty, linkage = linkage (m ! original),
        blocks = [wrapper_block helper original (IntType 32)]\<rparr>
    \<and> distinct (map fname m') \<and> wrap_fuzzer_entrypoint m' = Inr (m', False)"
proof -
  note orig = get_function_Some [OF assms(2)]
  define m1 where "m1 = m[original := (m ! original)\<lparr>fname := wrapper_name\<rparr>]"
  note m1 = renamed_original [OF assms(1-3) m1_def]
  obtain m2 helper where m2: "get_or_add m1 helper_name helper_ty = (m2, helper)" by fastforce
  from get_or_addE [OF m2] m1(1) obtain ds where ds: "m2 = m1 @ ds" "helper < length m2" "fname (m2 ! helper) = helper_name"
      "\<forall>d \<in> set ds. fname d = helper_name" "distinct (map fname m2)" by metis
  have "\<forall>g \<in> set m1. fname g = helper_name \<longrightarrow> ftype g = helper_ty"
    using assms(4) wrapper_names(3) set_update_subset_insert [of m original] by (fastforce simp: m1_def)
  with m2 have ty: "ftype (m2 ! helper) = helper_ty" by (rule get_or_add_type)
  define f where "f = \<lparr>fname = entry_name, ftype = fuzzer_ty, linkage = linkage (m ! original),
    blocks = [wrapper_block helper original (IntType 32)]\<rparr>"
  have len: "original < length m2" "length m \<le> length m2" using orig(1) by (simp_all add: ds(1) m1_def)
  have old: "m2 ! j = m1 ! j" if "j < length m" for j using that by (simp add: ds(1) m1_def nth_append)
  have run: "wrap_fuzzer_entrypoint m = Inr (m2 @ [f], True)"
    using assms(2,3) m2 ty len(1) orig(1) old [OF orig(1)] ds(2)
    by (simp add: wrap_fuzzer_entrypoint_def get_function_None m1_def [symmetric] add_function_def nth_append
        helper_ty_def f_def) (simp add: m1_def)
  have d: "distinct (map fname (m2 @ [f]))" using ds(1,4,5) m1(2) wrapper_names(2) by (auto simp: f_def)
  have e: "get_function (m2 @ [f]) entry_name = Some (length m2)"
    using get_function_snoc(1) [OF d] by (simp add: f_def)
  have h: "get_function (m2 @ [f]) helper_name = Some helper"
    using get_function_snoc(2) [OF d] get_function_index [OF ds(5,2)] ds(3) by simp
  have "get_function (m2 @ [f]) wrapper_name \<noteq> None" using m1(3) ds(1) by (auto simp: get_function_None)
  with e have again: "wrap_fuzzer_entrypoint (m2 @ [f]) = Inr (m2 @ [f], False)"
    by (simp add: wrap_fuzzer_entrypoint_def)
  have "(m2 @ [f]) ! j = m1 ! j" if "j < length m" for j using old [OF that] len(2) that by (simp add: nth_append)
  then have keep: "(m2 @ [f]) ! original = (m ! original)\<lparr>fname := wrapper_name\<rparr>"
      "\<forall>j < length m. j \<noteq> original \<longrightarrow> (m2 @ [f]) ! j = m ! j" using orig(1) by (simp_all add: m1_def)
  have w: "(m2 @ [f]) ! length m2 = \<lparr>fname = entry_name, ftype = fuzzer_ty, linkage = linkage (m ! original),
      blocks = [wrapper_block helper original (IntType 32)]\<rparr>" by (simp add: f_def)
  show ?thesis using run keep len(2) e h w d again by blast
qed

text \<open>A module that defines a fuzz target.\<close>

definition demo_target :: Module where
  "demo_target =
     [\<lparr>fname = entry_name, ftype = fuzzer_ty, linkage = ExternalLinkage, blocks = [[return_inst (ConstOp 32 0)]]\<rparr>]"

lemma demo_target_ok:
  "distinct (map fname demo_target)" "get_function demo_target entry_name = Some 0"
  "wrapper_name \<notin> fname ` set demo_target" "\<forall>f \<in> set demo_target. fname f = helper_name \<longrightarrow> ftype f = helper_ty"
  using wrapper_names by (auto simp: demo_target_def get_function_def)

theorem fuzzer_entry_wrapped_witness:
  "\<exists>m' w. wrap_fuzzer_entrypoint demo_target = Inr (m', True) \<and> get_function m' entry_name = Some w \<and> 0 < w
     \<and> blocks (m' ! 0) = [[return_inst (ConstOp 32 0)]] \<and> wrap_fuzzer_entrypoint m' = Inr (m', False)"
proof -
  from fuzzer_entry_wrapped [OF demo_target_ok] obtain m' w where
      "wrap_fuzzer_entrypoint demo_target = Inr (m', True)" "m' ! 0 = (demo_target ! 0)\<lparr>fname := wrapper_name\<rparr>"
      "length demo_target \<le> w" "get_function m' entry_name = Some w" "wrap_fuzzer_entrypoint m' = Inr (m', False)"
    by blast
  then show ?thesis by (auto simp: demo_target_def)
qed

text \<open>A driver that declares the fuzz target of another file and calls it. The pass does not ask whether
  the entry point has a body: the driver's module gets a second definition of the exported name,
  which calls an original that no module defines.\<close>

definition demo_driver :: Module where
  "demo_driver =
     [\<lparr>fname = ''main'', ftype = hook_ty, linkage = ExternalLinkage, blocks = [[call_inst VoidType 1 [] '''']]\<rparr>,
      \<lparr>fname = entry_name, ftype = fuzzer_ty, linkage = ExternalLinkage, blocks = []\<rparr>]"

theorem declared_entry_is_defined:
  "\<exists>m' w g. wrap_fuzzer_entrypoint demo_driver = Inr (m', True)
    \<and> get_function m' entry_name = Some w \<and> blocks (m' ! w) \<noteq> []
    \<and> get_function m' wrapper_name = Some g \<and> blocks (m' ! g) = []"
  by (simp add: demo_driver_def wrap_fuzzer_entrypoint_def get_or_add_def add_function_def get_function_def
      entry_name_def wrapper_name_def helper_name_def helper_ty_def)

end
