(* ===== verification/Rsched_Rename.thy ===== *)
theory Rsched_Rename
  imports Rsched_Instrument
begin

text \<open>
  What the LLVM pass does to pthread calls: the table of replacements, applied one entry after the other, is one simultaneous
  renaming of the functions called. Also what the result of the whole pass tells LLVM.
\<close>

section \<open>Loops with a flag\<close>

lemma map_flag_rel:
  assumes "map_flag f xs = Inr (ys, c)" and "\<And>x y d. x \<in> set xs \<Longrightarrow> f x = Inr (y, d) \<Longrightarrow> R x y"
  shows "list_all2 R xs ys"
  using assms
proof (induction xs arbitrary: ys c)
  case (Cons x xs)
  from Cons.prems(1) obtain y d zs d' where "f x = Inr (y, d)" "map_flag f xs = Inr (zs, d')" "ys = y # zs"
    by (auto split: sum.splits prod.splits)
  then show ?case using Cons.IH Cons.prems(2) by auto
qed simp

lemma map_flag_same:
  assumes "map_flag f xs = Inr (ys, False)" and "\<And>x y. x \<in> set xs \<Longrightarrow> f x = Inr (y, False) \<Longrightarrow> y = x"
  shows "ys = xs"
  using assms
proof (induction xs arbitrary: ys)
  case (Cons x xs)
  from Cons.prems(1) obtain y zs where "f x = Inr (y, False)" "map_flag f xs = Inr (zs, False)" "ys = y # zs"
    by (auto split: sum.splits prod.splits)
  then show ?case using Cons.IH Cons.prems(2) by simp
qed simp

lemma map_flag_Inl: "map_flag f xs = Inl e \<Longrightarrow> \<exists>x \<in> set xs. f x = Inl e"
  by (induction f xs rule: map_flag.induct) (auto split: sum.splits prod.splits)

section \<open>Renamed calls\<close>

text \<open>The function a call site calls directly: its last operand.\<close>

definition callee :: "(InstructionOpcode \<Rightarrow> bool) \<Rightarrow> inst \<Rightarrow> nat option" where
  "callee is_call i =
     (if is_call (opcode i) \<and> operands i \<noteq> [] then (case last (operands i) of FunctionOp f \<Rightarrow> Some f | _ \<Rightarrow> None)
      else None)"

text \<open>What the pass relies on of \<open>get_called_fn_value\<close>: it returns the called operand, at least when that is a
  function. On an indirect call it may panic.\<close>

definition called_law :: "(InstructionOpcode \<Rightarrow> bool) \<Rightarrow> (inst \<Rightarrow> fault + ir_operand) \<Rightarrow> bool" where
  "called_law is_call called \<longleftrightarrow>
     (\<forall>i v. is_call (opcode i) \<and> called i = Inr v \<longrightarrow> operands i \<noteq> [] \<and> v = last (operands i))
     \<and> (\<forall>i f. callee is_call i = Some f \<longrightarrow> called i = Inr (FunctionOp f))"

definition renamed ::
  "(InstructionOpcode \<Rightarrow> bool) \<Rightarrow> (string \<Rightarrow> string) \<Rightarrow> Module \<Rightarrow> Module \<Rightarrow> inst \<Rightarrow> inst \<Rightarrow> bool" where
  "renamed is_call ren m m' i i' =
     (case callee is_call i of
        None \<Rightarrow> i' = i
      | Some f \<Rightarrow> (\<exists>g < length m'. fname (m' ! g) = ren (fname (m ! f))
          \<and> i' = i\<lparr>operands := butlast (operands i) @ [FunctionOp g]\<rparr>))"

text \<open>Two modules that differ only in the names of the functions called, and in declarations at the end.\<close>

definition renames ::
  "(InstructionOpcode \<Rightarrow> bool) \<Rightarrow> (string \<Rightarrow> string) \<Rightarrow> Module \<Rightarrow> Module \<Rightarrow> bool" where
  "renames is_call ren m m' \<longleftrightarrow>
     length m \<le> length m'
     \<and> (\<forall>j < length m. \<exists>bs. m' ! j = (m ! j)\<lparr>blocks := bs\<rparr>
          \<and> list_all2 (list_all2 (renamed is_call ren m m')) (blocks (m ! j)) bs)
     \<and> (\<forall>j < length m'. length m \<le> j \<longrightarrow> blocks (m' ! j) = [])"

definition insts :: "Module \<Rightarrow> inst set" where
  "insts m = (\<Union>f \<in> set m. \<Union>b \<in> set (blocks f). set b)"

lemma in_insts: "j < length m \<Longrightarrow> b \<in> set (blocks (m ! j)) \<Longrightarrow> i \<in> set b \<Longrightarrow> i \<in> insts m"
  using nth_mem [of j m] by (auto simp: insts_def)

text \<open>Names identify functions, and calls go to functions of the module.\<close>

definition wf_module :: "(InstructionOpcode \<Rightarrow> bool) \<Rightarrow> Module \<Rightarrow> bool" where
  "wf_module is_call m \<longleftrightarrow>
     distinct (map fname m) \<and> (\<forall>i \<in> insts m. \<forall>f. callee is_call i = Some f \<longrightarrow> f < length m)"

lemma callee_SomeD:
  assumes "callee is_call i = Some f"
  shows "operands i = butlast (operands i) @ [FunctionOp f]" and "is_call (opcode i)"
proof -
  from assms have ne: "operands i \<noteq> []" "last (operands i) = FunctionOp f" and c: "is_call (opcode i)"
    by (auto simp: callee_def split: if_splits ir_operand.splits)
  show "operands i = butlast (operands i) @ [FunctionOp f]" using append_butlast_last_id [OF ne(1)] ne(2) by simp
  show "is_call (opcode i)" by (rule c)
qed

lemma callee_update [simp]:
  "is_call (opcode i) \<Longrightarrow> callee is_call (i\<lparr>operands := xs @ [FunctionOp g]\<rparr>) = Some g"
  by (simp add: callee_def)

lemma renamed_callee:
  assumes "renamed is_call ren m m' i i'"
  shows "callee is_call i = None \<Longrightarrow> i' = i \<and> callee is_call i' = None"
    and "callee is_call i = Some f \<Longrightarrow>
      \<exists>g < length m'. callee is_call i' = Some g \<and> fname (m' ! g) = ren (fname (m ! f))"
  using assms callee_SomeD(2) [of is_call i f] by (auto simp: renamed_def)

lemma renamed_trans:
  assumes "renamed is_call r m m1 i i1" and "renamed is_call s m1 m2 i1 i2"
  shows "renamed is_call (s \<circ> r) m m2 i i2"
proof (cases "callee is_call i")
  case None
  then show ?thesis using assms by (auto simp: renamed_def)
next
  case (Some f)
  then have "is_call (opcode i)" by (rule callee_SomeD)
  then show ?thesis using Some assms by (auto simp: renamed_def)
qed

lemma all2_trans:
  assumes "list_all2 (list_all2 (renamed is_call r m m1)) xs ys" and "list_all2 (list_all2 (renamed is_call s m1 m2)) ys zs"
  shows "list_all2 (list_all2 (renamed is_call (s \<circ> r) m m2)) xs zs"
proof -
  let ?P = "renamed is_call r m m1" and ?Q = "renamed is_call s m1 m2" and ?R = "renamed is_call (s \<circ> r) m m2"
  have "list_all2 ?P a b \<Longrightarrow> list_all2 ?Q b c \<Longrightarrow> list_all2 ?R a c" for a b c
    using list_all2_trans [of ?P ?Q ?R a b c] renamed_trans by blast
  with assms show ?thesis
    using list_all2_trans [of "list_all2 ?P" "list_all2 ?Q" "list_all2 ?R" xs ys zs] by blast
qed

lemma list_all2_source: "list_all2 R xs ys \<Longrightarrow> y \<in> set ys \<Longrightarrow> \<exists>x \<in> set xs. R x y"
  by (induction rule: list_all2_induct) auto

lemma renames_inst:
  assumes "renames is_call ren m m'" and "i' \<in> insts m'"
  obtains i where "i \<in> insts m" and "renamed is_call ren m m' i i'"
proof -
  from assms(2) obtain fn b' where fn: "fn \<in> set m'" "b' \<in> set (blocks fn)" "i' \<in> set b'"
    by (auto simp: insts_def)
  then obtain j where j: "j < length m'" "b' \<in> set (blocks (m' ! j))" "i' \<in> set b'"
    by (auto simp: in_set_conv_nth [of fn])
  with assms(1) have jm: "j < length m" by (fastforce simp: renames_def not_less)
  with assms(1) obtain bs where "m' ! j = (m ! j)\<lparr>blocks := bs\<rparr>"
      and all: "list_all2 (list_all2 (renamed is_call ren m m')) (blocks (m ! j)) bs"
    by (auto simp: renames_def)
  with j have "b' \<in> set bs" by simp
  then obtain b where b: "b \<in> set (blocks (m ! j))" "list_all2 (renamed is_call ren m m') b b'"
    using list_all2_source [OF all] by blast
  with j(3) obtain i where "i \<in> set b" "renamed is_call ren m m' i i'"
    using list_all2_source [OF b(2)] by blast
  with b jm show ?thesis by (intro that [of i]) (auto simp: insts_def)
qed

lemma renames_trans:
  assumes "renames is_call r m m1" and "renames is_call s m1 m2"
  shows "renames is_call (s \<circ> r) m m2"
proof -
  have "\<exists>bs. m2 ! j = (m ! j)\<lparr>blocks := bs\<rparr>
      \<and> list_all2 (list_all2 (renamed is_call (s \<circ> r) m m2)) (blocks (m ! j)) bs" if j: "j < length m" for j
  proof -
    from j assms(1) obtain bs where bs: "m1 ! j = (m ! j)\<lparr>blocks := bs\<rparr>"
        "list_all2 (list_all2 (renamed is_call r m m1)) (blocks (m ! j)) bs" by (auto simp: renames_def)
    from j assms(1) have "j < length m1" by (simp add: renames_def)
    with assms(2) obtain cs where cs: "m2 ! j = (m1 ! j)\<lparr>blocks := cs\<rparr>"
        "list_all2 (list_all2 (renamed is_call s m1 m2)) (blocks (m1 ! j)) cs" by (auto simp: renames_def)
    have "list_all2 (list_all2 (renamed is_call (s \<circ> r) m m2)) (blocks (m ! j)) cs"
      using all2_trans [OF bs(2), of s m2 cs] bs(1) cs(2) by simp
    then show ?thesis using bs cs by auto
  qed
  moreover have "blocks (m2 ! j) = []" if j: "j < length m2" "length m \<le> j" for j
  proof (cases "j < length m1")
    case True
    with j assms(1) have "blocks (m1 ! j) = []" by (simp add: renames_def)
    with True assms(2) show ?thesis by (auto simp: renames_def)
  next
    case False
    with j assms(2) show ?thesis by (simp add: renames_def)
  qed
  ultimately show ?thesis using assms by (auto simp: renames_def)
qed

lemma rewrite_inst_ok:
  assumes "called_law is_call called" and "rewrite_inst is_call called old new i = Inr (i', c)"
  shows "i' = (if callee is_call i = Some old
      then i\<lparr>operands := butlast (operands i) @ [FunctionOp new]\<rparr> else i)" and "c \<longleftrightarrow> callee is_call i = Some old"
proof -
  have "i' = (if callee is_call i = Some old then i\<lparr>operands := butlast (operands i) @ [FunctionOp new]\<rparr> else i)
      \<and> (c \<longleftrightarrow> callee is_call i = Some old)"
  proof (cases "is_call (opcode i)")
    case True
    then obtain v where v: "called i = Inr v" using assms(2) by (auto simp: rewrite_inst_def split: sum.splits)
    with True assms(1) have ops: "operands i \<noteq> []" "v = last (operands i)" by (auto simp: called_law_def)
    then have "(operands i)[length (operands i) - 1 := FunctionOp new] = butlast (operands i) @ [FunctionOp new]"
      by (metis append_butlast_last_id length_butlast list_update_length)
    moreover have "callee is_call i = Some old \<longleftrightarrow> v = FunctionOp old"
      using True ops by (auto simp: callee_def split: ir_operand.splits)
    ultimately show ?thesis using True v assms(2) by (auto simp: rewrite_inst_def split: if_splits)
  next
    case False
    then show ?thesis using assms(2) by (auto simp: rewrite_inst_def callee_def)
  qed
  then show "i' = (if callee is_call i = Some old
      then i\<lparr>operands := butlast (operands i) @ [FunctionOp new]\<rparr> else i)" and "c \<longleftrightarrow> callee is_call i = Some old"
    by blast+
qed

lemma rewrite_inst_Inl:
  assumes "called_law is_call called" and "rewrite_inst is_call called old new i = Inl e"
  shows "is_call (opcode i) \<and> callee is_call i = None"
  using assms by (cases "callee is_call i") (auto simp: rewrite_inst_def called_law_def split: if_splits sum.splits)

definition rename1 :: "string \<times> string \<Rightarrow> string \<Rightarrow> string" where
  "rename1 ft n = (if n = fst ft then snd ft else n)"

lemma rewrite_function_ok:
  assumes "rewrite_function is_call called old new f = Inr (f', c)"
    and "\<And>i i' d. i \<in> (\<Union>b \<in> set (blocks f). set b) \<Longrightarrow> rewrite_inst is_call called old new i = Inr (i', d) \<Longrightarrow> R i i'"
  shows "\<exists>bs. f' = f\<lparr>blocks := bs\<rparr> \<and> list_all2 (list_all2 R) (blocks f) bs"
proof -
  let ?g = "rewrite_inst is_call called old new"
  from assms(1) obtain bs where f': "f' = f\<lparr>blocks := bs\<rparr>" and bs: "map_flag (map_flag ?g) (blocks f) = Inr (bs, c)"
    by (auto simp: rewrite_function_def split: sum.splits)
  have "list_all2 (list_all2 R) (blocks f) bs"
  proof (rule map_flag_rel [OF bs])
    fix b b' d
    assume "b \<in> set (blocks f)" and "map_flag ?g b = Inr (b', d)"
    then show "list_all2 R b b'" using assms(2) by (intro map_flag_rel [of ?g b b' d]) auto
  qed
  with f' show ?thesis by blast
qed

lemma renamed_id:
  assumes "\<And>f. callee is_call i = Some f \<Longrightarrow> f < length m \<and> ren (fname (m ! f)) = fname (m ! f)"
  shows "renamed is_call ren m (m @ ds) i i"
proof (cases "callee is_call i")
  case (Some f)
  from callee_SomeD(1) [OF this] have "i\<lparr>operands := butlast (operands i) @ [FunctionOp f]\<rparr> = i" by simp
  with Some assms [OF Some] show ?thesis by (auto simp: renamed_def nth_append intro!: exI [of _ f])
qed (simp add: renamed_def)

lemma renames_id:
  assumes "\<And>i f. i \<in> insts m \<Longrightarrow> callee is_call i = Some f \<Longrightarrow> f < length m \<and> ren (fname (m ! f)) = fname (m ! f)"
  shows "renames is_call ren m m"
proof -
  have "renamed is_call ren m m i i" if "i \<in> insts m" for i
    using renamed_id [of is_call i m ren "[]"] assms [OF that] by simp
  then have "list_all2 (list_all2 (renamed is_call ren m m)) (blocks (m ! j)) (blocks (m ! j))" if "j < length m" for j
    using that in_insts [OF that] by (intro list.rel_refl_strong) auto
  then show ?thesis by (auto simp: renames_def intro!: exI [of _ "blocks _"])
qed

lemma renames_wf:
  assumes "renames is_call ren m m'" and "distinct (map fname m')"
  shows "wf_module is_call m'"
proof -
  have "f < length m'" if "i' \<in> insts m'" and "callee is_call i' = Some f" for i' f
  proof -
    from renames_inst [OF assms(1) that(1)] obtain i where i: "renamed is_call ren m m' i i'" by metis
    from renamed_callee [OF i] that(2) show ?thesis by (cases "callee is_call i") auto
  qed
  with assms(2) show ?thesis by (simp add: wf_module_def)
qed

text \<open>One pass over the module, when \<open>old\<close> is the function with the name to replace and \<open>new\<close> the one with
  the new name, possibly just declared in \<open>ds\<close>.\<close>

lemma uses_fields:
  assumes "rewrite_function_uses is_call called old new m1 = Inr (m', c)"
  shows "length m' = length m1" and "map fname m' = map fname m1"
    and "j < length m1 \<Longrightarrow> \<exists>d. rewrite_function is_call called old new (m1 ! j) = Inr (m' ! j, d)"
proof -
  let ?g = "rewrite_function is_call called old new"
  have all: "list_all2 (\<lambda>f f'. \<exists>d. ?g f = Inr (f', d)) m1 m'"
    using assms unfolding rewrite_function_uses_def by (rule map_flag_rel) blast
  then show "length m' = length m1" by (simp add: list_all2_lengthD)
  show "map fname m' = map fname m1"
    using all by (induction rule: list_all2_induct) (auto simp: rewrite_function_def split: sum.splits)
  show "j < length m1 \<Longrightarrow> \<exists>d. ?g (m1 ! j) = Inr (m' ! j, d)"
    using all by (simp add: list_all2_conv_all_nth)
qed

lemma rewrite_inst_renamed:
  assumes law: "called_law is_call called" and wf: "wf_module is_call m" and i: "i \<in> insts m"
    and run: "rewrite_inst is_call called old new i = Inr (i', d)"
    and old: "get_function m (fst ft) = Some old"
    and m': "map fname m' = map fname (m @ ds)" "new < length m'" "fname (m' ! new) = snd ft"
  shows "renamed is_call (rename1 ft) m m' i i'"
proof (cases "callee is_call i = Some old")
  case True
  with rewrite_inst_ok(1) [OF law run] m'(2,3) get_function_Some(2) [OF old] show ?thesis
    by (auto simp: renamed_def rename1_def intro!: exI [of _ new])
next
  case False
  have len: "length m' = length (m @ ds)" using m'(1) by (metis length_map)
  have name: "fname (m' ! j) = fname ((m @ ds) ! j)" if "j < length (m @ ds)" for j
    using that m'(1) len by (metis nth_map)
  have "f < length m \<and> rename1 ft (fname (m ! f)) = fname (m ! f)" if "callee is_call i = Some f" for f
    using that False wf i old get_function_index [of m f] by (auto simp: wf_module_def rename1_def)
  then have "renamed is_call (rename1 ft) m (m @ ds) i i" by (rule renamed_id)
  with False rewrite_inst_ok(1) [OF law run] name len show ?thesis by (auto simp: renamed_def split: option.splits)
qed

lemma rewrite_uses_renames:
  assumes law: "called_law is_call called" and wf: "wf_module is_call m"
    and run: "rewrite_function_uses is_call called old new (m @ ds) = Inr (m', c)"
    and old: "get_function m (fst ft) = Some old" and new: "new < length (m @ ds)" "fname ((m @ ds) ! new) = snd ft"
    and ds: "\<forall>d \<in> set ds. blocks d = []"
  shows "renames is_call (rename1 ft) m m'"
proof -
  note fields = uses_fields [OF run]
  have new': "new < length m'" "fname (m' ! new) = snd ft"
    using fields(1,2) new by (simp, metis length_map nth_map)
  note inst = rewrite_inst_renamed [OF law wf _ _ old fields(2) new']
  have "\<exists>bs. m' ! j = (m ! j)\<lparr>blocks := bs\<rparr>
      \<and> list_all2 (list_all2 (renamed is_call (rename1 ft) m m')) (blocks (m ! j)) bs" if j: "j < length m" for j
  proof -
    from fields(3) [of j] j obtain d where "rewrite_function is_call called old new (m ! j) = Inr (m' ! j, d)"
      by (auto simp: nth_append)
    then show ?thesis using in_insts [OF j] by (intro rewrite_function_ok [where c = d]) (auto intro!: inst)
  qed
  moreover have "blocks (m' ! j) = []" if "j < length m'" "length m \<le> j" for j
  proof -
    from fields(1,3) that obtain d where "rewrite_function is_call called old new ((m @ ds) ! j) = Inr (m' ! j, d)" by metis
    moreover have "blocks ((m @ ds) ! j) = []" using that ds fields(1) by (simp add: nth_append)
    ultimately have "m' ! j = ((m @ ds) ! j)\<lparr>blocks := []\<rparr>" by (auto simp: rewrite_function_def)
    then show ?thesis by simp
  qed
  ultimately show ?thesis using fields(1) by (simp add: renames_def)
qed

lemma rewrite_one_renames:
  assumes law: "called_law is_call called" and wf: "wf_module is_call m"
    and run: "rewrite_one is_call called ft m = Inr (m', c)"
  shows "renames is_call (rename1 ft) m m' \<and> wf_module is_call m'"
proof (cases "get_function m (fst ft)")
  case None
  then have "fst ft \<notin> fname ` set m" by (simp add: get_function_None)
  then have "rename1 ft (fname (m ! f)) = fname (m ! f)" if "f < length m" for f
    using that by (metis imageI nth_mem rename1_def)
  with None run wf show ?thesis by (auto simp: rewrite_one_def wf_module_def intro!: renames_id)
next
  case (Some old)
  obtain m1 new where m1: "get_or_add m (snd ft) (ftype (m ! old)) = (m1, new)" by fastforce
  from get_or_addE [OF m1] wf obtain ds where ds: "m1 = m @ ds" "new < length (m @ ds)" "fname ((m @ ds) ! new) = snd ft"
      "\<forall>d \<in> set ds. blocks d = []" "distinct (map fname m1)" unfolding wf_module_def by metis
  from Some m1 run ds(1) have uses: "rewrite_function_uses is_call called old new (m @ ds) = Inr (m', c)"
    by (simp add: rewrite_one_def)
  from rewrite_uses_renames [OF law wf uses Some ds(2-4)] uses_fields(2) [OF uses] ds(1,5) renames_wf
  show ?thesis by metis
qed

text \<open>The fold of the replacements, and what it is on the table of the pass.\<close>

fun rename_all :: "(string \<times> string) list \<Rightarrow> string \<Rightarrow> string" where
  "rename_all [] n = n"
| "rename_all (ft # fts) n = rename_all fts (rename1 ft n)"

definition rsched_name :: "string \<Rightarrow> string" where
  "rsched_name n = (case map_of PTHREAD_REWRITES n of None \<Rightarrow> n | Some n' \<Rightarrow> n')"

lemma rename_all_map_of:
  "fst ` set fts \<inter> snd ` set fts = {} \<Longrightarrow> rename_all fts n = (case map_of fts n of None \<Rightarrow> n | Some n' \<Rightarrow> n')"
proof (induction fts arbitrary: n)
  case (Cons ft fts)
  then have IH: "rename_all fts k = (case map_of fts k of None \<Rightarrow> k | Some k' \<Rightarrow> k')" for k by auto
  from Cons.prems have "map_of fts (snd ft) = None" by (auto simp: map_of_eq_None_iff)
  then show ?case by (cases ft) (simp add: rename1_def IH)
qed simp

lemma rewrites_disjoint: "fst ` set PTHREAD_REWRITES \<inter> snd ` set PTHREAD_REWRITES = {}"
  by (simp add: PTHREAD_REWRITES_def)

lemma rename_all_eq: "rename_all PTHREAD_REWRITES = rsched_name"
  by (rule ext) (simp only: rename_all_map_of [OF rewrites_disjoint] rsched_name_def)

lemma rsched_name_fresh: "rsched_name n \<notin> fst ` set PTHREAD_REWRITES"
proof (cases "map_of PTHREAD_REWRITES n")
  case None
  then have "rsched_name n = n" "n \<notin> fst ` set PTHREAD_REWRITES" by (simp add: rsched_name_def, simp add: map_of_eq_None_iff)
  then show ?thesis by simp
next
  case (Some n')
  then have "n' \<in> snd ` set PTHREAD_REWRITES" by (metis map_of_SomeD imageI snd_conv)
  then show ?thesis using rewrites_disjoint Some by (auto simp: rsched_name_def)
qed

definition has_indirect_call :: "(InstructionOpcode \<Rightarrow> bool) \<Rightarrow> Module \<Rightarrow> bool" where
  "has_indirect_call is_call m \<longleftrightarrow> (\<exists>i \<in> insts m. is_call (opcode i) \<and> callee is_call i = None)"

lemma renames_indirect:
  assumes "renames is_call ren m m'" and "has_indirect_call is_call m'"
  shows "has_indirect_call is_call m"
proof -
  from assms(2) obtain i' where i': "i' \<in> insts m'" "is_call (opcode i')" "callee is_call i' = None"
    by (auto simp: has_indirect_call_def)
  from renames_inst [OF assms(1) i'(1)] obtain i where i: "i \<in> insts m" "renamed is_call ren m m' i i'" by metis
  from renamed_callee [OF i(2)] i'(3) have "i' = i" by (cases "callee is_call i") auto
  with i i' show ?thesis by (auto simp: has_indirect_call_def)
qed

lemma rewrite_one_Inl:
  assumes "called_law is_call called" and "rewrite_one is_call called ft m = Inl e"
  shows "has_indirect_call is_call m"
proof -
  from assms(2) obtain old m1 new where m1: "get_or_add m (snd ft) (ftype (m ! old)) = (m1, new)"
      and "rewrite_function_uses is_call called old new m1 = Inl e"
    by (auto simp: rewrite_one_def split: option.splits prod.splits)
  then obtain f b i where "f \<in> set m1" "b \<in> set (blocks f)" "i \<in> set b" "rewrite_inst is_call called old new i = Inl e"
    by (auto simp: rewrite_function_uses_def rewrite_function_def split: sum.splits dest!: map_flag_Inl)
  moreover from get_or_addE [OF m1] obtain ds where "m1 = m @ ds" "\<forall>d \<in> set ds. blocks d = []" by metis
  ultimately show ?thesis using rewrite_inst_Inl [OF assms(1)]
    by (fastforce simp: has_indirect_call_def insts_def)
qed

lemma rewrite_all_renames:
  assumes "called_law is_call called" and "wf_module is_call m"
  shows "case rewrite_all is_call called fts m of
      Inl e \<Rightarrow> has_indirect_call is_call m
    | Inr (m', c) \<Rightarrow> renames is_call (rename_all fts) m m' \<and> wf_module is_call m'"
  using assms(2)
proof (induction fts arbitrary: m)
  case Nil
  then show ?case by (auto simp: wf_module_def intro!: renames_id)
next
  case (Cons ft fts)
  show ?case
  proof (cases "rewrite_one is_call called ft m")
    case (Inl e)
    then show ?thesis using rewrite_one_Inl [OF assms(1)] by simp
  next
    case (Inr x)
    then obtain m1 c where one: "rewrite_one is_call called ft m = Inr (m1, c)" by (cases x) auto
    note r = rewrite_one_renames [OF assms(1) Cons.prems one]
    have "rename_all fts \<circ> rename1 ft = rename_all (ft # fts)" by (simp add: fun_eq_iff)
    then show ?thesis
      using Cons.IH [of m1] r one renames_trans [of is_call "rename1 ft" m m1 "rename_all fts"]
        renames_indirect [of is_call "rename1 ft" m m1]
      by (auto split: sum.splits simp del: rename_all.simps)
  qed
qed

section \<open>Properties\<close>

text \<open>C13: the rewriting of calls is a renaming. In a well-formed module the twelve passes over the table
  amount to one simultaneous replacement: every direct call goes to the function with the replaced
  name, with the same arguments, no call to a replaced name is left, and nothing else of an existing
  function changes. It can stop early only on a module with an indirect call.\<close>

theorem rewrite_is_renaming:
  assumes "called_law is_call called" and "wf_module is_call m"
  shows "case rewrite_pthread_calls is_call called m of
      Inl e \<Rightarrow> has_indirect_call is_call m
    | Inr (m', c) \<Rightarrow> renames is_call rsched_name m m' \<and> wf_module is_call m'
        \<and> (\<forall>i \<in> insts m'. \<forall>g. callee is_call i = Some g \<longrightarrow> fname (m' ! g) \<notin> fst ` set PTHREAD_REWRITES)"
proof -
  have "fname (m' ! g) \<notin> fst ` set PTHREAD_REWRITES"
    if "renames is_call rsched_name m m'" "i' \<in> insts m'" "callee is_call i' = Some g" for m' i' g
  proof -
    from renames_inst [OF that(1,2)] obtain i where i: "renamed is_call rsched_name m m' i i'" by metis
    from renamed_callee [OF i] that(3) obtain f where "fname (m' ! g) = rsched_name (fname (m ! f))"
      by (cases "callee is_call i") auto
    then show ?thesis using rsched_name_fresh by simp
  qed
  then show ?thesis
    using rewrite_all_renames [OF assms, of PTHREAD_REWRITES]
    by (auto simp: rewrite_pthread_calls_def rename_all_eq split: sum.splits)
qed

text \<open>A module whose only function calls \<open>sched_yield\<close>.\<close>

definition demo_caller :: Module where
  "demo_caller =
     [\<lparr>fname = ''f'', ftype = hook_ty, linkage = ExternalLinkage, blocks = [[call_inst VoidType 1 [] '''']]\<rparr>,
      \<lparr>fname = ''sched_yield'', ftype = hook_ty, linkage = ExternalLinkage, blocks = []\<rparr>]"

definition demo_called :: "inst \<Rightarrow> fault + ir_operand" where
  "demo_called i = (if operands i = [] then Inl UnwrapNone else Inr (last (operands i)))"

lemma demo_called_law: "called_law (\<lambda>x. x = OpCall) demo_called"
  by (auto simp: called_law_def demo_called_def callee_def split: if_splits ir_operand.splits)

theorem rewrite_is_renaming_witness:
  "\<exists>m' c. rewrite_pthread_calls (\<lambda>x. x = OpCall) demo_called demo_caller = Inr (m', c)
     \<and> renames (\<lambda>x. x = OpCall) rsched_name demo_caller m'"
proof -
  have wf: "wf_module (\<lambda>x. x = OpCall) demo_caller"
    by (simp add: wf_module_def demo_caller_def insts_def callee_def call_inst_def)
  have "\<not> has_indirect_call (\<lambda>x. x = OpCall) demo_caller"
    by (simp add: has_indirect_call_def demo_caller_def insts_def callee_def call_inst_def)
  with rewrite_is_renaming [OF demo_called_law wf] show ?thesis
    by (auto split: sum.splits)
qed

section \<open>What the pass reports\<close>

text \<open>A transformation of modules reports whether it changed anything. What \<open>run_pass\<close> relies on is
  that a negative report is true: no existing function has changed, at most declarations were added.\<close>

definition only_declares :: "Module \<Rightarrow> Module \<Rightarrow> bool" where
  "only_declares m m' \<longleftrightarrow> (\<exists>ds. m' = m @ ds \<and> (\<forall>d \<in> set ds. blocks d = []))"

lemma only_declares_trans: "only_declares m m1 \<Longrightarrow> only_declares m1 m2 \<Longrightarrow> only_declares m m2"
  by (fastforce simp: only_declares_def)

definition then_pass ::
  "(Module \<Rightarrow> fault + Module \<times> bool) \<Rightarrow> (Module \<Rightarrow> fault + Module \<times> bool) \<Rightarrow> Module \<Rightarrow> fault + Module \<times> bool" where
  "then_pass f g m =
     (case f m of
        Inl e \<Rightarrow> Inl e
      | Inr (m1, c) \<Rightarrow> (case g m1 of Inl e \<Rightarrow> Inl e | Inr (m2, d) \<Rightarrow> Inr (m2, c \<or> d)))"

locale flagged_pass =
  fixes run :: "Module \<Rightarrow> fault + Module \<times> bool"
  assumes unchanged: "run m = Inr (m', False) \<Longrightarrow> only_declares m m'"
begin

lemma same_functions: "run m = Inr (m', False) \<Longrightarrow> j < length m \<Longrightarrow> m' ! j = m ! j"
  using unchanged by (fastforce simp: only_declares_def nth_append)

end

lemma then_pass_flagged:
  assumes "flagged_pass f" and "flagged_pass g"
  shows "flagged_pass (then_pass f g)"
proof
  fix m m' assume "then_pass f g m = Inr (m', False)"
  then obtain m1 where "f m = Inr (m1, False)" "g m1 = Inr (m', False)"
    by (auto simp: then_pass_def split: sum.splits prod.splits)
  then show "only_declares m m'" using assms [THEN flagged_pass.unchanged] only_declares_trans by blast
qed

locale two_passes = one: flagged_pass f + two: flagged_pass g for f g

sublocale two_passes \<subseteq> both: flagged_pass "then_pass f g"
  using one.flagged_pass_axioms two.flagged_pass_axioms by (rule then_pass_flagged)

lemma instrument_block_same: "\<not> snd (instrument_block so cast hook b) \<Longrightarrow> fst (instrument_block so cast hook b) = b"
  by (induction b) (auto simp: Let_def split: option.splits prod.splits)

lemma instrument_unchanged:
  assumes "instrument_atomics so cast m = (m', False)"
  shows "only_declares m m'"
proof -
  obtain m1 hook where m1: "get_or_add m ''rsched_atomic_instrument'' hook_ty = (m1, hook)" by fastforce
  let ?f = "instrument_function so cast hook"
  from assms m1 have m': "m' = map (fst \<circ> ?f) m1" and "\<forall>f \<in> set m1. \<not> snd (?f f)"
    by (auto simp: instrument_atomics_def list_ex_iff)
  then have "\<forall>f \<in> set m1. \<forall>b \<in> set (blocks f). fst (instrument_block so cast hook b) = b"
    using instrument_block_same by (fastforce simp: instrument_function_def Let_def list_ex_iff)
  then have "fst (?f f) = f" if "f \<in> set m1" for f
    using that by (simp add: instrument_function_def Let_def map_idI)
  then have "m' = m1" by (simp add: m' map_idI)
  with get_or_addE [OF m1] show ?thesis unfolding only_declares_def by metis
qed

lemma rewrite_inst_same: "rewrite_inst is_call called old new i = Inr (i', False) \<Longrightarrow> i' = i"
  by (auto simp: rewrite_inst_def split: if_splits sum.splits)

lemma rewrite_uses_same:
  assumes "rewrite_function_uses is_call called old new m = Inr (m', False)"
  shows "m' = m"
proof (rule map_flag_same [OF assms [unfolded rewrite_function_uses_def]])
  fix f f' assume "rewrite_function is_call called old new f = Inr (f', False)"
  then obtain bs where f': "f' = f\<lparr>blocks := bs\<rparr>"
      and bs: "map_flag (map_flag (rewrite_inst is_call called old new)) (blocks f) = Inr (bs, False)"
    by (auto simp: rewrite_function_def split: sum.splits)
  have "bs = blocks f"
    by (rule map_flag_same [OF bs]) (erule map_flag_same, rule rewrite_inst_same)
  with f' show "f' = f" by simp
qed

lemma rewrite_one_unchanged:
  assumes "rewrite_one is_call called ft m = Inr (m', False)"
  shows "only_declares m m'"
proof (cases "get_function m (fst ft)")
  case None
  then show ?thesis using assms by (simp add: rewrite_one_def only_declares_def)
next
  case (Some old)
  obtain m2 new where m2: "get_or_add m (snd ft) (ftype (m ! old)) = (m2, new)" by fastforce
  with Some assms have "m' = m2" by (simp add: rewrite_one_def rewrite_uses_same)
  with get_or_addE [OF m2] show ?thesis unfolding only_declares_def by metis
qed

lemma rewrite_all_then: "rewrite_all is_call called (ft # fts) = then_pass (rewrite_one is_call called ft) (rewrite_all is_call called fts)"
  by (simp add: fun_eq_iff then_pass_def)

lemma rewrite_all_flagged: "flagged_pass (rewrite_all is_call called fts)"
proof (induction fts)
  case Nil
  show ?case by unfold_locales (simp add: only_declares_def)
next
  case (Cons ft fts)
  have "flagged_pass (rewrite_one is_call called ft)" by unfold_locales (rule rewrite_one_unchanged)
  then show ?case unfolding rewrite_all_then using Cons.IH by (rule then_pass_flagged)
qed

lemma wrap_unchanged: "wrap_fuzzer_entrypoint m = Inr (m', False) \<Longrightarrow> m' = m"
  by (auto simp: wrap_fuzzer_entrypoint_def Let_def split: option.splits if_splits prod.splits BasicTypeEnum.splits)

interpretation wrap: flagged_pass wrap_fuzzer_entrypoint
  by unfold_locales (auto simp: only_declares_def dest: wrap_unchanged)

interpretation atomics: flagged_pass "\<lambda>m. Inr (instrument_atomics so cast m)" for so cast
  by unfold_locales (auto intro: instrument_unchanged)

interpretation calls: flagged_pass "rewrite_pthread_calls is_call called" for is_call called
  unfolding rewrite_pthread_calls_def by (rule rewrite_all_flagged)

interpretation prepared: two_passes wrap_fuzzer_entrypoint "\<lambda>m. Inr (instrument_atomics so cast m)" for so cast
  by unfold_locales

interpretation direct: two_passes "then_pass wrap_fuzzer_entrypoint (\<lambda>m. Inr (instrument_atomics so cast m))"
    "rewrite_pthread_calls is_call called" for so cast is_call called
  by unfold_locales

text \<open>Analyses reported as preserved are. When the pass says that it preserves all analyses, every
  function of the module is exactly as before; only declarations may have been added at the end.\<close>

theorem preserved_means_unchanged:
  assumes "run_pass lib self m = Inr (m', PreservedAll)"
  shows "only_declares m m'"
proof -
  let ?prep = "then_pass wrap_fuzzer_entrypoint (\<lambda>m. Inr (instrument_atomics (const_size lib) (pointer_cast lib) m))"
  let ?calls = "rewrite_pthread_calls (call_site lib) (called_fn_value lib)"
  show ?thesis
  proof (cases "direct_pthread self")
    case True
    with assms have "then_pass ?prep ?calls m = Inr (m', False)"
      by (auto simp: run_pass_def then_pass_def split: sum.splits prod.splits if_splits)
    then show ?thesis by (rule direct.both.unchanged)
  next
    case False
    with assms have "?prep m = Inr (m', False)"
      by (auto simp: run_pass_def then_pass_def split: sum.splits prod.splits if_splits)
    then show ?thesis by (rule prepared.both.unchanged)
  qed
qed

definition demo_llvm :: llvm where
  "demo_llvm = \<lparr>const_size = \<lambda>_. None, pointer_cast = \<lambda>p. ([], p), call_site = \<lambda>x. x = OpCall, called_fn_value = demo_called\<rparr>"

theorem preserved_means_unchanged_witness:
  "\<exists>m' ds. run_pass demo_llvm \<lparr>direct_pthread = False\<rparr> demo_caller = Inr (m', PreservedAll) \<and> m' = demo_caller @ ds"
proof -
  have "\<exists>m'. run_pass demo_llvm \<lparr>direct_pthread = False\<rparr> demo_caller = Inr (m', PreservedAll)"
    by (simp add: run_pass_def demo_llvm_def demo_caller_def wrap_fuzzer_entrypoint_def get_function_def entry_name_def
        instrument_atomics_def get_or_add_def add_function_def instrument_function_def atomic_info_def call_inst_def)
  then show ?thesis using preserved_means_unchanged unfolding only_declares_def by blast
qed

end
