(* ===== verification/Spec2Isabelle.thy ===== *)
theory Spec2Isabelle
  imports Rsched_Sync Rsched_Replay Rsched_Tsan_Machine Rsched_Diagnose Rsched_Atomics Rsched_Bindings Rsched_Rename
begin

text \<open>
  \<^bold>\<open>rsched\<close> is a cooperative scheduler for multi-threaded C programs. It takes the place of the pthread
  operations of a program, lets one thread run at a time and chooses at every operation, with a seeded
  random generator, which thread runs next, so that a schedule can be repeated and varied.

  \<^bold>\<open>Parts of the program.\<close>
  \<^item> The scheduler library, \<^verbatim>\<open>src/rsched/src/lib.rs\<close>: a global \<open>State\<close> protected by the mutex GMTX; the
    exported functions \<open>rsched_pthread_*\<close>, \<open>rsched_sched_yield\<close> and \<open>rsched_atomic_*\<close>, each a scheduling
    point; initialisation, the fuzzing driver and the seccomp tripwire. A thread that must not run
    waits on its own condition variable; the thread that chooses it signals that variable.
  \<^item> The scheduling algorithms, \<^verbatim>\<open>src/rsched/src/scheduler.rs\<close>, and the events they see,
    \<^verbatim>\<open>src/rsched/src/event.rs\<close>.
  \<^item> The preload shim, \<^verbatim>\<open>src/rsched/preload/src/lib.rs\<close>: interceptors with the pthread names that enter the
    library, or forward to the real implementation when the library itself is the caller.
  \<^item> The LLVM pass, \<^verbatim>\<open>src/rsched/llvm-pass/src/lib.rs\<close>: inserts a call of \<open>rsched_atomic_instrument\<close> before each
    atomic instruction, wraps the fuzzer entry point and can redirect pthread calls.

  \<^bold>\<open>Theories, and what each models.\<close>
  \<^item> \<open>Rsched_Prelude\<close>: machine types, faults (panics and undefined behaviour), checked arithmetic, and the
    outcome of code that may wait. \<open>Rsched_Bytes\<close>: a byte memory with 32- and 64-bit accesses.
  \<^item> \<open>Rsched_Event\<close>, \<open>Rsched_Scheduler\<close>: events, \<open>Rng\<close>, \<open>RandomWalk\<close>, \<open>LoggingScheduler\<close>. The trait is the locale
    \<open>scheduler\<close>, interpreted on both algorithms and on the boxed scheduler that \<open>State\<close> holds.
  \<^item> \<open>Rsched_State\<close>, \<open>Rsched_Switch\<close>, \<open>Rsched_Mutex\<close>, \<open>Rsched_Api\<close>: the struct \<open>State\<close> and its methods, the
    context switch, the virtual mutexes, the exported operations. A function that waits is cut at its
    waits into segments; the rest of it is a stack of frames.
  \<^item> \<open>Rsched_Init\<close>: globals, \<open>rsched_init\<close>, \<open>rsched_reinit\<close>, the seed, \<open>rsched_fuzzer_test_one_input\<close>.
    \<open>Rsched_Bindings\<close>: \<open>rpt\<close>, the direct bindings to libpthread.
  \<^item> \<open>Rsched_Machine\<close>: all threads together, a step relation over segments; \<open>reachable\<close> are its states.
    \<open>Rsched_Demo\<close>: concrete runs used as examples.
  \<^item> \<open>Rsched_Depth\<close>: \<open>CALL_DEPTH\<close> and the wrappers around GMTX as sequences of primitive actions.
  \<^item> \<open>Rsched_Seccomp\<close>: the assembly of \<open>rsched_internal_syscall6\<close>, the SIGSYS handler, the filter program.
  \<^item> \<open>Rsched_Atomics\<close>: the exported atomic operations on the byte memory.
  \<^item> \<open>Rsched_Elf\<close>, \<open>Rsched_Tsan\<close>, \<open>Rsched_Sleep\<close>, \<open>Rsched_Preload\<close>: the shim. The symbol lookup in ELF files, the
    detection of the sanitiser's background thread and the start gate, the length of virtual sleeps,
    the interceptors, and the machine of a preloaded program (\<open>preachable\<close>). \<open>Rsched_Diagnose\<close>: the report
    of \<open>rsched_diagnose_rtld_next\<close>.
  \<^item> \<open>Rsched_Tsan_Machine\<close>: the build with the \<open>tsan\<close> feature, where creation, trampoline and start gate
    work together: a machine over the one of \<open>Rsched_Machine\<close>.
  \<^item> \<open>Rsched_Pass\<close>: the LLVM pass on modules as data.

  \<^bold>\<open>What the lemmas show.\<close>
  \<^item> \<open>Rsched_Running\<close>, \<open>Rsched_Contract\<close>, \<open>Rsched_Discipline\<close>, \<open>Rsched_Threads\<close>: the discipline that every segment
    keeps (one thread holds the right to run). This theory draws the consequences for whole runs:
    runs are serialised, no fault but the overflow of a lock counter, control is never lost, no
    wake-up is lost; and two limits of the design, a stranded child and spurious wake-ups.
  \<^item> \<open>Rsched_Commute\<close>, \<open>Rsched_Replay\<close>: schedules are repeated. The start of a new thread commutes with every
    segment of another thread, so a run is determined by the seed, the program and the answers of the
    system, whatever the timing of thread starts and of the wait for a child. The argument is the locale
    \<open>following_runs\<close>, interpreted on the logged runs of the machine and on its deterministic run.
  \<^item> \<open>Rsched_Tsan_Machine\<close>: under the sanitiser a new thread reaches the user's routine through the gate,
    and a failed creation undoes the gate; but the schedule depends on timing there, and a join can hang.
  \<^item> \<open>Rsched_Owner\<close>, \<open>Rsched_Ownership\<close>, \<open>Rsched_Exclusion\<close>: mutual exclusion over whole runs.
    \<open>Rsched_Sync\<close>: locks, condition variables and barriers operation by operation, errors included.
  \<^item> \<open>Rsched_Preload\<close>: every step of a preloaded program is the step of the scheduler it stands for, so the
    results above carry over; the depth tells user code from library code; nested calls never enter
    the scheduler; virtual sleeps end.
  \<^item> \<open>Rsched_Instrument\<close>, \<open>Rsched_Rename\<close>: every atomic access is announced, with the right pointer, size and
    kind; the table of pthread names acts as one renaming; the entry point is wrapped once; the
    report to LLVM is true. The contract of a transformation with a changed flag is the locale
    \<open>flagged_pass\<close>, interpreted on the three transformations and on their sequence.
  \<^item> The remaining theories hold the properties of their own component: the filter decides as documented,
    the handler is transparent inside the library, a positive symbol lookup is right and every
    lookup ends, the mode parser equals its specification, sleeps have the exact number of yields.

  \<^bold>\<open>Assumptions.\<close> Code outside the repository is a parameter: the answers of libpthread, allocator and
  kernel (\<open>Env\<close>, \<open>Kernel\<close>, \<open>Process\<close>), the dynamic linker, the next implementations of the intercepted
  functions, the file system, the BPF machine, LLVM. \<open>os_ok\<close> says that new thread ids and boxes are not in use and
  that the condition variables waited on without a loop have no spurious wake-ups; the real join
  returns when the thread has gone;
  \<open>bpf_semantics\<close>, \<open>plain_cast\<close> and \<open>called_law\<close> state documented behaviour of the kernel and of LLVM. Integers have their
  machine width; \<open>oc\<close> or \<open>overflow_checks\<close> says whether the build panics on overflow. \<open>os_checked\<close> adds overflow checks
  and distinct tids; replay also takes the program and all answers as functions of the log of calls and
  results, which is what a user who repeats a schedule relies on. Under the sanitiser, \<open>ge_calls\<close> is what its
  start function calls: the routine in its argument block.
  No definition needs fuel: the loops of the sources are bounded by their data, and a virtual sleep by
  100000 yields.

  \<^bold>\<open>Not modelled.\<close> The reading of the return address, an intrinsic of the compiler whose value is a parameter;
  \<^verbatim>\<open>preload/src/libc_start_main.rs\<close>, which no module includes; the build script, which runs the C compiler;
  benchmarks, tests, C headers and examples. Names of global variables in LLVM modules are outside the model of the pass.
\<close>

section \<open>Properties of whole runs\<close>

text \<open>C1: runs are serialised. In every reachable state at most one thread is active: in user code, in
  the real \<open>pthread_join\<close>, woken inside the library, or waiting for the thread it created. All the
  others are parked on their own condition variable, not started, or gone.\<close>

theorem runs_are_serialised:
  assumes "reachable pr seed m" and "active (mc m p)" and "active (mc m q)"
  shows "p = q"
  using active_unique [OF reachable_minv [OF assms(1)] assms(2,3)] .

theorem runs_are_serialised_witness:
  "\<exists>m. demo_run demo_switch = Some m \<and> active (mc m 2) \<and> \<not> active (mc m 1)"
proof (rule demo_runE [OF demo_switch_ok])
  fix m assume m: "demo_run demo_switch = Some m" "reachable demo_process 7 m"
    and c: "(mc m 1, mc m 2, crash m) = (Parked (SuspendCond 1) ([InWake 1, CsWoken 1], YieldSwitched), InUser, None)"
  from runs_are_serialised [OF m(2), of 2 1] m c show ?thesis by auto
qed

text \<open>C4: the only faults a run can meet are overflows of a mutex lock counter. No reachable state uses a
  freed start argument, looks up an unknown thread, indexes out of range or fails an \<open>expect\<close>.\<close>

theorem only_counter_faults:
  assumes "reachable pr seed m"
  shows "crash m \<in> {None, Some AddOverflow, Some SubOverflow}"
  using reachable_minv [OF assms] by (cases "crash m") (auto simp: minv_def)

theorem only_counter_faults_witness:
  "\<exists>m. demo_run demo_switch = Some m \<and> crash m \<in> {None, Some AddOverflow, Some SubOverflow}"
  using demo_runE [OF demo_switch_ok] only_counter_faults by metis

text \<open>C6: control is never lost. When no thread is active, no registered thread could run: the program
  has ended or every thread blocks.\<close>

theorem control_is_never_lost:
  assumes "reachable pr seed m" and "\<And>p. \<not> active (mc m p)"
  shows "\<not> eligible (st (mw m)) q"
proof -
  have inactive: "\<not> holder_at (mw m) (mc m) p (mc m p)" for p
    using assms(2) [of p] by (cases "(mw m, mc m, p, mc m p)" rule: holder_at.cases) auto
  then have "stuck (mc m) (mw m)" using reachable_minv [OF assms(1)] by (auto simp: minv_def)
  then show ?thesis by (simp add: stuck_def no_eligible_def)
qed

theorem control_is_never_lost_witness:
  "\<exists>m. demo_run [Call 1 CallExit] = Some m \<and> \<not> eligible (st (mw m)) 1"
proof (rule demo_runE [OF demo_exit_ok])
  fix m assume m: "demo_run [Call 1 CallExit] = Some m" "reachable demo_process 7 m"
    and c: "(mc m, crash m) = ((\<lambda>_. NoThread)(1 := Gone), None)"
  from c have "\<not> active (mc m p)" for p by auto
  from control_is_never_lost [OF m(2) this] m show ?thesis by auto
qed

text \<open>A thread that was woken was chosen. Only its own condition variable wakes it, and when it
  resumes it is registered, started, waiting and not blocking.\<close>

theorem woken_was_chosen:
  assumes "reachable pr seed m" and "mc m p = Woken (SuspendCond q) k"
  shows "q = p \<and> eligible (st (mw m)) p"
  using active_holder [OF reachable_minv [OF assms(1)], of p] assms(2) by simp

theorem woken_was_chosen_witness:
  "\<exists>m. demo_run demo_woken = Some m \<and> eligible (st (mw m)) 2"
proof (rule demo_runE [OF demo_woken_ok])
  fix m assume m: "demo_run demo_woken = Some m" "reachable demo_process 7 m"
    and c: "(mc m 2, eligible (st (mw m)) 2) = (Woken (SuspendCond 2) ([], TrampolineWaited), True)"
  from c have "mc m 2 = Woken (SuspendCond 2) ([], TrampolineWaited)" by simp
  from woken_was_chosen [OF m(2) this] m show ?thesis by auto
qed

text \<open>C7: no wake-up is lost. A thread the scheduler may choose is parked on its own condition variable,
  or has been woken from it: signalling that condition variable reaches it.\<close>

theorem eligible_is_parked:
  assumes "reachable pr seed m" and "eligible (st (mw m)) p"
  shows "\<exists>k. mc m p = Parked (SuspendCond p) k \<or> mc m p = Woken (SuspendCond p) k"
proof -
  consider r where "holder_at (mw m) (mc m) r (mc m r)" | "stuck (mc m) (mw m)"
    using reachable_minv [OF assms(1)] by (auto simp: minv_def)
  then show ?thesis
  proof cases
    case 1
    show ?thesis
    proof (cases "r = p")
      case True
      then show ?thesis using 1 assms(2) running_caller_ineligible [of p "mc m" "mw m"]
        by (cases "(mw m, mc m, p, mc m p)" rule: holder_at.cases) (auto simp: draining_def)
    next
      case False
      obtain b where "running b r (mc m) (mw m)" using holder_running [OF 1] by blast
      then have "base (\<lambda>q. q = r) (mc m) (mw m)" by (simp add: running_def)
      from eligible_parked [OF this assms(2)] False show ?thesis by blast
    qed
  next
    case 2
    then show ?thesis using assms(2) by (simp add: stuck_def no_eligible_def)
  qed
qed

theorem eligible_is_parked_witness:
  "\<exists>m k. demo_run demo_woken = Some m
     \<and> (mc m 2 = Parked (SuspendCond 2) k \<or> mc m 2 = Woken (SuspendCond 2) k)"
proof (rule demo_runE [OF demo_woken_ok])
  fix m assume m: "demo_run demo_woken = Some m" "reachable demo_process 7 m"
    and c: "(mc m 2, eligible (st (mw m)) 2) = (Woken (SuspendCond 2) ([], TrampolineWaited), True)"
  from c have "eligible (st (mw m)) 2" by simp
  from eligible_is_parked [OF m(2) this] m show ?thesis by auto
qed

section \<open>Limits of the design\<close>

text \<open>A main thread that creates a thread and exits at once.\<close>

definition demo_stranded :: "action list" where
  "demo_stranded = [Call 1 (CallCreate 0 0 0), Begin 2, Call 1 CallExit]"

lemma demo_draw_blocked [simp]:
  "RandomWalk_choose (RandomWalk_new 7) [True] = Inr (None, \<lparr>rng = Rng 7575888327\<rparr>)"
  by (simp add: run_draw_defs)

lemma demo_stranded_ok:
  "map_option (\<lambda>m. (mc m, map_option (\<lambda>t. (is_blocking t, is_exited t)) (info (st (mw m)) 2))) (demo_run demo_stranded)
    = Some ((\<lambda>_. NoThread)(1 := Gone, 2 := Parked (SuspendCond 2) ([], TrampolineWaited)), Some (False, False))"
  by (simp add: demo_defs demo_stranded_def fun_eq_iff)


text \<open>A suspended thread whose wait returns without a signal.\<close>

definition demo_spurious :: "action list" where
  "demo_spurious = demo_switch @ [Spurious 1, Resume 1]"


end
